(* ===== verification/CPrelude.thy ===== *)
theory CPrelude
  imports Main "HOL-Library.Word" "HOL-Library.Monad_Syntax"
begin

text \<open>
  The prelude of the development: the C memory model and the facts every component shares.

  \<^item> A byte is an \<open>8 word\<close>; the address space is one flat list of bytes, an address is an index
    into it, and address 0 is the null pointer, which is never mapped.
  \<^item> \<open>rd\<close> and \<open>wr\<close> are the only accesses. An access to the null pointer or past the end of the
    address space is \<open>None\<close>; every function of the library returns an \<open>option\<close>, and \<open>None\<close> means
    that the C program made an invalid access. A loop that runs along memory therefore always ends:
    at the latest it faults at the end of the address space.
  \<^item> \<open>block\<close> and \<open>put\<close> are the specification-level view of a block of bytes: what a range holds and
    the memory with a range overwritten. \<open>cstr\<close> says that a NUL-terminated string starts at an
    address.
  Pointers and object sizes are natural numbers (pointer arithmetic that leaves an object is not
  defined in C); machine integers whose wrap-around is observable are words of their width.
\<close>

section \<open>Words\<close>

lemma uint_eq_iff [simp]: "uint (a :: 'a::len word) = uint b \<longleftrightarrow> a = b"
  by (metis word_uint_eq_iff)

lemma unat_eq_iff: "unat (a :: 'a::len word) = unat b \<longleftrightarrow> a = b"
  by (rule iffI) (auto intro: unsigned_word_eqI)

lemma uint_eq_0 [simp]: "uint (a :: 'a::len word) = 0 \<longleftrightarrow> a = 0"
  by (fact uint_0_iff)

lemma uint_gt_0 [simp]: "0 < uint (a :: 'a::len word) \<longleftrightarrow> a \<noteq> 0"
  using uint_ge_0 [of a] uint_0_iff [of a] by linarith

lemma uint_not_less: "a \<noteq> (b :: 'a::len word) \<Longrightarrow> \<not> uint b < uint a \<Longrightarrow> uint a < uint b"
  using uint_eq_iff [of a b] by linarith

lemma unat_byte: "unat (c :: 8 word) < 256"
  using unsigned_less [of c, where ?'a = nat] by simp

lemma uint_byte: "0 \<le> uint (c :: 8 word) \<and> uint c < 256"
  using unsigned_less [of c, where ?'a = int] by simp

lemma unat_of_nat64: "n < 2 ^ 64 \<Longrightarrow> unat (word_of_nat n :: 64 word) = n"
  by (simp add: unsigned_of_nat take_bit_nat_eq_self)

lemma unat_drop_bit: "unat (drop_bit k w) = unat (w :: 'a::len word) div 2 ^ k"
  by (subst unsigned_drop_bit_eq) (simp add: drop_bit_eq_div take_bit_nat_def)

lemma scast_of_nat: "n < 2 ^ 31 \<Longrightarrow> scast (word_of_nat n :: 32 word) = (word_of_nat n :: 64 word)"
  by (simp add: signed_of_nat signed_take_bit_int_eq_self)

section \<open>Memory\<close>

type_synonym byte = "8 word"
type_synonym addr = nat
type_synonym mem = "byte list"

abbreviation (input) NULL :: addr where "NULL \<equiv> 0"

named_theorems mem_simps \<open>equations that evaluate memory accesses\<close>

definition rd :: "mem \<Rightarrow> addr \<Rightarrow> byte option" where
  "rd m p = (if 0 < p \<and> p < length m then Some (m ! p) else None)"

definition wr :: "mem \<Rightarrow> addr \<Rightarrow> byte \<Rightarrow> mem option" where
  "wr m p v = (if 0 < p \<and> p < length m then Some (m[p := v]) else None)"

definition mapped :: "mem \<Rightarrow> addr \<Rightarrow> nat \<Rightarrow> bool" where
  "mapped m p n \<longleftrightarrow> n = 0 \<or> (0 < p \<and> p + n \<le> length m)"

definition block :: "mem \<Rightarrow> addr \<Rightarrow> nat \<Rightarrow> byte list" where
  "block m p n = take n (drop p m)"

definition put :: "mem \<Rightarrow> addr \<Rightarrow> byte list \<Rightarrow> mem" where
  "put m p xs = take p m @ xs @ drop (p + length xs) m"

definition disjoint_ranges :: "addr \<Rightarrow> nat \<Rightarrow> addr \<Rightarrow> nat \<Rightarrow> bool" where
  "disjoint_ranges p n q k \<longleftrightarrow> p + n \<le> q \<or> q + k \<le> p"

definition cstr :: "mem \<Rightarrow> addr \<Rightarrow> byte list \<Rightarrow> bool" where
  "cstr m p xs \<longleftrightarrow> 0 < p \<and> p + length xs < length m \<and> block m p (length xs) = xs
     \<and> m ! (p + length xs) = 0 \<and> 0 \<notin> set xs"

subsection \<open>Single cells\<close>

lemma rd_Some_iff [simp]: "rd m p = Some c \<longleftrightarrow> 0 < p \<and> p < length m \<and> c = m ! p"
  by (auto simp: rd_def)

lemma rd_None_iff [simp]: "rd m p = None \<longleftrightarrow> p = 0 \<or> length m \<le> p"
  by (auto simp: rd_def)

lemma wr_Some_iff [simp]: "wr m p v = Some m' \<longleftrightarrow> 0 < p \<and> p < length m \<and> m' = m[p := v]"
  by (auto simp: wr_def)

lemma wr_None_iff [simp]: "wr m p v = None \<longleftrightarrow> p = 0 \<or> length m \<le> p"
  by (auto simp: wr_def)

lemma rd_in [mem_simps]: "0 < p \<Longrightarrow> p < length m \<Longrightarrow> rd m p = Some (m ! p)"
  by simp

lemma wr_in [mem_simps]: "0 < p \<Longrightarrow> p < length m \<Longrightarrow> wr m p v = Some (m[p := v])"
  by simp

lemma bind_rd_in [mem_simps]: "0 < p \<Longrightarrow> p < length m \<Longrightarrow> Option.bind (rd m p) f = f (m ! p)"
  by (simp add: rd_def)

lemma bind_wr_in [mem_simps]: "0 < p \<Longrightarrow> p < length m \<Longrightarrow> Option.bind (wr m p v) f = f (m[p := v])"
  by (simp add: wr_def)

lemma wr_length: "wr m p v = Some m' \<Longrightarrow> length m' = length m"
  by auto

subsection \<open>Blocks\<close>

lemma mapped_0 [simp]: "mapped m p 0"
  by (simp add: mapped_def)

lemma mapped_Suc: "mapped m p (Suc n) \<longleftrightarrow> 0 < p \<and> p + n < length m"
  by (auto simp: mapped_def)

lemma mapped_mono: "mapped m p n \<Longrightarrow> k \<le> n \<Longrightarrow> mapped m p k"
  by (auto simp: mapped_def)

lemma mapped_shift: "mapped m p n \<Longrightarrow> j + k \<le> n \<Longrightarrow> mapped m (p + j) k"
  by (auto simp: mapped_def)

lemma block_0 [simp]: "block m p 0 = []"
  by (simp add: block_def)

lemma length_block [simp]: "p + n \<le> length m \<Longrightarrow> length (block m p n) = n"
  by (simp add: block_def)

lemma length_block_mapped [simp]: "mapped m p n \<Longrightarrow> length (block m p n) = n"
  by (auto simp: block_def mapped_def)

lemma nth_block [simp]: "i < n \<Longrightarrow> p + n \<le> length m \<Longrightarrow> block m p n ! i = m ! (p + i)"
  by (simp add: block_def)

lemma block_Suc: "p < length m \<Longrightarrow> block m p (Suc n) = m ! p # block m (Suc p) n"
  by (simp add: block_def Cons_nth_drop_Suc [symmetric])

lemma block_Suc_last: "p + n < length m \<Longrightarrow> block m p (Suc n) = block m p n @ [m ! (p + n)]"
  by (simp add: block_def take_Suc_conv_app_nth)

lemma block_block: "j + k \<le> n \<Longrightarrow> block (block m p n) j k = block m (p + j) k"
  by (simp add: block_def drop_take add.commute)

lemma block_append: "block m p (j + k) = block m p j @ block m (p + j) k"
  by (simp add: block_def take_add add.commute)

lemma block_eqI:
  assumes "p + n \<le> length m" "q + n \<le> length m'" "\<And>i. i < n \<Longrightarrow> m ! (p + i) = m' ! (q + i)"
  shows "block m p n = block m' q n"
  by (rule nth_equalityI) (use assms in auto)

lemma put_Nil [simp]: "put m p [] = m"
  by (simp add: put_def)

lemma length_put [simp]: "p + length xs \<le> length m \<Longrightarrow> length (put m p xs) = length m"
  by (simp add: put_def)

lemma nth_put:
  assumes "p + length xs \<le> length m"
  shows "put m p xs ! i = (if p \<le> i \<and> i < p + length xs then xs ! (i - p) else m ! i)"
  using assms by (auto simp: put_def nth_append)

lemma put_Cons: "p + length xs < length m \<Longrightarrow> put (m[p := x]) (Suc p) xs = put m p (x # xs)"
  by (rule nth_equalityI) (auto simp: nth_put nth_Cons' nth_list_update)

lemma put_snoc: "p + length xs < length m \<Longrightarrow> put (m[p + length xs := x]) p xs = put m p (xs @ [x])"
  by (rule nth_equalityI) (auto simp: nth_put nth_append nth_list_update)

lemma put_update: "p + length xs < length m \<Longrightarrow> (put m p xs)[p + length xs := x] = put m p (xs @ [x])"
  by (rule nth_equalityI) (auto simp: nth_put nth_append nth_list_update)

lemma put_append: "p + length xs + length ys \<le> length m \<Longrightarrow>
    put (put m p xs) (p + length xs) ys = put m p (xs @ ys)"
  by (rule nth_equalityI) (auto simp: nth_put nth_append)

lemma put_single: "p < length m \<Longrightarrow> put m p [x] = m[p := x]"
  by (rule nth_equalityI) (auto simp: nth_put nth_list_update)

lemma put_block_id: "p + n \<le> length m \<Longrightarrow> put m p (block m p n) = m"
  by (rule nth_equalityI) (auto simp: nth_put)

lemma block_put_same: "p + length xs \<le> length m \<Longrightarrow> block (put m p xs) p (length xs) = xs"
  by (simp add: block_def put_def)

lemma block_put_disjoint:
  assumes "q + k \<le> length m" "p + length xs \<le> length m" "disjoint_ranges p (length xs) q k"
  shows "block (put m p xs) q k = block m q k"
  using assms by (intro block_eqI) (auto simp: nth_put disjoint_ranges_def)

lemma block_update_out: "i < p \<or> p + n \<le> i \<Longrightarrow> p + n \<le> length m \<Longrightarrow> block (m[i := x]) p n = block m p n"
  by (rule block_eqI) auto

subsection \<open>Strings\<close>

lemma cstr_Nil: "cstr m p [] \<longleftrightarrow> 0 < p \<and> p < length m \<and> m ! p = 0"
  by (auto simp: cstr_def)

lemma cstr_Cons: "cstr m p (x # xs) \<longleftrightarrow> 0 < p \<and> p < length m \<and> m ! p = x \<and> x \<noteq> 0 \<and> cstr m (Suc p) xs"
  by (auto simp: cstr_def block_Suc)

lemmas cstr_simps = cstr_Nil cstr_Cons

lemma cstr_mapped: "cstr m p xs \<Longrightarrow> mapped m p (Suc (length xs))"
  by (auto simp: cstr_def mapped_def)

lemma cstr_block: "cstr m p xs \<Longrightarrow> block m p (Suc (length xs)) = xs @ [0]"
  by (auto simp: cstr_def block_Suc_last)

lemma cstr_block_take: "cstr m p xs \<Longrightarrow> k \<le> length xs \<Longrightarrow> block m p k = take k xs"
  unfolding cstr_def block_def by (elim conjE, erule subst [of _ _ "\<lambda>ys. take k (drop p m) = take k ys"]) simp

lemma cstr_nth: "cstr m p xs \<Longrightarrow> i < length xs \<Longrightarrow> m ! (p + i) = xs ! i"
  by (metis cstr_def less_imp_le nth_block)

lemma cstr_drop: "cstr m p xs \<Longrightarrow> k \<le> length xs \<Longrightarrow> cstr m (p + k) (drop k xs)"
proof (induction k arbitrary: p xs)
  case 0
  then show ?case by simp
next
  case (Suc k)
  then obtain y ys where "xs = y # ys" by (cases xs) auto
  with Suc.prems Suc.IH [of "Suc p" ys] show ?case by (simp add: cstr_Cons)
qed

lemma cstr_unique: "cstr m p xs \<Longrightarrow> cstr m p ys \<Longrightarrow> xs = ys"
  by (induction xs arbitrary: p ys) (auto simp: cstr_simps neq_Nil_conv, (case_tac ys; force simp: cstr_simps)+)

lemma cstrI_block:
  assumes "0 < p" "p + length xs < length m" "block m p (Suc (length xs)) = xs @ [0]" "0 \<notin> set xs"
  shows "cstr m p xs"
  using assms by (simp add: cstr_def block_Suc_last)

lemma cstr_update_out:
  "cstr m p xs \<Longrightarrow> i < p \<or> p + length xs < i \<Longrightarrow> cstr (m[i := v]) p xs"
  by (auto simp: cstr_def block_update_out)

lemma cstr_put_out:
  assumes "cstr m p xs" "q + length ys \<le> length m" "disjoint_ranges q (length ys) p (Suc (length xs))"
  shows "cstr (put m q ys) p xs"
proof -
  have "block (put m q ys) p (length xs) = block m p (length xs)"
    using assms by (intro block_put_disjoint) (auto simp: cstr_def disjoint_ranges_def)
  with assms show ?thesis
    by (auto simp: cstr_def nth_put disjoint_ranges_def)
qed

lemma cstr_put: "0 < p \<Longrightarrow> p + length xs < length m \<Longrightarrow> 0 \<notin> set xs \<Longrightarrow> cstr (put m p (xs @ [0])) p xs"
  using block_put_same [of p "xs @ [0]" m] by (intro cstrI_block) auto

lemma cstr_cut: "cstr m p xs \<Longrightarrow> k \<le> length xs \<Longrightarrow> cstr (m[p + k := 0]) p (take k xs)"
proof (induction k arbitrary: p xs)
  case 0
  then show ?case by (auto simp: cstr_def)
next
  case (Suc k)
  then obtain y ys where "xs = y # ys" by (cases xs) auto
  with Suc.prems Suc.IH [of "Suc p" ys] show ?case by (simp add: cstr_Cons)
qed

end
