(* ===== verification/MemFuns.thy ===== *)
theory MemFuns
  imports CPrelude
begin

text \<open>
  The byte-block functions of \<^verbatim>\<open>libc/src/mem*.c\<close>: copy, move, fill, compare, swap and search. Each
  C loop is a recursive function with the loop's variables as arguments, and the function itself
  sets the variables up as the C code does and returns the memory together with its C result.
  The lemmas give each function's effect in terms of \<open>block\<close> and \<open>put\<close>, first for the loop.
\<close>

section \<open>Definitions\<close>

subsection \<open>memcpy, memmove, memset\<close>

fun memcpy_loop :: "mem \<Rightarrow> addr \<Rightarrow> addr \<Rightarrow> nat \<Rightarrow> mem option" where
  "memcpy_loop m q p 0 = Some m"
| "memcpy_loop m q p (Suc n) = do {
     c \<leftarrow> rd m p;
     m' \<leftarrow> wr m q c;
     memcpy_loop m' (q + 1) (p + 1) n
   }"

definition memcpy :: "mem \<Rightarrow> addr \<Rightarrow> addr \<Rightarrow> nat \<Rightarrow> (mem \<times> addr) option" where
  "memcpy m dst src n = do {
     m' \<leftarrow> memcpy_loop m dst src n;
     Some (m', dst)
   }"

fun memmove_down :: "mem \<Rightarrow> addr \<Rightarrow> addr \<Rightarrow> nat \<Rightarrow> mem option" where
  "memmove_down m q p 0 = Some m"
| "memmove_down m q p (Suc n) = do {
     c \<leftarrow> rd m (p - 1);
     m' \<leftarrow> wr m (q - 1) c;
     memmove_down m' (q - 1) (p - 1) n
   }"

definition memmove :: "mem \<Rightarrow> addr \<Rightarrow> addr \<Rightarrow> nat \<Rightarrow> (mem \<times> addr) option" where
  "memmove m dst src n = do {
     m' \<leftarrow> (if dst < src then memcpy_loop m dst src n
            else memmove_down m (dst + n) (src + n) n);
     Some (m', dst)
   }"

fun memset_loop :: "mem \<Rightarrow> addr \<Rightarrow> byte \<Rightarrow> nat \<Rightarrow> mem option" where
  "memset_loop m q c 0 = Some m"
| "memset_loop m q c (Suc n) = do {
     m' \<leftarrow> wr m q c;
     memset_loop m' (q + 1) c n
   }"

definition memset :: "mem \<Rightarrow> addr \<Rightarrow> 32 word \<Rightarrow> nat \<Rightarrow> (mem \<times> addr) option" where
  "memset m dst c n = do {
     m' \<leftarrow> memset_loop m dst (ucast c) n;
     Some (m', dst)
   }"

definition bzero :: "mem \<Rightarrow> addr \<Rightarrow> nat \<Rightarrow> mem option" where
  "bzero m dst n = do {
     (m', _) \<leftarrow> memset m dst 0 n;
     Some m'
   }"

subsection \<open>memcmp, memchr, memrchr, memccpy, memswap\<close>

fun memcmp :: "mem \<Rightarrow> addr \<Rightarrow> addr \<Rightarrow> nat \<Rightarrow> int option" where
  "memcmp m c1 c2 0 = Some 0"
| "memcmp m c1 c2 (Suc n) = do {
     a \<leftarrow> rd m c1;
     b \<leftarrow> rd m c2;
     let d = uint a - uint b;
     if d \<noteq> 0 then Some d else memcmp m (c1 + 1) (c2 + 1) n
   }"

fun memchr_loop :: "mem \<Rightarrow> addr \<Rightarrow> byte \<Rightarrow> nat \<Rightarrow> addr option" where
  "memchr_loop m sp c 0 = Some NULL"
| "memchr_loop m sp c (Suc n) = do {
     a \<leftarrow> rd m sp;
     if a = c then Some sp else memchr_loop m (sp + 1) c n
   }"

definition memchr :: "mem \<Rightarrow> addr \<Rightarrow> 32 word \<Rightarrow> nat \<Rightarrow> addr option" where
  "memchr m s c n = memchr_loop m s (ucast c) n"

fun memrchr_loop :: "mem \<Rightarrow> addr \<Rightarrow> byte \<Rightarrow> nat \<Rightarrow> addr option" where
  "memrchr_loop m sp c 0 = Some NULL"
| "memrchr_loop m sp c (Suc n) = do {
     a \<leftarrow> rd m sp;
     if a = c then Some sp else memrchr_loop m (sp - 1) c n
   }"

definition memrchr :: "mem \<Rightarrow> addr \<Rightarrow> 32 word \<Rightarrow> nat \<Rightarrow> addr option" where
  "memrchr m s c n = memrchr_loop m (s + n - 1) (ucast c) n"

fun memccpy_loop :: "mem \<Rightarrow> addr \<Rightarrow> addr \<Rightarrow> byte \<Rightarrow> nat \<Rightarrow> (mem \<times> addr) option" where
  "memccpy_loop m q p c 0 = Some (m, NULL)"
| "memccpy_loop m q p c (Suc n) = do {
     ch \<leftarrow> rd m p;
     m' \<leftarrow> wr m q ch;
     if ch = c then Some (m', q + 1) else memccpy_loop m' (q + 1) (p + 1) c n
   }"

definition memccpy :: "mem \<Rightarrow> addr \<Rightarrow> addr \<Rightarrow> 32 word \<Rightarrow> nat \<Rightarrow> (mem \<times> addr) option" where
  "memccpy m dst src c n = memccpy_loop m dst src (ucast c) n"

fun memswap :: "mem \<Rightarrow> addr \<Rightarrow> addr \<Rightarrow> nat \<Rightarrow> mem option" where
  "memswap m p q 0 = Some m"
| "memswap m p q (Suc n) = do {
     tmp \<leftarrow> rd m p;
     b \<leftarrow> rd m q;
     m1 \<leftarrow> wr m p b;
     m2 \<leftarrow> wr m1 q tmp;
     memswap m2 (p + 1) (q + 1) n
   }"

subsection \<open>memmem\<close>

text \<open>The search loop for needles of two or more bytes. \<open>same\<close> is the test \<open>x[0] == x[1]\<close>, from
  which the code chooses the two step widths \<open>k\<close> and \<open>l\<close>.\<close>

function memmem_loop :: "mem \<Rightarrow> addr \<Rightarrow> nat \<Rightarrow> addr \<Rightarrow> nat \<Rightarrow> bool \<Rightarrow> nat \<Rightarrow> addr option" where
  "memmem_loop m y n x mm same j = (let k = (if same then 2 else 1); l = (if same then 1 else 2) in
     if j \<le> n - mm then do {
       x1 \<leftarrow> rd m (x + 1);
       y1 \<leftarrow> rd m (y + j + 1);
       if x1 \<noteq> y1 then memmem_loop m y n x mm same (j + k)
       else do {
         d \<leftarrow> memcmp m (x + 2) (y + j + 2) (mm - 2);
         hit \<leftarrow> (if d = 0 then do { x0 \<leftarrow> rd m x; y0 \<leftarrow> rd m (y + j); Some (x0 = y0) }
                else Some False);
         if hit then Some (y + j)
         else memmem_loop m y n x mm same (j + l)
       }
     } else Some NULL)"
  by pat_completeness auto
termination
  by (relation "measure (\<lambda>(m, y, n, x, mm, same, j). Suc n - j)") auto

declare memmem_loop.simps [simp del]

fun memmem_one :: "mem \<Rightarrow> addr \<Rightarrow> addr \<Rightarrow> nat \<Rightarrow> addr option" where
  "memmem_one m y x 0 = Some NULL"
| "memmem_one m y x (Suc n) = do {
     a \<leftarrow> rd m y;
     b \<leftarrow> rd m x;
     if a = b then Some y else memmem_one m (y + 1) x n
   }"

definition memmem :: "mem \<Rightarrow> addr \<Rightarrow> nat \<Rightarrow> addr \<Rightarrow> nat \<Rightarrow> addr option" where
  "memmem m haystack n needle mm =
     (if mm > n \<or> mm = 0 \<or> n = 0 then Some NULL
      else if 1 \<noteq> mm then do {
        x0 \<leftarrow> rd m needle;
        x1 \<leftarrow> rd m (needle + 1);
        memmem_loop m haystack n needle mm (x0 = x1) 0
      }
      else memmem_one m haystack needle n)"

section \<open>Copying and filling\<close>

lemma memcpy_loop_put:
  assumes "mapped m q n" "mapped m p n" "q \<le> p \<or> p + n \<le> q"
  shows "memcpy_loop m q p n = Some (put m q (block m p n))"
  using assms
proof (induction n arbitrary: m q p)
  case 0
  then show ?case by simp
next
  case (Suc n)
  let ?m = "m[q := m ! p]"
  from Suc.prems have b: "0 < q" "0 < p" "q + n < length m" "p + n < length m"
    by (auto simp: mapped_Suc)
  have "memcpy_loop ?m (q + 1) (p + 1) n = Some (put ?m (q + 1) (block ?m (p + 1) n))"
    using Suc.prems by (intro Suc.IH) (auto simp: mapped_def)
  also have "block ?m (p + 1) n = block m (p + 1) n"
    using Suc.prems b by (intro block_update_out) auto
  also have "put ?m (q + 1) (block m (p + 1) n) = put m q (block m p (Suc n))"
    using b put_Cons [of q "block m (Suc p) n" m "m ! p"] by (simp add: block_Suc)
  finally show ?case
    using b by (simp add: mem_simps)
qed

lemma memmove_down_put:
  assumes "mapped m dst n" "mapped m src n" "src \<le> dst"
  shows "memmove_down m (dst + n) (src + n) n = Some (put m dst (block m src n))"
  using assms
proof (induction n arbitrary: m)
  case 0
  then show ?case by simp
next
  case (Suc n)
  let ?m = "m[dst + n := m ! (src + n)]"
  from Suc.prems have b: "0 < dst" "0 < src" "dst + n < length m" "src + n < length m"
    by (auto simp: mapped_Suc)
  have "memmove_down ?m (dst + n) (src + n) n = Some (put ?m dst (block ?m src n))"
    using Suc.prems by (intro Suc.IH) (auto simp: mapped_def)
  also have "block ?m src n = block m src n"
    using Suc.prems b by (intro block_update_out) auto
  also have "put ?m dst (block m src n) = put m dst (block m src (Suc n))"
    using b put_snoc [of dst "block m src n" m "m ! (src + n)"] by (simp add: block_Suc_last)
  finally show ?case
    using b by (simp add: mem_simps)
qed

lemma memset_loop_put:
  "mapped m q n \<Longrightarrow> memset_loop m q c n = Some (put m q (replicate n c))"
proof (induction n arbitrary: m q)
  case 0
  then show ?case by simp
next
  case (Suc n)
  from Suc.prems have b: "0 < q" "q + n < length m"
    by (auto simp: mapped_Suc)
  have "memset_loop (m[q := c]) (q + 1) c n = Some (put (m[q := c]) (q + 1) (replicate n c))"
    using Suc.prems by (intro Suc.IH) (auto simp: mapped_def)
  with b show ?case
    by (simp add: mem_simps put_Cons)
qed

text \<open>
  The contract of a block copy: the destination range becomes the old contents of the source range,
  nothing else changes, and the destination is returned. \<open>safe\<close> says for which positions of the two
  blocks the routine keeps the contract.
\<close>

locale block_copy =
  fixes copy :: "mem \<Rightarrow> addr \<Rightarrow> addr \<Rightarrow> nat \<Rightarrow> (mem \<times> addr) option"
    and safe :: "addr \<Rightarrow> addr \<Rightarrow> nat \<Rightarrow> bool"
  assumes copy_put: "mapped m dst n \<Longrightarrow> mapped m src n \<Longrightarrow> safe dst src n \<Longrightarrow>
      copy m dst src n = Some (put m dst (block m src n), dst)"
begin

lemma copy_dst:
  assumes "mapped m dst n" "mapped m src n" "safe dst src n" "copy m dst src n = Some (m', r)"
  shows "block m' dst n = block m src n \<and> r = dst \<and> length m' = length m"
proof -
  from assms(4) copy_put [OF assms(1-3)] have "m' = put m dst (block m src n)" "r = dst"
    by auto
  then show ?thesis
    using assms(1,2) block_put_same [of dst "block m src n" m] by (cases n) (auto simp: mapped_def)
qed

lemma copy_frame:
  assumes "mapped m dst n" "mapped m src n" "safe dst src n" "copy m dst src n = Some (m', r)"
    and "i < dst \<or> dst + n \<le> i"
  shows "m' ! i = m ! i"
proof -
  from assms(4) copy_put [OF assms(1-3)] have "m' = put m dst (block m src n)"
    by auto
  with assms show ?thesis
    by (cases n) (auto simp: nth_put mapped_def)
qed

lemma copy_cstr:
  assumes "mapped m dst (Suc (length xs))" "cstr m src xs" "safe dst src (Suc (length xs))"
  shows "\<exists>m'. copy m dst src (Suc (length xs)) = Some (m', dst) \<and> cstr m' dst xs"
proof -
  let ?m = "put m dst (block m src (Suc (length xs)))"
  have "copy m dst src (Suc (length xs)) = Some (?m, dst)"
    using assms by (intro copy_put) (auto intro: cstr_mapped)
  moreover have "cstr ?m dst xs"
    using assms block_put_same [of dst "xs @ [0]" m]
    by (intro cstrI_block) (auto simp: cstr_block mapped_def, auto simp: cstr_def)
  ultimately show ?thesis by blast
qed

end

interpretation cpy: block_copy memcpy "\<lambda>dst src n. dst \<le> src \<or> src + n \<le> dst"
  by unfold_locales (simp add: memcpy_def memcpy_loop_put)

interpretation mov: block_copy memmove "\<lambda>dst src n. True"
  by unfold_locales (auto simp: memmove_def memcpy_loop_put memmove_down_put)

lemma memset_put:
  "mapped m dst n \<Longrightarrow> memset m dst c n = Some (put m dst (replicate n (ucast c)), dst)"
  by (simp add: memset_def memset_loop_put)

section \<open>Comparing\<close>

text \<open>The value of \<open>memcmp\<close> on two byte strings of the same length.\<close>

fun bytes_diff :: "byte list \<Rightarrow> byte list \<Rightarrow> int" where
  "bytes_diff (a # as) (b # bs) = (if a \<noteq> b then uint a - uint b else bytes_diff as bs)"
| "bytes_diff _ _ = 0"

lemma bytes_diff_eq_0 [simp]: "length as = length bs \<Longrightarrow> bytes_diff as bs = 0 \<longleftrightarrow> as = bs"
  by (induction as bs rule: list_induct2) auto

lemma bytes_diff_swap: "length as = length bs \<Longrightarrow> bytes_diff bs as = - bytes_diff as bs"
  by (induction as bs rule: list_induct2) auto

lemma bytes_diff_less: "length as = length bs \<Longrightarrow> bytes_diff as bs < 0 \<longleftrightarrow> ord_class.lexordp as bs"
  by (induction as bs rule: list_induct2) (auto simp: word_less_def intro: uint_not_less)

lemma memcmp_bytes:
  "mapped m p n \<Longrightarrow> mapped m q n \<Longrightarrow> memcmp m p q n = Some (bytes_diff (block m p n) (block m q n))"
proof (induction n arbitrary: p q)
  case 0
  then show ?case by simp
next
  case (Suc n)
  then have "memcmp m (p + 1) (q + 1) n = Some (bytes_diff (block m (p + 1) n) (block m (q + 1) n))"
    by (intro Suc.IH) (auto simp: mapped_def)
  with Suc.prems show ?case
    by (auto simp: mapped_Suc mem_simps block_Suc)
qed

section \<open>Searching for a byte\<close>

text \<open>First and last position with a property below a bound, as the two searches look for them.\<close>

definition first_at :: "(nat \<Rightarrow> bool) \<Rightarrow> nat \<Rightarrow> nat option" where
  "first_at P n = find P [0..<n]"

definition last_at :: "(nat \<Rightarrow> bool) \<Rightarrow> nat \<Rightarrow> nat option" where
  "last_at P n = find P (rev [0..<n])"

lemma first_at_0 [simp]: "first_at P 0 = None"
  by (simp add: first_at_def)

lemma last_at_0 [simp]: "last_at P 0 = None"
  by (simp add: last_at_def)

lemma find_map: "find P (map f xs) = map_option f (find (P \<circ> f) xs)"
  by (induction xs) auto

lemma first_at_Suc: "first_at P (Suc n) = (if P 0 then Some 0 else map_option Suc (first_at (P \<circ> Suc) n))"
proof -
  have "[0..<Suc n] = 0 # map Suc [0..<n]"
    by (simp add: upt_conv_Cons map_Suc_upt del: upt_Suc)
  then show ?thesis
    by (simp add: first_at_def find_map del: upt_Suc)
qed

lemma last_at_Suc: "last_at P (Suc n) = (if P n then Some n else last_at P n)"
  by (simp add: last_at_def)

lemma first_at_Some_iff: "first_at P n = Some i \<longleftrightarrow> i < n \<and> P i \<and> (\<forall>j<i. \<not> P j)"
  unfolding first_at_def find_Some_iff by force

lemma first_at_None_iff: "first_at P n = None \<longleftrightarrow> (\<forall>i<n. \<not> P i)"
  by (auto simp: first_at_def find_None_iff)

lemma last_at_Some_iff: "last_at P n = Some i \<longleftrightarrow> i < n \<and> P i \<and> (\<forall>j. i < j \<longrightarrow> j < n \<longrightarrow> \<not> P j)"
  by (induction n) (auto simp: last_at_Suc less_Suc_eq)

lemma last_at_None_iff: "last_at P n = None \<longleftrightarrow> (\<forall>i<n. \<not> P i)"
  by (auto simp: last_at_def find_None_iff)

text \<open>A found position as the pointer the C code returns, null when there is none.\<close>

definition at_ptr :: "addr \<Rightarrow> nat option \<Rightarrow> addr" where
  "at_ptr s r = (case r of None \<Rightarrow> NULL | Some i \<Rightarrow> s + i)"

lemma at_ptr_Suc [simp]: "at_ptr s (map_option Suc r) = at_ptr (Suc s) r"
  by (cases r) (auto simp: at_ptr_def)

lemma at_ptr_simps [simp]: "at_ptr s None = 0" "at_ptr s (Some i) = s + i"
  by (simp_all add: at_ptr_def)

lemma memchr_loop_first:
  "mapped m s n \<Longrightarrow> memchr_loop m s c n = Some (at_ptr s (first_at (\<lambda>i. m ! (s + i) = c) n))"
proof (induction n arbitrary: s)
  case 0
  then show ?case by simp
next
  case (Suc n)
  then have "memchr_loop m (s + 1) c n = Some (at_ptr (s + 1) (first_at (\<lambda>i. m ! (s + 1 + i) = c) n))"
    by (intro Suc.IH) (auto simp: mapped_def)
  with Suc.prems show ?case
    by (auto simp: mapped_Suc mem_simps first_at_Suc comp_def)
qed

lemma memrchr_loop_last:
  "mapped m s n \<Longrightarrow> memrchr_loop m (s + n - 1) c n = Some (at_ptr s (last_at (\<lambda>i. m ! (s + i) = c) n))"
proof (induction n)
  case 0
  then show ?case by simp
next
  case (Suc n)
  then have "memrchr_loop m (s + n - 1) c n = Some (at_ptr s (last_at (\<lambda>i. m ! (s + i) = c) n))"
    by (intro Suc.IH) (auto simp: mapped_def)
  with Suc.prems show ?case
    by (auto simp: mapped_Suc mem_simps last_at_Suc)
qed

section \<open>Swapping\<close>

lemma memswap_put:
  assumes "mapped m p n" "mapped m q n" "disjoint_ranges p n q n"
  shows "memswap m p q n = Some (put (put m p (block m q n)) q (block m p n))"
  using assms
proof (induction n arbitrary: m p q)
  case 0
  then show ?case by simp
next
  case (Suc n)
  let ?m = "m[p := m ! q, q := m ! p]"
  from Suc.prems have b: "0 < q" "0 < p" "q + n < length m" "p + n < length m"
    by (auto simp: mapped_Suc)
  have d: "p + Suc n \<le> q \<or> q + Suc n \<le> p"
    using Suc.prems by (auto simp: disjoint_ranges_def)
  have blocks: "block ?m (q + 1) n = block m (q + 1) n" "block ?m (p + 1) n = block m (p + 1) n"
    using b d by (auto intro!: block_eqI)
  have "memswap ?m (p + 1) (q + 1) n =
      Some (put (put ?m (p + 1) (block ?m (q + 1) n)) (q + 1) (block ?m (p + 1) n))"
    using Suc.prems by (intro Suc.IH) (auto simp: mapped_def disjoint_ranges_def)
  also have "\<dots> = Some (put (put ?m (p + 1) (block m (q + 1) n)) (q + 1) (block m (p + 1) n))"
    by (simp only: blocks)
  also have "put (put ?m (p + 1) (block m (q + 1) n)) (q + 1) (block m (p + 1) n) =
      put (put m p (block m q (Suc n))) q (block m p (Suc n))"
    by (rule nth_equalityI) (use b d in \<open>auto simp: nth_put nth_list_update block_Suc nth_Cons'\<close>)
  finally show ?case
    using b blocks by (simp add: mem_simps)
qed

lemma memswap_swaps:
  assumes "mapped m p n" "mapped m q n" "disjoint_ranges p n q n"
  shows "\<exists>m'. memswap m p q n = Some m' \<and> length m' = length m \<and>
    block m' p n = block m q n \<and> block m' q n = block m p n \<and>
    (\<forall>i. (i < p \<or> p + n \<le> i) \<and> (i < q \<or> q + n \<le> i) \<longrightarrow> m' ! i = m ! i)"
proof (cases "n = 0")
  case False
  then have b: "p + n \<le> length m" "q + n \<le> length m"
    using assms by (auto simp: mapped_def)
  let ?m = "put (put m p (block m q n)) q (block m p n)"
  have "block ?m p n = block m q n" "block ?m q n = block m p n"
    using b assms(3) by (auto intro!: block_eqI simp: nth_put disjoint_ranges_def)
  then show ?thesis
    using b by (auto simp: memswap_put [OF assms] nth_put)
qed simp

section \<open>Searching for a block\<close>

definition occurs_at :: "mem \<Rightarrow> addr \<Rightarrow> addr \<Rightarrow> nat \<Rightarrow> nat \<Rightarrow> bool" where
  "occurs_at m y x mm j \<longleftrightarrow> block m (y + j) mm = block m x mm"

lemma occurs_at_split:
  assumes "mapped m y n" "mapped m x mm" "2 \<le> mm" "j + mm \<le> n"
  shows "occurs_at m y x mm j \<longleftrightarrow>
    m ! (y + j) = m ! x \<and> m ! (y + j + 1) = m ! (x + 1) \<and>
    bytes_diff (block m (x + 2) (mm - 2)) (block m (y + j + 2) (mm - 2)) = 0"
proof -
  define k where "k = mm - 2"
  have k: "mm = Suc (Suc k)"
    using assms(3) by (simp add: k_def)
  have b: "x + Suc (Suc k) \<le> length m" "y + j + Suc (Suc k) \<le> length m"
    using assms k by (auto simp: mapped_def)
  have "bytes_diff (block m (x + 2) k) (block m (y + j + 2) k) = 0 \<longleftrightarrow>
      block m (x + 2) k = block m (y + j + 2) k"
    using b by (intro bytes_diff_eq_0) simp
  moreover have "occurs_at m y x mm j \<longleftrightarrow> m ! (y + j) = m ! x \<and> m ! (y + j + 1) = m ! (x + 1) \<and>
      block m (x + 2) k = block m (y + j + 2) k"
    using b by (simp add: occurs_at_def k block_Suc eq_commute)
  ultimately show ?thesis
    by (simp add: k_def)
qed

text \<open>The two step widths never jump over an occurrence: when the second needle byte does not
  match, a needle of two equal bytes cannot start at the next position either; when it matches, a
  needle of two different bytes cannot.\<close>

lemma memmem_skip:
  assumes "mapped m y n" "mapped m x mm" "2 \<le> mm" "mm \<le> n" "j \<le> n - mm"
    and before: "\<And>i. i < j \<Longrightarrow> i \<le> n - mm \<Longrightarrow> \<not> occurs_at m y x mm i"
    and here: "\<not> occurs_at m y x mm j"
    and "same = (m ! x = m ! (x + 1))"
    and "d = (if same \<longleftrightarrow> m ! (x + 1) \<noteq> m ! (y + j + 1) then 2 else 1)"
    and "i < j + d" "i \<le> n - mm"
  shows "\<not> occurs_at m y x mm i"
proof -
  have "d = 1 \<or> d = 2"
    using assms(9) by simp
  with assms(10) consider "i < j" | "i = j" | "i = j + 1" "d = 2"
    by linarith
  then show ?thesis
  proof cases
    case 3
    with assms(9) have "same \<longleftrightarrow> m ! (x + 1) \<noteq> m ! (y + j + 1)"
      by (auto split: if_splits)
    with assms(8) have "m ! (y + i) \<noteq> m ! x"
      using 3 by auto
    with assms show ?thesis
      by (subst occurs_at_split) auto
  qed (use before here assms(11) in auto)
qed

lemma memmem_loop_first:
  assumes "mapped m y n" "mapped m x mm" "2 \<le> mm" "mm \<le> n"
    and "\<And>i. i < j \<Longrightarrow> i \<le> n - mm \<Longrightarrow> \<not> occurs_at m y x mm i"
    and "same = (m ! x = m ! (x + 1))"
  shows "memmem_loop m y n x mm same j = Some (at_ptr y (first_at (occurs_at m y x mm) (Suc (n - mm))))"
  using assms(5)
proof (induction "Suc n - j" arbitrary: j rule: less_induct)
  case less
  note eq = memmem_loop.simps [of m y n x mm same j]
  show ?case
  proof (cases "j \<le> n - mm")
    case False
    then have "first_at (occurs_at m y x mm) (Suc (n - mm)) = None"
      using less.prems by (auto simp: first_at_None_iff)
    with False show ?thesis
      by (simp add: eq)
  next
    case True
    have b: "0 < x" "0 < y" "x + mm \<le> length m" "y + n \<le> length m"
      using assms by (auto simp: mapped_def)
    have cmp: "memcmp m (x + 2) (y + j + 2) (mm - 2) =
        Some (bytes_diff (block m (x + 2) (mm - 2)) (block m (y + j + 2) (mm - 2)))"
      using assms True b by (intro memcmp_bytes) (auto simp: mapped_def)
    have sp: "occurs_at m y x mm j \<longleftrightarrow> m ! (y + j) = m ! x \<and> m ! (y + j + 1) = m ! (x + 1) \<and>
        bytes_diff (block m (x + 2) (mm - 2)) (block m (y + j + 2) (mm - 2)) = 0"
      using assms True by (intro occurs_at_split) auto
    show ?thesis
    proof (cases "occurs_at m y x mm j")
      case hit: True
      then have "first_at (occurs_at m y x mm) (Suc (n - mm)) = Some j"
        using True less.prems by (auto simp: first_at_Some_iff)
      moreover have "memmem_loop m y n x mm same j = Some (y + j)"
        using hit True b assms(3,4) cmp by (simp add: eq sp mem_simps)
      ultimately show ?thesis by simp
    next
      case miss: False
      let ?d = "if same \<longleftrightarrow> m ! (x + 1) \<noteq> m ! (y + j + 1) then 2 else 1 :: nat"
      have "memmem_loop m y n x mm same j = memmem_loop m y n x mm same (j + ?d)"
        using miss True b assms(3,4) cmp by (auto simp: eq sp mem_simps)
      also have "\<dots> = Some (at_ptr y (first_at (occurs_at m y x mm) (Suc (n - mm))))"
      proof (rule less.hyps)
        show "Suc n - (j + ?d) < Suc n - j"
          using True assms(4) by auto
        show "\<not> occurs_at m y x mm i" if "i < j + ?d" "i \<le> n - mm" for i
          using memmem_skip [OF assms(1-4) True less.prems miss assms(6) refl that] .
      qed
      finally show ?thesis .
    qed
  qed
qed

lemma memmem_one_first:
  "mapped m y n \<Longrightarrow> mapped m x 1 \<Longrightarrow>
   memmem_one m y x n = Some (at_ptr y (first_at (occurs_at m y x 1) n))"
proof (induction n arbitrary: y)
  case 0
  then show ?case by simp
next
  case (Suc n)
  then have "memmem_one m (y + 1) x n = Some (at_ptr (y + 1) (first_at (occurs_at m (y + 1) x 1) n))"
    by (intro Suc.IH) (auto simp: mapped_def)
  moreover have "occurs_at m y x 1 0 \<longleftrightarrow> m ! y = m ! x"
    using Suc.prems by (simp add: occurs_at_def block_Suc mapped_def)
  moreover have "occurs_at m y x 1 \<circ> Suc = occurs_at m (y + 1) x 1"
    by (simp add: occurs_at_def fun_eq_iff)
  ultimately show ?case
    using Suc.prems by (simp add: mapped_Suc mapped_def mem_simps first_at_Suc)
qed

lemma memmem_first:
  assumes "mapped m y n" "mapped m x mm" "0 < mm" "mm \<le> n"
  shows "memmem m y n x mm = Some (at_ptr y (first_at (occurs_at m y x mm) (Suc (n - mm))))"
proof (cases "mm = 1")
  case True
  with assms show ?thesis
    using memmem_one_first [of m y n x] by (simp add: memmem_def)
next
  case False
  with assms have "0 < x" "x + 1 < length m" "2 \<le> mm"
    by (auto simp: mapped_def)
  with assms False show ?thesis
    using memmem_loop_first [of m y n x mm 0] by (simp add: memmem_def mem_simps)
qed

section \<open>Properties\<close>

text \<open>C29: \<open>memmove\<close> copies a block correctly for every position of source and destination, overlapping or
  not: it never faults on mapped blocks, the destination then holds what the source held before the
  call, no byte outside the destination changes, and the destination pointer is returned.\<close>

theorem memmove_correct:
  assumes "mapped m dst n" "mapped m src n"
  shows "\<exists>m'. memmove m dst src n = Some (m', dst) \<and> length m' = length m \<and>
    block m' dst n = block m src n \<and> (\<forall>i. i < dst \<or> dst + n \<le> i \<longrightarrow> m' ! i = m ! i)"
proof -
  obtain m' where m': "memmove m dst src n = Some (m', dst)"
    using mov.copy_put [OF assms TrueI] by blast
  with mov.copy_dst [OF assms TrueI m'] mov.copy_frame [OF assms TrueI m'] show ?thesis by auto
qed

theorem memmove_correct_witness:
  "\<exists>m'. memmove [0, 1, 2, 3, 4] 2 1 3 = Some (m', 2) \<and> block m' 2 3 = [1, 2, 3]"
proof -
  have "mapped [0, 1, 2, 3, 4] 2 3" "mapped [0, 1, 2, 3, 4] 1 3"
    by (simp_all add: mapped_def)
  from memmove_correct [OF this] show ?thesis
    by (auto simp: block_def)
qed

text \<open>\<open>memswap\<close> on two disjoint blocks exchanges their contents and changes no other byte.\<close>

theorem memswap_exchanges:
  assumes "mapped m p n" "mapped m q n" "disjoint_ranges p n q n"
  shows "\<exists>m'. memswap m p q n = Some m' \<and> length m' = length m \<and>
    block m' p n = block m q n \<and> block m' q n = block m p n \<and>
    (\<forall>i. (i < p \<or> p + n \<le> i) \<and> (i < q \<or> q + n \<le> i) \<longrightarrow> m' ! i = m ! i)"
  by (rule memswap_swaps [OF assms])

theorem memswap_exchanges_witness:
  "\<exists>m'. memswap [0, 1, 2, 3, 4] 1 3 2 = Some m' \<and> block m' 1 2 = [3, 4] \<and> block m' 3 2 = [1, 2]"
proof -
  have "mapped [0, 1, 2, 3, 4] 1 2" "mapped [0, 1, 2, 3, 4] 3 2" "disjoint_ranges 1 2 3 2"
    by (simp_all add: mapped_def disjoint_ranges_def)
  from memswap_exchanges [OF this] show ?thesis
    by (auto simp: block_def)
qed

text \<open>C30: \<open>memmem\<close>, the "Not So Naive" search with its variable step width, finds exactly the first
  occurrence of a non-empty needle that lies within the haystack, or returns null; a needle longer than the
  haystack has none. It reads only the two blocks it was given.\<close>

theorem memmem_finds_first:
  assumes "mapped m y n" "mapped m x k" "0 < k"
  shows "\<exists>r. memmem m y n x k = Some r \<and>
    (if \<exists>j. j + k \<le> n \<and> block m (y + j) k = block m x k
     then \<exists>j. j + k \<le> n \<and> r = y + j \<and> block m (y + j) k = block m x k \<and>
       (\<forall>i < j. block m (y + i) k \<noteq> block m x k)
     else r = NULL)"
proof (cases "k \<le> n")
  case False
  then show ?thesis by (simp add: memmem_def)
next
  case True
  note first = memmem_first [OF assms True]
  show ?thesis
  proof (cases "first_at (occurs_at m y x k) (Suc (n - k))")
    case None
    then have "\<not> (\<exists>j. j + k \<le> n \<and> block m (y + j) k = block m x k)"
      by (auto simp: first_at_None_iff occurs_at_def less_Suc_eq_le)
    then show ?thesis using first None by auto
  next
    case (Some j)
    then have "j + k \<le> n \<and> block m (y + j) k = block m x k \<and> (\<forall>i < j. block m (y + i) k \<noteq> block m x k)"
      using True by (auto simp: first_at_Some_iff occurs_at_def)
    then show ?thesis using first Some by auto
  qed
qed

theorem memmem_finds_first_witness: "memmem [0, 97, 97, 97, 98, 97, 98] 1 4 5 2 = Some 3"
proof -
  let ?m = "[0, 97, 97, 97, 98, 97, 98] :: mem"
  have "mapped ?m 1 4" "mapped ?m 5 2" "0 < (2 :: nat)"
    by (simp_all add: mapped_def)
  moreover have "\<exists>j. j + 2 \<le> 4 \<and> block ?m (1 + j) 2 = block ?m 5 2"
    by (rule exI [of _ 2]) (simp add: block_def)
  ultimately obtain r j where r: "memmem ?m 1 4 5 2 = Some r" "r = 1 + j" "j + 2 \<le> 4" "block ?m (1 + j) 2 = block ?m 5 2"
    using memmem_finds_first [of ?m 1 4 5 2] by auto
  moreover have "j = 0 \<or> j = 1 \<or> j = 2"
    using r(3) by linarith
  ultimately show ?thesis
    by (auto simp: block_def)
qed

end
