(* ===== verification/Ctype.thy ===== *)
theory Ctype
  imports CPrelude
begin

text \<open>
  The character classes of \<^verbatim>\<open>libc/include/ctype.h\<close> and their table \<^verbatim>\<open>libc/src/ctypes.c\<close> (ISO 8859-1).
  The table has 257 entries, one for EOF (-1) and one for each byte; a lookup outside it is a fault.
  Runs of equal entries of the table are written with \<open>replicate\<close>.
\<close>

unbundle bit_operations_syntax

section \<open>Definitions\<close>

definition ctype_upper :: byte where "ctype_upper = push_bit 0 1"
definition ctype_lower :: byte where "ctype_lower = push_bit 1 1"
definition ctype_digit :: byte where "ctype_digit = push_bit 2 1"
definition ctype_xdigit :: byte where "ctype_xdigit = push_bit 3 1"
definition ctype_space :: byte where "ctype_space = push_bit 4 1"
definition ctype_print :: byte where "ctype_print = push_bit 5 1"
definition ctype_punct :: byte where "ctype_punct = push_bit 6 1"
definition ctype_cntrl :: byte where "ctype_cntrl = push_bit 7 1"

lemmas ctype_bits = ctype_upper_def ctype_lower_def ctype_digit_def ctype_xdigit_def
  ctype_space_def ctype_print_def ctype_punct_def ctype_cntrl_def

text \<open>Entries for EOF and the bytes 0 to 127 \<dots>\<close>

definition ctypes_ascii :: "byte list" where
  "ctypes_ascii =
     [0] @
     replicate 8 ctype_cntrl @
     replicate 6 (ctype_cntrl OR ctype_space) @
     replicate 18 ctype_cntrl @
     [ctype_print OR ctype_space] @
     replicate 15 (ctype_print OR ctype_punct) @
     replicate 10 (ctype_print OR ctype_digit OR ctype_xdigit) @
     replicate 7 (ctype_print OR ctype_punct) @
     replicate 6 (ctype_print OR ctype_upper OR ctype_xdigit) @
     replicate 20 (ctype_print OR ctype_upper) @
     replicate 6 (ctype_print OR ctype_punct) @
     replicate 6 (ctype_print OR ctype_lower OR ctype_xdigit) @
     replicate 20 (ctype_print OR ctype_lower) @
     replicate 4 (ctype_print OR ctype_punct) @
     [ctype_cntrl]"

text \<open>\<dots> and for the bytes 128 to 255.\<close>

definition ctypes_high :: "byte list" where
  "ctypes_high =
     replicate 32 ctype_cntrl @
     [ctype_print OR ctype_space] @
     replicate 31 (ctype_print OR ctype_punct) @
     replicate 23 (ctype_print OR ctype_upper) @
     [ctype_print OR ctype_punct] @
     replicate 7 (ctype_print OR ctype_upper) @
     replicate 24 (ctype_print OR ctype_lower) @
     [ctype_print OR ctype_punct] @
     replicate 8 (ctype_print OR ctype_lower)"

definition ctypes :: "byte list" where
  "ctypes = ctypes_ascii @ ctypes_high"

definition ctypes_at :: "int \<Rightarrow> byte option" where
  "ctypes_at i = (if 0 \<le> i \<and> i < 257 then Some (ctypes ! nat i) else None)"

definition isalnum :: "int \<Rightarrow> int option" where
  "isalnum c = do { t \<leftarrow> ctypes_at (c + 1);
     Some (uint (t AND (ctype_upper OR ctype_lower OR ctype_digit))) }"

definition isalpha :: "int \<Rightarrow> int option" where
  "isalpha c = do { t \<leftarrow> ctypes_at (c + 1); Some (uint (t AND (ctype_upper OR ctype_lower))) }"

definition isascii :: "int \<Rightarrow> int" where
  "isascii c = (if c AND NOT 0x7f = 0 then 1 else 0)"

definition isblank :: "int \<Rightarrow> int" where
  "isblank c = (if c = 9 \<or> c = 32 then 1 else 0)"

definition iscntrl :: "int \<Rightarrow> int option" where
  "iscntrl c = do { t \<leftarrow> ctypes_at (c + 1); Some (uint (t AND ctype_cntrl)) }"

definition isdigit :: "int \<Rightarrow> int" where
  "isdigit c = (if (word_of_int c :: 32 word) - 48 \<le> 9 then 1 else 0)"

definition isgraph :: "int \<Rightarrow> int option" where
  "isgraph c = do { t \<leftarrow> ctypes_at (c + 1);
     Some (uint (t AND (ctype_upper OR ctype_lower OR ctype_digit OR ctype_punct))) }"

definition islower :: "int \<Rightarrow> int option" where
  "islower c = do { t \<leftarrow> ctypes_at (c + 1); Some (uint (t AND ctype_lower)) }"

definition isprint :: "int \<Rightarrow> int option" where
  "isprint c = do { t \<leftarrow> ctypes_at (c + 1); Some (uint (t AND ctype_print)) }"

definition ispunct :: "int \<Rightarrow> int option" where
  "ispunct c = do { t \<leftarrow> ctypes_at (c + 1); Some (uint (t AND ctype_punct)) }"

definition isspace :: "int \<Rightarrow> int option" where
  "isspace c = do { t \<leftarrow> ctypes_at (c + 1); Some (uint (t AND ctype_space)) }"

definition isupper :: "int \<Rightarrow> int option" where
  "isupper c = do { t \<leftarrow> ctypes_at (c + 1); Some (uint (t AND ctype_upper)) }"

definition isxdigit :: "int \<Rightarrow> int option" where
  "isxdigit c = do { t \<leftarrow> ctypes_at (c + 1); Some (uint (t AND ctype_xdigit)) }"

definition toupper :: "int \<Rightarrow> int option" where
  "toupper c = do { l \<leftarrow> islower c; Some (if l \<noteq> 0 then c AND NOT 32 else c) }"

definition tolower :: "int \<Rightarrow> int option" where
  "tolower c = do { u \<leftarrow> isupper c; Some (if u \<noteq> 0 then c OR 32 else c) }"

section \<open>The table\<close>

lemma length_ctypes: "length ctypes = 257"
  by (simp add: ctypes_def ctypes_ascii_def ctypes_high_def)

text \<open>An entry is found by stepping over the runs; \<open>a\<close> is the number of entries already passed.\<close>

lemma nth_run: "0 < n \<Longrightarrow> (replicate n x @ ys) ! (i - a) = (if i < a + n then x else ys ! (i - (a + n)))"
  by (auto simp: nth_append less_diff_conv2)

lemma nth_one: "([x] @ ys) ! (i - a) = (if i < a + 1 then x else ys ! (i - (a + 1)))"
  using nth_run [of 1 x ys i a] by simp

lemma nth_one0: "([x] @ ys) ! i = (if i < 1 then x else ys ! (i - 1))"
  using nth_one [of x ys i 0] by simp

lemmas ctypes_eval = ctypes_def ctypes_ascii_def ctypes_high_def append_assoc

lemma ctypes_nth:
  assumes "i < 257"
  shows "ctypes ! i =
    (if i < 1 then 0 else if i < 9 then 0x80 else if i < 15 then 0x90 else if i < 33 then 0x80
     else if i < 34 then 0x30 else if i < 49 then 0x60 else if i < 59 then 0x2c
     else if i < 66 then 0x60 else if i < 72 then 0x29 else if i < 92 then 0x21
     else if i < 98 then 0x60 else if i < 104 then 0x2a else if i < 124 then 0x22
     else if i < 128 then 0x60 else if i < 161 then 0x80 else if i < 162 then 0x30
     else if i < 193 then 0x60 else if i < 216 then 0x21 else if i < 217 then 0x60
     else if i < 224 then 0x21 else if i < 248 then 0x22 else if i < 249 then 0x60 else 0x22)"
  using assms by (simp add: ctypes_eval nth_one0 nth_one nth_run ctype_bits del: append_Cons)

text \<open>The classes of every character the functions accept.\<close>

lemma ctypes_at_eq:
  assumes "-1 \<le> c" "c < 256"
  shows "ctypes_at (c + 1) = Some (ctypes ! nat (c + 1))"
  using assms by (simp add: ctypes_at_def)

lemma nat_less_numeral: "0 \<le> i \<Longrightarrow> nat i < numeral k \<longleftrightarrow> i < numeral k"
  by (simp add: nat_less_iff)

lemmas ctype_class_simps = ctypes_at_eq ctypes_nth nat_less_numeral ctype_bits nat_less_iff

lemma isspace_eq: "-1 \<le> c \<Longrightarrow> c < 256 \<Longrightarrow> isspace c = Some (if c \<in> {8..13} \<or> c = 32 \<or> c = 160 then 16 else 0)"
  by (simp add: isspace_def ctype_class_simps)

lemma islower_eq: "-1 \<le> c \<Longrightarrow> c < 256 \<Longrightarrow>
    islower c = Some (if c \<in> {97..122} \<or> c \<in> {223..246} \<or> c \<in> {248..255} then 2 else 0)"
  by (simp add: islower_def ctype_class_simps)

lemma isupper_eq: "-1 \<le> c \<Longrightarrow> c < 256 \<Longrightarrow>
    isupper c = Some (if c \<in> {65..90} \<or> c \<in> {192..214} \<or> c \<in> {216..222} then 1 else 0)"
  by (simp add: isupper_def ctype_class_simps)

lemma isxdigit_eq: "-1 \<le> c \<Longrightarrow> c < 256 \<Longrightarrow>
    isxdigit c = Some (if c \<in> {48..57} \<or> c \<in> {65..70} \<or> c \<in> {97..102} then 8 else 0)"
  by (simp add: isxdigit_def ctype_class_simps)

lemma isdigit_eq: "- (2 ^ 31) \<le> c \<Longrightarrow> c < 2 ^ 31 \<Longrightarrow> isdigit c = (if c \<in> {48..57} then 1 else 0)"
proof -
  assume c: "- (2 ^ 31) \<le> c" "c < 2 ^ 31"
  then have "(c - 48) mod 2 ^ 32 = (if 48 \<le> c then c - 48 else c - 48 + 2 ^ 32)"
    using mod_add_self2 [of "c - 48" "2 ^ 32"] by (auto simp: mod_pos_pos_trivial simp del: mod_add_self2)
  with c show ?thesis
    by (auto simp: isdigit_def word_le_def uint_word_ariths uint_word_of_int mod_diff_left_eq)
qed

lemma toupper_eq:
  assumes "-1 \<le> c" "c < 256"
  shows "toupper c = Some (if c \<in> {97..122} \<or> c \<in> {224..246} \<or> c \<in> {248..255} then c - 32 else c)"
proof -
  have "list_all (\<lambda>c. c AND NOT 32 = c - (32 :: int)) ([97..122] @ [224..246] @ [248..255])"
    by code_simp
  then have "c AND NOT 32 = c - 32" if "c \<in> {97..122} \<or> c \<in> {224..246} \<or> c \<in> {248..255}" for c :: int
    using that unfolding list_all_iff set_append set_upto by blast
  moreover have "223 AND NOT 32 = (223 :: int)" by simp
  ultimately show ?thesis
    using assms by (cases "c = 223") (auto simp: toupper_def islower_eq)
qed

section \<open>Properties\<close>

text \<open>The relations between the classes that \<^verbatim>\<open>ctype.h\<close> relies on hold for every byte: a character is
  a control character exactly when it is not printable, alphabetic exactly when it is upper or lower
  case, graphic exactly when it is punctuation, alphabetic or a digit; no byte is both upper and lower
  case; and every lookup is inside the table.\<close>

theorem ctype_class_laws:
  assumes "0 \<le> c" "c < 256"
  shows "\<exists>cn pr al up lo gr pu an.
    iscntrl c = Some cn \<and> isprint c = Some pr \<and> isalpha c = Some al \<and> isupper c = Some up \<and>
    islower c = Some lo \<and> isgraph c = Some gr \<and> ispunct c = Some pu \<and> isalnum c = Some an \<and>
    (cn \<noteq> 0 \<longleftrightarrow> pr = 0) \<and> (al \<noteq> 0 \<longleftrightarrow> up \<noteq> 0 \<or> lo \<noteq> 0) \<and> \<not> (up \<noteq> 0 \<and> lo \<noteq> 0) \<and>
    (an \<noteq> 0 \<longleftrightarrow> al \<noteq> 0 \<or> isdigit c \<noteq> 0) \<and> (gr \<noteq> 0 \<longleftrightarrow> pu \<noteq> 0 \<or> al \<noteq> 0 \<or> isdigit c \<noteq> 0)"
proof -
  have d: "isdigit c = (if c \<in> {48..57} then 1 else 0)"
    using assms by (intro isdigit_eq) auto
  show ?thesis
    using assms by (simp add: d iscntrl_def isprint_def isalpha_def isupper_def islower_def isgraph_def
        ispunct_def isalnum_def ctype_class_simps)
qed

theorem ctype_class_laws_witness: "isupper 65 = Some 1 \<and> (\<exists>al. isalpha 65 = Some al \<and> al \<noteq> 0)"
  using ctype_class_laws [of 65] isupper_eq [of 65] by auto

end
