(* ===== verification/StrFuns.thy ===== *)
theory StrFuns
  imports MemFuns Ctype
begin

text \<open>
  The string functions of \<^verbatim>\<open>libc/src/str*.c\<close> over NUL-terminated byte strings in memory. A \<^verbatim>\<open>char **\<close>
  parameter (\<^verbatim>\<open>strsep\<close>, \<^verbatim>\<open>strtok_r\<close>) is modelled by passing the pointer's value and returning the new
  one. A loop that walks along a string is bounded by the end of the address space, where it faults.
\<close>

section \<open>Definitions\<close>

subsection \<open>Length and search\<close>

function strlen_loop :: "mem \<Rightarrow> addr \<Rightarrow> addr option" where
  "strlen_loop m ss = do {
     c \<leftarrow> rd m ss;
     if c \<noteq> 0 then strlen_loop m (ss + 1) else Some ss
   }"
  by pat_completeness auto
termination
  by (relation "measure (\<lambda>(m, ss). length m - ss)") auto

definition strlen :: "mem \<Rightarrow> addr \<Rightarrow> nat option" where
  "strlen m s = do { ss \<leftarrow> strlen_loop m s; Some (ss - s) }"

fun strnlen_loop :: "mem \<Rightarrow> addr \<Rightarrow> nat \<Rightarrow> addr option" where
  "strnlen_loop m ss 0 = Some ss"
| "strnlen_loop m ss (Suc maxlen) = do {
     c \<leftarrow> rd m ss;
     if c \<noteq> 0 then strnlen_loop m (ss + 1) maxlen else Some ss
   }"

definition strnlen :: "mem \<Rightarrow> addr \<Rightarrow> nat \<Rightarrow> nat option" where
  "strnlen m s maxlen = do { ss \<leftarrow> strnlen_loop m s maxlen; Some (ss - s) }"

function strchr_loop :: "mem \<Rightarrow> addr \<Rightarrow> byte \<Rightarrow> addr option" where
  "strchr_loop m s c = do {
     a \<leftarrow> rd m s;
     if a \<noteq> c then (if a = 0 then Some NULL else strchr_loop m (s + 1) c) else Some s
   }"
  by pat_completeness auto
termination
  by (relation "measure (\<lambda>(m, s, c). length m - s)") auto

definition strchr :: "mem \<Rightarrow> addr \<Rightarrow> 32 word \<Rightarrow> addr option" where
  "strchr m s c = strchr_loop m s (ucast c)"

function strrchr_loop :: "mem \<Rightarrow> addr \<Rightarrow> byte \<Rightarrow> addr \<Rightarrow> addr option" where
  "strrchr_loop m s c found = do {
     a \<leftarrow> rd m s;
     if a \<noteq> 0 then strrchr_loop m (s + 1) c (if a = c then s else found) else Some found
   }"
  by pat_completeness auto
termination
  by (relation "measure (\<lambda>(m, s, c, found). length m - s)") auto

definition strrchr :: "mem \<Rightarrow> addr \<Rightarrow> 32 word \<Rightarrow> addr option" where
  "strrchr m s c = strrchr_loop m s (ucast c) NULL"

definition strstr :: "mem \<Rightarrow> addr \<Rightarrow> addr \<Rightarrow> addr option" where
  "strstr m haystack needle = do {
     n \<leftarrow> strlen m haystack;
     k \<leftarrow> strlen m needle;
     memmem m haystack n needle k
   }"

subsection \<open>Comparison\<close>

function strcmp :: "mem \<Rightarrow> addr \<Rightarrow> addr \<Rightarrow> int option" where
  "strcmp m c1 c2 = do {
     ch \<leftarrow> rd m c1;
     b \<leftarrow> rd m c2;
     let d = uint ch - uint b;
     if d \<noteq> 0 \<or> ch = 0 then Some d else strcmp m (c1 + 1) (c2 + 1)
   }"
  by pat_completeness auto
termination
  by (relation "measure (\<lambda>(m, c1, c2). length m - c1)") auto

fun strncmp :: "mem \<Rightarrow> addr \<Rightarrow> addr \<Rightarrow> nat \<Rightarrow> int option" where
  "strncmp m c1 c2 0 = Some 0"
| "strncmp m c1 c2 (Suc n) = do {
     ch \<leftarrow> rd m c1;
     b \<leftarrow> rd m c2;
     let d = uint ch - uint b;
     if d \<noteq> 0 \<or> ch = 0 then Some d else strncmp m (c1 + 1) (c2 + 1) n
   }"

function strcasecmp :: "mem \<Rightarrow> addr \<Rightarrow> addr \<Rightarrow> int option" where
  "strcasecmp m c1 c2 = do {
     ch \<leftarrow> rd m c1;
     b \<leftarrow> rd m c2;
     u1 \<leftarrow> toupper (uint ch);
     u2 \<leftarrow> toupper (uint b);
     let d = u1 - u2;
     if d \<noteq> 0 \<or> ch = 0 then Some d else strcasecmp m (c1 + 1) (c2 + 1)
   }"
  by pat_completeness auto
termination
  by (relation "measure (\<lambda>(m, c1, c2). length m - c1)") auto

fun strncasecmp :: "mem \<Rightarrow> addr \<Rightarrow> addr \<Rightarrow> nat \<Rightarrow> int option" where
  "strncasecmp m c1 c2 0 = Some 0"
| "strncasecmp m c1 c2 (Suc n) = do {
     ch \<leftarrow> rd m c1;
     b \<leftarrow> rd m c2;
     u1 \<leftarrow> toupper (uint ch);
     u2 \<leftarrow> toupper (uint b);
     let d = u1 - u2;
     if d \<noteq> 0 \<or> ch = 0 then Some d else strncasecmp m (c1 + 1) (c2 + 1) n
   }"

subsection \<open>Copying\<close>

function strcpy_loop :: "mem \<Rightarrow> addr \<Rightarrow> addr \<Rightarrow> mem option" where
  "strcpy_loop m q p = do {
     ch \<leftarrow> rd m p;
     m' \<leftarrow> wr m q ch;
     if ch \<noteq> 0 then strcpy_loop m' (q + 1) (p + 1) else Some m'
   }"
  by pat_completeness auto
termination
  by (relation "measure (\<lambda>(m, q, p). length m - p)") auto

definition strcpy :: "mem \<Rightarrow> addr \<Rightarrow> addr \<Rightarrow> (mem \<times> addr) option" where
  "strcpy m dst src = do { m' \<leftarrow> strcpy_loop m dst src; Some (m', dst) }"

text \<open>The copying part of \<^verbatim>\<open>strncpy\<close>; the result holds the remaining count and the end pointer, which
  the final \<^verbatim>\<open>memset\<close> uses.\<close>

fun strncpy_loop :: "mem \<Rightarrow> addr \<Rightarrow> addr \<Rightarrow> nat \<Rightarrow> (mem \<times> addr \<times> nat) option" where
  "strncpy_loop m q p 0 = Some (m, q, 0)"
| "strncpy_loop m q p (Suc n) = do {
     ch \<leftarrow> rd m p;
     m' \<leftarrow> wr m q ch;
     if ch = 0 then Some (m', q + 1, n) else strncpy_loop m' (q + 1) (p + 1) n
   }"

definition strncpy :: "mem \<Rightarrow> addr \<Rightarrow> addr \<Rightarrow> nat \<Rightarrow> (mem \<times> addr) option" where
  "strncpy m dst src n = do {
     (m', q, k) \<leftarrow> strncpy_loop m dst src n;
     (m'', _) \<leftarrow> memset m' q 0 k;
     Some (m'', dst)
   }"

definition strcat :: "mem \<Rightarrow> addr \<Rightarrow> addr \<Rightarrow> (mem \<times> addr) option" where
  "strcat m dst src = do {
     q \<leftarrow> strchr m dst 0;
     (m', _) \<leftarrow> strcpy m q src;
     Some (m', dst)
   }"

fun strncat_loop :: "mem \<Rightarrow> addr \<Rightarrow> addr \<Rightarrow> nat \<Rightarrow> mem option" where
  "strncat_loop m q p 0 = wr m q 0"
| "strncat_loop m q p (Suc n) = do {
     ch \<leftarrow> rd m p;
     m' \<leftarrow> wr m q ch;
     if ch = 0 then Some m' else strncat_loop m' (q + 1) (p + 1) n
   }"

definition strncat :: "mem \<Rightarrow> addr \<Rightarrow> addr \<Rightarrow> nat \<Rightarrow> (mem \<times> addr) option" where
  "strncat m dst src n = do {
     q \<leftarrow> strchr m dst 0;
     m' \<leftarrow> strncat_loop m q src n;
     Some (m', dst)
   }"

text \<open>The loop shared in shape by \<^verbatim>\<open>strlcpy\<close> and \<^verbatim>\<open>strlcat\<close>: it copies while \<open>bytes + 1 < sz\<close> and counts
  every source byte; it returns the memory, the end pointer and the count.\<close>

function strlcpy_loop :: "mem \<Rightarrow> addr \<Rightarrow> addr \<Rightarrow> nat \<Rightarrow> nat \<Rightarrow> (mem \<times> addr \<times> nat) option" where
  "strlcpy_loop m q p bytes sz = do {
     ch \<leftarrow> rd m p;
     if ch \<noteq> 0 then
       (if bytes + 1 < sz then do {
          m' \<leftarrow> wr m q ch;
          strlcpy_loop m' (q + 1) (p + 1) (bytes + 1) sz
        }
        else strlcpy_loop m q (p + 1) (bytes + 1) sz)
     else Some (m, q, bytes)
   }"
  by pat_completeness auto
termination
  by (relation "measure (\<lambda>(m, q, p, bytes, sz). length m - p)") auto

definition strlcpy :: "mem \<Rightarrow> addr \<Rightarrow> addr \<Rightarrow> nat \<Rightarrow> (mem \<times> nat) option" where
  "strlcpy m dst src sz = do {
     (m', q, bytes) \<leftarrow> strlcpy_loop m dst src 0 sz;
     m'' \<leftarrow> (if sz \<noteq> 0 then wr m' q 0 else Some m');
     Some (m'', bytes)
   }"

function strlcat_end :: "mem \<Rightarrow> addr \<Rightarrow> nat \<Rightarrow> nat \<Rightarrow> (addr \<times> nat) option" where
  "strlcat_end m q bytes sz =
     (if bytes < sz then do {
        c \<leftarrow> rd m q;
        if c \<noteq> 0 then strlcat_end m (q + 1) (bytes + 1) sz else Some (q, bytes)
      } else Some (q, bytes))"
  by pat_completeness auto
termination
  by (relation "measure (\<lambda>(m, q, bytes, sz). sz - bytes)") auto

definition strlcat :: "mem \<Rightarrow> addr \<Rightarrow> addr \<Rightarrow> nat \<Rightarrow> (mem \<times> nat) option" where
  "strlcat m dst src sz = do {
     (q, bytes) \<leftarrow> strlcat_end m dst 0 sz;
     if bytes = sz then do { n \<leftarrow> strlen m src; Some (m, bytes + n) }
     else do {
       (m', q', bytes') \<leftarrow> strlcpy_loop m q src bytes sz;
       m'' \<leftarrow> wr m' q' 0;
       Some (m'', bytes')
     }
   }"

subsection \<open>Spans and tokens\<close>

text \<open>\<open>__strxspn\<close>: the local array \<open>matchmap\<close> has one entry per byte value.\<close>

function strxspn_fill :: "mem \<Rightarrow> addr \<Rightarrow> byte list \<Rightarrow> byte list option" where
  "strxspn_fill m mp matchmap = do {
     c \<leftarrow> rd m mp;
     if c \<noteq> 0 then strxspn_fill m (mp + 1) (matchmap[unat c := 1]) else Some matchmap
   }"
  by pat_completeness auto
termination
  by (relation "measure (\<lambda>(m, mp, matchmap). length m - mp)") auto

function strxspn_span :: "mem \<Rightarrow> addr \<Rightarrow> byte list \<Rightarrow> byte \<Rightarrow> nat \<Rightarrow> nat option" where
  "strxspn_span m s matchmap parity n = do {
     c \<leftarrow> rd m s;
     if matchmap ! unat c XOR parity \<noteq> 0 then strxspn_span m (s + 1) matchmap parity (n + 1)
     else Some n
   }"
  by pat_completeness auto
termination
  by (relation "measure (\<lambda>(m, s, matchmap, parity, n). length m - s)") auto

definition strxspn :: "mem \<Rightarrow> addr \<Rightarrow> addr \<Rightarrow> byte \<Rightarrow> nat option" where
  "strxspn m s mp parity = do {
     matchmap \<leftarrow> strxspn_fill m mp (replicate 256 0);
     strxspn_span m s (matchmap[0 := parity]) parity 0
   }"

definition strspn :: "mem \<Rightarrow> addr \<Rightarrow> addr \<Rightarrow> nat option" where
  "strspn m s accept = strxspn m s accept 0"

definition strcspn :: "mem \<Rightarrow> addr \<Rightarrow> addr \<Rightarrow> nat option" where
  "strcspn m s reject = strxspn m s reject 1"

definition strpbrk :: "mem \<Rightarrow> addr \<Rightarrow> addr \<Rightarrow> addr option" where
  "strpbrk m s accept = do {
     n \<leftarrow> strxspn m s accept 1;
     c \<leftarrow> rd m (s + n);
     Some (if c \<noteq> 0 then s + n else NULL)
   }"

text \<open>\<open>strsep m stringp delim\<close>: \<open>stringp\<close> is the value of \<^verbatim>\<open>*stringp\<close>; the result is the memory, the
  new value of \<^verbatim>\<open>*stringp\<close> and the returned token.\<close>

definition strsep :: "mem \<Rightarrow> addr \<Rightarrow> addr \<Rightarrow> (mem \<times> addr \<times> addr) option" where
  "strsep m stringp delim =
     (if stringp = NULL then Some (m, stringp, NULL)
      else do {
        e \<leftarrow> strpbrk m stringp delim;
        if e \<noteq> NULL then do {
          m' \<leftarrow> wr m e 0;
          Some (m', e + 1, stringp)
        } else Some (m, NULL, stringp)
      })"

declare strlen_loop.simps [simp del] strchr_loop.simps [simp del] strrchr_loop.simps [simp del]
  strcmp.simps [simp del] strcasecmp.simps [simp del] strcpy_loop.simps [simp del]
  strlcpy_loop.simps [simp del] strlcat_end.simps [simp del] strxspn_fill.simps [simp del]
  strxspn_span.simps [simp del]

lemma strpbrk_ge: "strpbrk m s accept = Some e \<Longrightarrow> e = NULL \<or> s \<le> e"
  by (auto simp: strpbrk_def bind_eq_Some_conv split: if_splits)

lemma strsep_advances:
  assumes "strsep m h delim = Some (m', h', s)"
  shows "length m' = length m \<and> (s \<noteq> NULL \<longrightarrow> h \<noteq> NULL \<and> (h' = NULL \<or> h < h' \<and> h' \<le> length m))"
  using assms
  by (auto simp: strsep_def bind_eq_Some_conv split: if_splits dest!: strpbrk_ge)

text \<open>The loop of \<open>strtok_r\<close>, from the value of \<^verbatim>\<open>*holder\<close>: it skips empty tokens.\<close>

function strtok_loop :: "mem \<Rightarrow> addr \<Rightarrow> addr \<Rightarrow> (mem \<times> addr \<times> addr) option" where
  "strtok_loop m holder delim = do {
     (m', holder', s) \<leftarrow> strsep m holder delim;
     if s \<noteq> NULL then do {
       c \<leftarrow> rd m' s;
       if c = 0 then strtok_loop m' holder' delim else Some (m', holder', s)
     } else Some (m', holder', s)
   }"
  by pat_completeness auto
termination
  by (relation "measure (\<lambda>(m, h, delim). if h = NULL then 0 else Suc (length m - h))")
     (auto dest!: strsep_advances)

definition strtok_r :: "mem \<Rightarrow> addr \<Rightarrow> addr \<Rightarrow> addr \<Rightarrow> (mem \<times> addr \<times> addr) option" where
  "strtok_r m s delim holder = strtok_loop m (if s \<noteq> NULL then s else holder) delim"

text \<open>\<open>strtok\<close> is \<open>strtok_r\<close> with a static holder, the state of the function between calls.\<close>

definition strtok :: "mem \<Rightarrow> addr \<Rightarrow> addr \<Rightarrow> addr \<Rightarrow> (mem \<times> addr \<times> addr) option" where
  "strtok m static_holder s delim = strtok_r m s delim static_holder"

declare strtok_loop.simps [simp del]

section \<open>Length and search\<close>

lemma strlen_loop_cstr: "cstr m s xs \<Longrightarrow> strlen_loop m s = Some (s + length xs)"
  by (induction xs arbitrary: s) (auto simp: cstr_simps strlen_loop.simps mem_simps)

lemma strlen_cstr: "cstr m s xs \<Longrightarrow> strlen m s = Some (length xs)"
  by (simp add: strlen_def strlen_loop_cstr)

lemma strnlen_loop_cstr: "cstr m s xs \<Longrightarrow> strnlen_loop m s n = Some (s + min n (length xs))"
proof (induction n arbitrary: s xs)
  case (Suc n)
  then show ?case by (cases xs) (auto simp: cstr_simps mem_simps)
qed simp

lemma strnlen_cstr: "cstr m s xs \<Longrightarrow> strnlen m s n = Some (min n (length xs))"
  by (simp add: strnlen_def strnlen_loop_cstr)

lemma strnlen_loop_full: "mapped m s n \<Longrightarrow> 0 \<notin> set (block m s n) \<Longrightarrow> strnlen_loop m s n = Some (s + n)"
proof (induction n arbitrary: s)
  case (Suc n)
  then have "strnlen_loop m (s + 1) n = Some (s + 1 + n)"
    by (intro Suc.IH) (auto simp: mapped_def block_Suc)
  with Suc.prems show ?case
    by (auto simp: mapped_Suc mem_simps block_Suc)
qed simp

lemma strchr_loop_cstr:
  "cstr m s xs \<Longrightarrow> strchr_loop m s c =
     Some (if c = 0 then s + length xs else at_ptr s (first_at (\<lambda>i. xs ! i = c) (length xs)))"
  by (induction xs arbitrary: s)
     (auto simp: cstr_simps strchr_loop.simps mem_simps first_at_Suc comp_def)

lemma strchr_0_cstr: "cstr m s xs \<Longrightarrow> strchr m s 0 = Some (s + length xs)"
  by (simp add: strchr_def strchr_loop_cstr)

lemma last_at_Cons:
  "last_at (\<lambda>i. (x # xs) ! i = c) (Suc (length xs)) =
     (case last_at (\<lambda>i. xs ! i = c) (length xs) of
        Some i \<Rightarrow> Some (Suc i) | None \<Rightarrow> if x = c then Some 0 else None)"
proof (cases "last_at (\<lambda>i. xs ! i = c) (length xs)")
  case None
  then have n: "xs ! i \<noteq> c" if "i < length xs" for i
    using that by (simp add: last_at_None_iff)
  have "last_at (\<lambda>i. (x # xs) ! i = c) (Suc (length xs)) = (if x = c then Some 0 else None)"
    by (cases "x = c") (auto simp: last_at_None_iff last_at_Some_iff nth_Cons' n)
  with None show ?thesis by simp
next
  case (Some i)
  then have "last_at (\<lambda>i. (x # xs) ! i = c) (Suc (length xs)) = Some (Suc i)"
    by (auto simp: last_at_Some_iff nth_Cons')
  with Some show ?thesis by simp
qed

lemma strrchr_loop_cstr:
  "cstr m s xs \<Longrightarrow> strrchr_loop m s c found =
     Some (case last_at (\<lambda>i. xs ! i = c) (length xs) of None \<Rightarrow> found | Some i \<Rightarrow> s + i)"
  by (induction xs arbitrary: s found)
     (auto simp: cstr_simps strrchr_loop.simps mem_simps last_at_Cons simp del: nth_Cons_Suc split: option.splits)

section \<open>Comparison\<close>

lemma strcmp_cstr:
  "cstr m p xs \<Longrightarrow> cstr m q ys \<Longrightarrow> strcmp m p q = Some (bytes_diff (xs @ [0]) (ys @ [0]))"
proof (induction xs arbitrary: p q ys)
  case Nil
  then show ?case by (cases ys) (auto simp: cstr_simps strcmp.simps mem_simps)
next
  case (Cons x xs)
  show ?case
  proof (cases ys)
    case Nil
    with Cons.prems show ?thesis by (auto simp: cstr_simps strcmp.simps mem_simps)
  next
    case (Cons y ys')
    with Cons.IH [of "Suc p" "Suc q" ys'] Cons.prems show ?thesis
      by (auto simp: cstr_simps strcmp.simps [of m p q] mem_simps)
  qed
qed

lemma bytes_diff_cstr_0:
  "0 \<notin> set xs \<Longrightarrow> 0 \<notin> set ys \<Longrightarrow> bytes_diff (xs @ [0]) (ys @ [0]) = 0 \<longleftrightarrow> xs = ys"
proof (induction xs arbitrary: ys)
  case Nil
  then show ?case by (cases ys) auto
next
  case (Cons x xs)
  then show ?case by (cases ys) auto
qed

lemma bytes_diff_cstr_less:
  "0 \<notin> set xs \<Longrightarrow> 0 \<notin> set ys \<Longrightarrow> bytes_diff (xs @ [0]) (ys @ [0]) < 0 \<longleftrightarrow> ord_class.lexordp xs ys"
proof (induction xs arbitrary: ys)
  case Nil
  then show ?case by (cases ys) (auto simp: word_less_def)
next
  case (Cons x xs)
  then show ?case by (cases ys) (auto simp: word_less_def intro: uint_not_less)
qed

lemma strncmp_cstr:
  "cstr m p xs \<Longrightarrow> cstr m q ys \<Longrightarrow>
   strncmp m p q n = Some (bytes_diff (take n (xs @ [0])) (take n (ys @ [0])))"
proof (induction n arbitrary: p q xs ys)
  case (Suc n)
  then show ?case
    by (cases xs; cases ys) (auto simp: cstr_simps mem_simps)
qed simp

section \<open>Copying\<close>

lemma strcpy_loop_put:
  assumes "cstr m p xs" "mapped m q (Suc (length xs))" "q \<le> p \<or> p + length xs < q"
  shows "strcpy_loop m q p = Some (put m q (xs @ [0]))"
  using assms
proof (induction xs arbitrary: m q p)
  case Nil
  then show ?case
    by (auto simp: cstr_simps mapped_Suc strcpy_loop.simps [of m q p] mem_simps put_single)
next
  case (Cons x xs)
  have "strcpy_loop (m[q := x]) (q + 1) (p + 1) = Some (put (m[q := x]) (q + 1) (xs @ [0]))"
    using Cons.prems by (intro Cons.IH) (auto simp: cstr_simps mapped_def intro: cstr_update_out)
  with Cons.prems show ?case
    by (auto simp: cstr_simps mapped_Suc strcpy_loop.simps [of m q p] mem_simps put_Cons)
qed

lemma strlcpy_loop_put:
  assumes "cstr m p xs" "mapped m q (length (take (sz - 1 - bytes) xs))"
    "disjoint_ranges q (length (take (sz - 1 - bytes) xs)) p (Suc (length xs))"
  shows "strlcpy_loop m q p bytes sz =
    Some (put m q (take (sz - 1 - bytes) xs), q + min (sz - 1 - bytes) (length xs), bytes + length xs)"
  using assms
proof (induction xs arbitrary: m q p bytes)
  case Nil
  then show ?case
    by (simp add: cstr_simps strlcpy_loop.simps [of m q p] mem_simps)
next
  case (Cons x xs)
  show ?case
  proof (cases "bytes + 1 < sz")
    case True
    then have k: "sz - 1 - bytes = Suc (sz - 1 - (bytes + 1))" by simp
    have "strlcpy_loop (m[q := x]) (q + 1) (p + 1) (bytes + 1) sz =
        Some (put (m[q := x]) (q + 1) (take (sz - 1 - (bytes + 1)) xs),
          q + 1 + min (sz - 1 - (bytes + 1)) (length xs), bytes + 1 + length xs)"
      using Cons.prems k
      by (intro Cons.IH) (auto simp: cstr_simps mapped_def disjoint_ranges_def intro!: cstr_update_out)
    with Cons.prems True k show ?thesis
      by (auto simp: cstr_simps strlcpy_loop.simps [of m q p] mem_simps mapped_def put_Cons)
  next
    case False
    then have "sz - 1 - bytes = 0" "sz - 1 - (bytes + 1) = 0" by auto
    with False Cons.prems Cons.IH [of m "p + 1" q "bytes + 1"] show ?thesis
      by (auto simp: cstr_simps strlcpy_loop.simps [of m q p] mem_simps disjoint_ranges_def)
  qed
qed

lemma strncpy_loop_put:
  assumes "cstr m p xs" "mapped m q n" "disjoint_ranges q n p (Suc (length xs))"
  shows "strncpy_loop m q p n =
    Some (put m q (take n (xs @ [0])), q + min n (Suc (length xs)), n - Suc (length xs))"
  using assms
proof (induction n arbitrary: m q p xs)
  case 0
  then show ?case by simp
next
  case (Suc n)
  show ?case
  proof (cases xs)
    case Nil
    with Suc.prems show ?thesis
      by (auto simp: cstr_simps mapped_Suc mem_simps put_single)
  next
    case (Cons x xs')
    have "strncpy_loop (m[q := x]) (q + 1) (p + 1) n = Some (put (m[q := x]) (q + 1) (take n (xs' @ [0])),
        q + 1 + min n (Suc (length xs')), n - Suc (length xs'))"
      using Suc.prems Cons
      by (intro Suc.IH) (auto simp: cstr_simps mapped_def disjoint_ranges_def intro!: cstr_update_out)
    with Suc.prems Cons show ?thesis
      by (auto simp: cstr_simps mapped_Suc mem_simps put_Cons)
  qed
qed

lemma strncat_loop_put:
  assumes "cstr m p xs" "mapped m q (Suc (min n (length xs)))"
    "disjoint_ranges q (Suc (min n (length xs))) p (Suc (length xs))"
  shows "strncat_loop m q p n = Some (put m q (take n xs @ [0]))"
  using assms
proof (induction n arbitrary: m q p xs)
  case 0
  then show ?case by (simp add: mapped_Suc put_single)
next
  case (Suc n)
  show ?case
  proof (cases xs)
    case Nil
    with Suc.prems show ?thesis
      by (auto simp: cstr_simps mapped_Suc mem_simps put_single)
  next
    case (Cons x xs')
    have "strncat_loop (m[q := x]) (q + 1) (p + 1) n = Some (put (m[q := x]) (q + 1) (take n xs' @ [0]))"
      using Suc.prems Cons
      by (intro Suc.IH) (auto simp: cstr_simps mapped_def disjoint_ranges_def intro!: cstr_update_out)
    with Suc.prems Cons show ?thesis
      by (auto simp: cstr_simps mapped_Suc mem_simps put_Cons)
  qed
qed

lemma strlcat_end_cstr:
  "cstr m q xs \<Longrightarrow> bytes \<le> sz \<Longrightarrow>
   strlcat_end m q bytes sz = Some (q + min (sz - bytes) (length xs), bytes + min (sz - bytes) (length xs))"
proof (induction xs arbitrary: q bytes)
  case Nil
  then show ?case by (auto simp: strlcat_end.simps [of m q bytes sz] cstr_simps mem_simps)
next
  case (Cons x xs)
  then show ?case
    by (cases "bytes < sz")
       (auto simp: strlcat_end.simps [of m q bytes sz] strlcat_end.simps [of m q sz sz] cstr_simps mem_simps Suc_diff_Suc)
qed

section \<open>Spans and tokens\<close>

lemma strxspn_fill_cstr:
  assumes "cstr m p ds" "length mm = 256"
  shows "\<exists>mm'. strxspn_fill m p mm = Some mm' \<and> length mm' = 256 \<and>
    (\<forall>c :: byte. mm' ! unat c = (if c \<in> set ds then 1 else mm ! unat c))"
  using assms
proof (induction ds arbitrary: p mm)
  case Nil
  then show ?case by (simp add: strxspn_fill.simps [of m p mm] cstr_simps mem_simps)
next
  case (Cons d ds)
  have d: "unat d < 256"
    by (rule unat_byte)
  obtain mm' where mm': "strxspn_fill m (p + 1) (mm[unat d := 1]) = Some mm'" "length mm' = 256"
    "\<forall>c :: byte. mm' ! unat c = (if c \<in> set ds then 1 else mm[unat d := 1] ! unat c)"
    using Cons.IH [of "p + 1" "mm[unat d := 1]"] Cons.prems by (auto simp: cstr_simps)
  have "mm' ! unat c = (if c \<in> set (d # ds) then 1 else mm ! unat c)" for c :: byte
    using d Cons.prems(2) spec [OF mm'(3), of c] by (cases "c = d") (simp_all add: unat_eq_iff)
  moreover have "strxspn_fill m p mm = Some mm'"
    using mm'(1) Cons.prems by (simp add: strxspn_fill.simps [of m p mm] cstr_simps mem_simps)
  ultimately show ?case
    using mm'(2) by blast
qed

lemma strxspn_span_cstr:
  assumes "cstr m s xs" "mm ! 0 = parity"
    and "\<And>c. c \<in> set xs \<Longrightarrow> mm ! unat c XOR parity \<noteq> 0 \<longleftrightarrow> P c"
  shows "strxspn_span m s mm parity n = Some (n + length (takeWhile P xs))"
  using assms
proof (induction xs arbitrary: s n)
  case Nil
  then show ?case by (simp add: strxspn_span.simps [of m s] cstr_simps mem_simps)
next
  case (Cons x xs)
  then have "strxspn_span m (s + 1) mm parity (n + 1) = Some (n + 1 + length (takeWhile P xs))"
    by (intro Cons.IH) (auto simp: cstr_simps)
  with Cons.prems show ?case
    by (auto simp: strxspn_span.simps [of m s] cstr_simps mem_simps)
qed

lemma strxspn_cstr:
  assumes "cstr m s xs" "cstr m d ds" "parity = 0 \<or> parity = 1"
  shows "strxspn m s d parity = Some (length (takeWhile (\<lambda>c. (c \<in> set ds) = (parity = 0)) xs))"
proof -
  obtain mm where mm: "strxspn_fill m d (replicate 256 0) = Some mm" "length mm = 256"
    "\<And>c :: byte. mm ! unat c = (if c \<in> set ds then 1 else replicate 256 0 ! unat c)"
    using strxspn_fill_cstr [OF assms(2), of "replicate 256 0"] by auto
  have "mm[0 := parity] ! unat c = (if c \<in> set ds then 1 else 0)" if "c \<in> set xs" for c
  proof -
    have "unat c < 256" "c \<noteq> 0"
      using unat_byte [of c] assms(1) that by (auto simp: cstr_def)
    then show ?thesis using mm by (simp add: unat_gt_0)
  qed
  then have "strxspn_span m s (mm[0 := parity]) parity 0 =
      Some (0 + length (takeWhile (\<lambda>c. (c \<in> set ds) = (parity = 0)) xs))"
    using assms mm(2) by (intro strxspn_span_cstr) auto
  with mm(1) show ?thesis
    by (simp add: strxspn_def)
qed

lemma strpbrk_cstr:
  assumes "cstr m s xs" "cstr m d ds" "k = length (takeWhile (\<lambda>c. c \<notin> set ds) xs)"
  shows "strpbrk m s d = Some (if k < length xs then s + k else NULL)"
proof -
  have k: "k \<le> length xs" "strxspn m s d 1 = Some k"
    using assms strxspn_cstr [of m s xs d ds 1] by (simp_all add: length_takeWhile_le)
  have "m ! (s + k) = (if k < length xs then xs ! k else 0)"
    using assms(1) k by (auto simp: cstr_nth cstr_def)
  moreover have "k < length xs \<Longrightarrow> xs ! k \<noteq> 0"
    using assms(1) nth_mem by (fastforce simp: cstr_def)
  moreover have "0 < s" "s + k < length m"
    using assms(1) k by (auto simp: cstr_def)
  ultimately show ?thesis
    using k by (simp add: strpbrk_def mem_simps)
qed

lemma strsep_cstr:
  assumes "cstr m s xs" "cstr m d ds" "k = length (takeWhile (\<lambda>c. c \<notin> set ds) xs)"
  shows "strsep m s d = Some (if k < length xs then (m[s + k := 0], s + k + 1, s) else (m, NULL, s))"
proof -
  have "0 < s" "s + length xs < length m"
    using assms(1) by (auto simp: cstr_def)
  then show ?thesis
    using strpbrk_cstr [OF assms] by (auto simp: strsep_def mem_simps)
qed

text \<open>What \<open>strtok_loop\<close> leaves behind when the string at the holder is \<open>xs\<close> and the delimiters are \<open>ds\<close>:
  \<open>ys\<close> is the string after the leading delimiters, its delimiter-free prefix is the token, and the
  holder points behind the delimiter that ended it.\<close>

definition token_at :: "mem \<Rightarrow> addr \<Rightarrow> byte list \<Rightarrow> byte list \<Rightarrow> mem \<Rightarrow> addr \<Rightarrow> addr \<Rightarrow> bool" where
  "token_at m s xs ds m' holder tok \<longleftrightarrow>
     (let ys = dropWhile (\<lambda>c. c \<in> set ds) xs; r = dropWhile (\<lambda>c. c \<notin> set ds) ys in
      length m' = length m \<and>
      (if ys = [] then tok = NULL \<and> holder = NULL
       else tok = s + (length xs - length ys) \<and> cstr m' tok (takeWhile (\<lambda>c. c \<notin> set ds) ys) \<and>
         (if r = [] then holder = NULL
          else holder = s + Suc (length xs - length r) \<and> cstr m' holder (tl r))) \<and>
      (\<forall>i. i < s \<or> s + length xs < i \<longrightarrow> m' ! i = m ! i))"

lemma strtok_loop_NULL: "strtok_loop m NULL d = Some (m, NULL, NULL)"
  by (simp add: strtok_loop.simps strsep_def)

lemma takeWhile_notin_Cons: "x \<notin> D \<Longrightarrow> length (takeWhile (\<lambda>c. c \<notin> D) (x # xs)) = Suc (length (takeWhile (\<lambda>c. c \<notin> D) xs))"
  by simp

lemma strtok_first_token:
  assumes "cstr m s xs" "cstr m d ds" "xs \<noteq> []" "hd xs \<notin> set ds"
  shows "\<exists>m' h. strtok_loop m s d = Some (m', h, s) \<and> token_at m s xs ds m' h s"
proof -
  define k where k_eq: "k = length (takeWhile (\<lambda>c. c \<notin> set ds) xs)"
  have r: "dropWhile (\<lambda>c. c \<notin> set ds) xs = drop k xs" "takeWhile (\<lambda>c. c \<notin> set ds) xs = take k xs" "k \<le> length xs"
    unfolding k_eq by (rule dropWhile_eq_drop, rule takeWhile_eq_take, rule length_takeWhile_le)
  have k: "0 < k"
    unfolding k_eq using assms(3,4) by (cases xs) auto
  note sep = strsep_cstr [OF assms(1,2) k_eq]
  have "hd xs \<noteq> 0"
    using hd_in_set [OF assms(3)] assms(1) unfolding cstr_def by metis
  moreover have "m ! s = hd xs"
    using cstr_nth [OF assms(1), of 0] assms(3) by (simp add: hd_conv_nth)
  ultimately have s: "0 < s" "s + length xs < length m" "m ! s \<noteq> 0"
    using assms(1) by (auto simp: cstr_def)
  have ys: "dropWhile (\<lambda>c. c \<in> set ds) xs = xs"
    using assms(3,4) by (cases xs) auto
  show ?thesis
  proof (cases "k < length xs")
    case True
    let ?m = "m[s + k := 0]"
    have "strtok_loop m s d = Some (?m, s + k + 1, s)"
      using sep True k s by (simp add: strtok_loop.simps [of m s d] mem_simps)
    moreover have "cstr ?m s (take k xs)"
      using assms(1) r(3) by (rule cstr_cut)
    moreover have "cstr ?m (s + k + 1) (drop (k + 1) xs)"
      by (rule cstr_update_out) (use cstr_drop [OF assms(1), of "k + 1"] True in \<open>auto simp: add.assoc\<close>)
    moreover have "drop k xs = xs ! k # drop (k + 1) xs"
      using True by (simp add: Cons_nth_drop_Suc)
    ultimately show ?thesis
      using True s k assms(3)
      by (intro exI [of _ ?m] exI [of _ "s + k + 1"]) (auto simp: token_at_def ys r Let_def)
  next
    case False
    then have "k = length xs" using r(3) by simp
    moreover have "strtok_loop m s d = Some (m, NULL, s)"
      using sep False s by (simp add: strtok_loop.simps [of m s d] mem_simps)
    ultimately show ?thesis
      using assms(1,3) s by (intro exI [of _ m] exI [of _ NULL]) (auto simp: token_at_def ys r Let_def)
  qed
qed

lemma token_at_skip:
  assumes "token_at (m[s := 0]) (Suc s) xs ds m' h tok" "x \<in> set ds"
  shows "token_at m s (x # xs) ds m' h tok"
proof -
  define ys where "ys = dropWhile (\<lambda>c. c \<in> set ds) xs"
  define r where "r = dropWhile (\<lambda>c. c \<notin> set ds) ys"
  have len: "length ys \<le> length xs" "length r \<le> length xs"
    unfolding ys_def r_def by (auto intro: le_trans [OF length_dropWhile_le] length_dropWhile_le)
  have ys': "dropWhile (\<lambda>c. c \<in> set ds) (x # xs) = ys"
    using assms(2) by (simp add: ys_def)
  have out: "i < s \<or> s + length (x # xs) < i \<longrightarrow> m' ! i = m ! i" for i
    using assms(1) by (simp add: token_at_def Let_def)
  show ?thesis
    unfolding token_at_def ys' Let_def
    using assms(1) len out
    by (auto simp: token_at_def Let_def ys_def [symmetric] r_def [symmetric] Suc_diff_le split: if_splits)
qed

lemma strtok_loop_token:
  assumes "cstr m s xs" "cstr m d ds" "disjoint_ranges s (Suc (length xs)) d (Suc (length ds))"
  shows "\<exists>m' h tok. strtok_loop m s d = Some (m', h, tok) \<and> token_at m s xs ds m' h tok"
  using assms
proof (induction xs arbitrary: m s)
  case Nil
  then have "strtok_loop m s d = Some (m, NULL, NULL)"
    using strsep_cstr [OF Nil.prems(1,2) refl] strtok_loop_NULL [of m d]
    by (simp add: strtok_loop.simps [of m s d] cstr_Nil mem_simps)
  then show ?case by (simp add: token_at_def)
next
  case (Cons x xs)
  show ?case
  proof (cases "x \<in> set ds")
    case False
    then show ?thesis
      using strtok_first_token [OF Cons.prems(1,2)] by auto
  next
    case True
    let ?m = "m[s := 0]"
    have s: "0 < s" "s < length m"
      using Cons.prems(1) by (auto simp: cstr_Cons)
    have "cstr ?m (s + 1) xs" "cstr ?m d ds"
      using Cons.prems by (auto simp: cstr_Cons disjoint_ranges_def intro!: cstr_update_out)
    moreover have "disjoint_ranges (s + 1) (Suc (length xs)) d (Suc (length ds))"
      using Cons.prems(3) by (auto simp: disjoint_ranges_def)
    ultimately obtain m' h tok where IH: "strtok_loop ?m (s + 1) d = Some (m', h, tok)"
      "token_at ?m (s + 1) xs ds m' h tok"
      using Cons.IH by blast
    have "strtok_loop m s d = Some (m', h, tok)"
      using strsep_cstr [OF Cons.prems(1,2) refl] True s IH(1)
      by (simp add: strtok_loop.simps [of m s d] mem_simps)
    moreover have "token_at m s (x # xs) ds m' h tok"
      using IH(2) True by (intro token_at_skip) simp_all
    ultimately show ?thesis by blast
  qed
qed

section \<open>Properties\<close>

text \<open>\<open>strcmp\<close> on two strings returns, without a fault, zero exactly when the strings are equal and a
  negative number exactly when the first is before the second in the lexicographic order of unsigned
  bytes.\<close>

theorem strcmp_orders:
  assumes "cstr m p xs" "cstr m q ys"
  shows "\<exists>d. strcmp m p q = Some d \<and> (d = 0 \<longleftrightarrow> xs = ys) \<and> (d < 0 \<longleftrightarrow> ord_class.lexordp xs ys)"
proof -
  have "0 \<notin> set xs" "0 \<notin> set ys"
    using assms by (auto simp: cstr_def)
  then show ?thesis
    using strcmp_cstr [OF assms] by (auto simp: bytes_diff_cstr_0 bytes_diff_cstr_less)
qed

theorem strcmp_orders_witness:
  "cstr [7, 97, 98, 0, 97, 0] 1 [97, 98] \<and> cstr [7, 97, 98, 0, 97, 0] 4 [97] \<and>
   (\<exists>d. strcmp [7, 97, 98, 0, 97, 0] 1 4 = Some d \<and> d \<noteq> 0)"
proof -
  have c: "cstr [7, 97, 98, 0, 97, 0] 1 [97, 98]" "cstr [7, 97, 98, 0, 97, 0] 4 [97]"
    by (simp_all add: cstr_simps)
  with strcmp_orders [OF c] show ?thesis by auto
qed

text \<open>\<open>strlcpy\<close> with a non-zero size writes the source cut to \<open>size - 1\<close> bytes and a terminating NUL, and
  nothing else, even when the source is longer than the buffer; it returns the length of the source,
  so that truncation can be detected. With size zero the memory is unchanged.\<close>

theorem strlcpy_bounded:
  assumes "cstr m src xs" "mapped m dst (min sz (Suc (length xs)))"
    "disjoint_ranges dst (min sz (Suc (length xs))) src (Suc (length xs))"
  shows "strlcpy m dst src sz =
    Some (if sz = 0 then m else put m dst (take (sz - 1) xs @ [0]), length xs)"
proof (cases "sz = 0")
  case True
  then show ?thesis
    using strlcpy_loop_put [of m src xs dst 0 0] assms by (simp add: strlcpy_def disjoint_ranges_def)
next
  case False
  let ?ys = "take (sz - 1) xs"
  have len: "length ?ys = min (sz - 1) (length xs)" by simp
  have b: "0 < dst" "dst + length ?ys < length m"
    using assms(2) False by (auto simp: mapped_def min_def split: if_splits)
  have "strlcpy_loop m dst src 0 sz = Some (put m dst ?ys, dst + length ?ys, length xs)"
  proof -
    have "mapped m dst (length (take (sz - 1 - 0) xs))"
      "disjoint_ranges dst (length (take (sz - 1 - 0) xs)) src (Suc (length xs))"
      using assms(2,3) False b by (auto simp: mapped_def disjoint_ranges_def)
    from strlcpy_loop_put [OF assms(1) this] show ?thesis
      by (simp add: min.commute)
  qed
  with False b show ?thesis
    by (simp add: strlcpy_def mem_simps put_update del: length_take)
qed

theorem strlcpy_bounded_witness:
  "strlcpy [7, 97, 98, 99, 0, 1, 1, 1] 5 1 3 = Some ([7, 97, 98, 99, 0, 97, 98, 0], 3)"
  by (rule strlcpy_bounded [of "[7, 97, 98, 99, 0, 1, 1, 1]" 1 "[97, 98, 99]" 5 3, THEN trans])
     (simp_all add: put_def cstr_simps mapped_def disjoint_ranges_def)

text \<open>C39: \<open>strlcat\<close> appends as much of the source as fits: with \<open>size\<close> above the length of the destination
  string it extends it by the source cut to \<open>size - 1 - length ds\<close> bytes, terminates it, and returns the
  total length it tried to create; otherwise the memory is unchanged.\<close>

theorem strlcat_bounded:
  assumes "cstr m dst ds" "cstr m src xs" "mapped m dst (min sz (Suc (length ds + length xs)))"
    "disjoint_ranges dst (max (Suc (length ds)) (min sz (Suc (length ds + length xs)))) src (Suc (length xs))"
  shows "strlcat m dst src sz =
    Some (if sz \<le> length ds then (m, sz + length xs)
          else (put m (dst + length ds) (take (sz - 1 - length ds) xs @ [0]), length ds + length xs))"
proof (cases "sz \<le> length ds")
  case True
  then show ?thesis
    using strlcat_end_cstr [OF assms(1), of 0 sz] assms(2) by (simp add: strlcat_def strlen_cstr min_def)
next
  case False
  let ?q = "dst + length ds" and ?ys = "take (sz - 1 - length ds) xs"
  have d: "0 < dst" "?q < length m"
    using assms(1) by (auto simp: cstr_def)
  have b: "?q + length ?ys < length m" "disjoint_ranges ?q (length ?ys) src (Suc (length xs))"
    using assms(3,4) False by (auto simp: mapped_def disjoint_ranges_def min_def max_def split: if_splits)
  have "strlcat_end m dst 0 sz = Some (?q, length ds)"
    using strlcat_end_cstr [OF assms(1), of 0 sz] False by (simp add: min_def)
  moreover have "strlcpy_loop m ?q src (length ds) sz = Some (put m ?q ?ys, ?q + length ?ys, length ds + length xs)"
    using strlcpy_loop_put [OF assms(2), of ?q sz "length ds"] b d by (simp add: mapped_def)
  ultimately show ?thesis
    using False b d by (simp add: strlcat_def mem_simps put_update del: length_take)
qed

theorem strlcat_bounded_witness:
  "strlcat [7, 97, 0, 1, 1, 98, 99, 0] 1 5 3 = Some ([7, 97, 98, 0, 1, 98, 99, 0], 3)"
proof -
  let ?m = "[7, 97, 0, 1, 1, 98, 99, 0] :: mem"
  have "cstr ?m 1 [97]" "cstr ?m 5 [98, 99]"
    by (simp_all add: cstr_simps)
  then show ?thesis
    using strlcat_bounded [of ?m 1 "[97]" 5 "[98, 99]" 3] by (simp add: put_def mapped_def disjoint_ranges_def)
qed

text \<open>\<open>strncpy\<close> writes exactly \<open>n\<close> bytes: the source string, cut to \<open>n\<close> bytes and padded with NULs.\<close>

theorem strncpy_fills:
  assumes "cstr m src xs" "mapped m dst n" "disjoint_ranges dst n src (Suc (length xs))"
  shows "strncpy m dst src n = Some (put m dst (take n (xs @ replicate n 0)), dst)"
proof -
  let ?ys = "take n (xs @ [0])" and ?k = "n - Suc (length xs)"
  have l: "length ?ys + ?k = n" by simp
  have b: "dst + n \<le> length m \<or> n = 0"
    using assms(2) by (auto simp: mapped_def)
  have "memset (put m dst ?ys) (dst + length ?ys) 0 ?k =
      Some (put (put m dst ?ys) (dst + length ?ys) (replicate ?k 0), dst + length ?ys)"
    using assms(2) l b by (subst memset_put) (auto simp: mapped_def)
  also have "put (put m dst ?ys) (dst + length ?ys) (replicate ?k 0) = put m dst (?ys @ replicate ?k 0)"
    using b l by (cases "n = 0") (simp, intro put_append, simp)
  also have "?ys @ replicate ?k 0 = take n (xs @ replicate n 0)"
    by (auto simp: take_Cons' min_def replicate_append_same simp flip: replicate_Suc split: nat_diff_split)
  finally have "memset (put m dst ?ys) (dst + length ?ys) 0 ?k =
      Some (put m dst (take n (xs @ replicate n 0)), dst + length ?ys)" .
  moreover have "strncpy_loop m dst src n = Some (put m dst ?ys, dst + length ?ys, ?k)"
    using strncpy_loop_put [OF assms] by (simp add: min.commute)
  ultimately show ?thesis
    unfolding strncpy_def by simp
qed

theorem strncpy_fills_witness:
  "strncpy [7, 97, 0, 1, 1, 1, 9] 3 1 3 = Some ([7, 97, 0, 97, 0, 0, 9], 3)"
  by (rule strncpy_fills [of "[7, 97, 0, 1, 1, 1, 9]" 1 "[97]" 3 3, THEN trans])
     (simp_all add: put_def cstr_simps mapped_def disjoint_ranges_def numeral_3_eq_3)

text \<open>The span functions: \<open>strspn\<close> is the length of the longest prefix of characters of \<open>ds\<close>, \<open>strcspn\<close>
  that of the longest prefix without them, and \<open>strpbrk\<close> points to the first character of \<open>ds\<close>, or is null
  when there is none.\<close>

theorem span_functions:
  assumes "cstr m s xs" "cstr m d ds"
  shows "strspn m s d = Some (length (takeWhile (\<lambda>c. c \<in> set ds) xs)) \<and>
    strcspn m s d = Some (length (takeWhile (\<lambda>c. c \<notin> set ds) xs)) \<and>
    strpbrk m s d = Some (at_ptr s (first_at (\<lambda>i. xs ! i \<in> set ds) (length xs)))"
proof -
  define k where k: "k = length (takeWhile (\<lambda>c. c \<notin> set ds) xs)"
  have "first_at (\<lambda>i. xs ! i \<in> set ds) (length xs) = (if k < length xs then Some k else None)"
  proof (cases "k < length xs")
    case True
    then show ?thesis
      using nth_length_takeWhile [of "\<lambda>c. c \<notin> set ds" xs]
      by (auto simp: first_at_Some_iff k dest: nth_mem simp flip: takeWhile_nth)
         (metis (mono_tags, lifting) nth_mem set_takeWhileD takeWhile_nth)
  next
    case False
    then have "takeWhile (\<lambda>c. c \<notin> set ds) xs = xs"
      using takeWhile_eq_take [of "\<lambda>c. c \<notin> set ds" xs] k by simp
    then show ?thesis
      using False by (auto simp: first_at_None_iff takeWhile_eq_all_conv)
  qed
  with strpbrk_cstr [OF assms k] show ?thesis
    using strxspn_cstr [OF assms, of 0] strxspn_cstr [OF assms, of 1]
    by (simp add: strspn_def strcspn_def at_ptr_def)
qed

theorem span_functions_witness:
  "strspn [7, 97, 98, 99, 0, 98, 97, 0] 1 5 = Some 2 \<and> strcspn [7, 97, 98, 99, 0, 98, 97, 0] 1 5 = Some 0"
proof -
  let ?m = "[7, 97, 98, 99, 0, 98, 97, 0] :: mem"
  have "cstr ?m 1 [97, 98, 99]" "cstr ?m 5 [98, 97]"
    by (simp_all add: cstr_simps)
  from span_functions [OF this] show ?thesis by simp
qed

text \<open>\<open>strtok_r\<close> on a fresh string returns the first maximal run of non-delimiters as a terminated string
  and leaves the holder behind it, or returns null when only delimiters are left; it always returns and
  changes no byte outside the string.\<close>

theorem strtok_r_token:
  assumes "cstr m s xs" "cstr m d ds" "disjoint_ranges s (Suc (length xs)) d (Suc (length ds))"
  shows "\<exists>m' h tok. strtok_r m s d holder = Some (m', h, tok) \<and> token_at m s xs ds m' h tok"
proof -
  have "s \<noteq> NULL" using assms(1) by (simp add: cstr_def)
  then show ?thesis
    using strtok_loop_token [OF assms] by (simp add: strtok_r_def)
qed

theorem strtok_r_token_witness:
  "\<exists>m' h tok. strtok_r [7, 44, 97, 44, 98, 0, 44, 0] 1 6 0 = Some (m', h, tok) \<and> tok = 2 \<and> cstr m' tok [97]"
proof -
  let ?m = "[7, 44, 97, 44, 98, 0, 44, 0] :: mem"
  have "cstr ?m 1 [44, 97, 44, 98]" "cstr ?m 6 [44]" "disjoint_ranges 1 (Suc (length [44, 97, 44, 98 :: byte])) 6 (Suc (length [44 :: byte]))"
    by (simp_all add: cstr_simps disjoint_ranges_def)
  from strtok_r_token [OF this, of 0] obtain m' h tok where
    t: "strtok_r ?m 1 6 0 = Some (m', h, tok)" "token_at ?m 1 [44, 97, 44, 98] [44] m' h tok"
    by blast
  from t(2) have "tok = 2 \<and> cstr m' tok [97]"
    by (simp add: token_at_def) auto
  with t(1) show ?thesis by blast
qed

text \<open>\<open>strstr\<close> with a non-empty needle returns the first position where the needle occurs in the
  haystack, or null when it does not occur.\<close>

theorem strstr_first:
  assumes "cstr m h xs" "cstr m nd ys" "ys \<noteq> []"
  shows "strstr m h nd = Some (if length xs < length ys then NULL
    else at_ptr h (first_at (\<lambda>j. take (length ys) (drop j xs) = ys) (Suc (length xs - length ys))))"
proof (cases "length xs < length ys")
  case True
  then show ?thesis
    using assms by (simp add: strstr_def strlen_cstr memmem_def)
next
  case False
  let ?n = "Suc (length xs - length ys)"
  have blk: "block m (h + j) (length ys) = take (length ys) (drop j xs)" if "j < ?n" for j
  proof -
    have "block m h (length xs) = xs" using assms(1) by (simp add: cstr_def)
    then show ?thesis
      using block_block [of j "length ys" "length xs" m h] that False by (simp add: block_def)
  qed
  have ys: "block m nd (length ys) = ys"
    using assms(2) by (simp add: cstr_def)
  have "first_at (occurs_at m h nd (length ys)) ?n = first_at (\<lambda>j. take (length ys) (drop j xs) = ys) ?n"
    unfolding first_at_def
  proof (intro find_cong refl)
    fix j assume "j \<in> set [0..<?n]"
    then have "j < ?n" by (simp del: upt_Suc)
    then show "occurs_at m h nd (length ys) j = (take (length ys) (drop j xs) = ys)"
      by (simp only: occurs_at_def ys blk)
  qed
  moreover have "memmem m h (length xs) nd (length ys) = Some (at_ptr h (first_at (occurs_at m h nd (length ys)) ?n))"
    using assms False mapped_mono [OF cstr_mapped [OF assms(1)]] mapped_mono [OF cstr_mapped [OF assms(2)]]
    by (intro memmem_first) auto
  ultimately show ?thesis
    using assms False by (simp add: strstr_def strlen_cstr)
qed

theorem strstr_first_witness: "strstr [7, 97, 98, 97, 99, 0, 97, 99, 0] 1 6 = Some 3"
proof -
  let ?m = "[7, 97, 98, 97, 99, 0, 97, 99, 0] :: mem"
  have "cstr ?m 1 [97, 98, 97, 99]" "cstr ?m 6 [97, 99]"
    by (simp_all add: cstr_simps)
  from strstr_first [OF this] show ?thesis
    by (simp add: first_at_def)
qed

end
