(* ===== verification/Libgcc.thy ===== *)
theory Libgcc
  imports CPrelude "HOL-Library.Signed_Division"
begin

text \<open>
  The integer support routines of \<^verbatim>\<open>libc/src/libgcc\<close>: shift-and-subtract division at 32 and 64 bits,
  the signed division and remainder built on it, the 64-bit shifts on 32-bit halves and the
  leading-zero count. The 32-bit and the 64-bit division have the same text at two widths; their loops
  are one definition at any word length. Dividing by zero raises \<^verbatim>\<open>SIGFPE\<close> (\<^verbatim>\<open>__divide_error\<close>): the first
  component of a result says so, and a remainder that was never stored is \<open>None\<close>. Signed negation wraps
  around. A shift by the full width, which C leaves undefined, is \<open>None\<close>.
\<close>

unbundle bit_operations_syntax



lemma unat_halve: "unat (drop_bit 1 w) = unat (w :: 'a::len word) div 2"
  by (simp only: unat_drop_bit power_one_right)

lemma unat_halve_less: "w \<noteq> 0 \<Longrightarrow> unat (drop_bit 1 w) < unat (w :: 'a::len word)"
  by (simp only: unat_halve) (simp add: unat_gt_0)

section \<open>Definitions\<close>

subsection \<open>Unsigned division\<close>

partial_function (option) udiv_justify :: "'a::len word \<Rightarrow> 'a word \<Rightarrow> ('a word \<times> 'a word) option" where
  [code]: "udiv_justify den qbit =
     (if 0 \<le> sint den then udiv_justify (push_bit 1 den) (push_bit 1 qbit) else Some (den, qbit))"

function udiv_loop :: "'a::len word \<Rightarrow> 'a word \<Rightarrow> 'a word \<Rightarrow> 'a word \<Rightarrow> 'a word \<times> 'a word" where
  "udiv_loop num den qbit quot =
     (if qbit \<noteq> 0 then
        (if den \<le> num then udiv_loop (num - den) (drop_bit 1 den) (drop_bit 1 qbit) (quot + qbit)
         else udiv_loop num (drop_bit 1 den) (drop_bit 1 qbit) quot)
      else (quot, num))"
  by pat_completeness auto
termination
  by (relation "measure (\<lambda>(num, den, qbit, quot). unat qbit)")
     (use unat_halve_less in simp_all)

declare udiv_loop.simps [simp del]

definition udivmodsi4 :: "32 word \<Rightarrow> 32 word \<Rightarrow> (bool \<times> 32 word \<times> 32 word option) option" where
  "udivmodsi4 num den =
     (if den = 0 then Some (True, 0, None)
      else do {
        (den', qbit) \<leftarrow> udiv_justify den 1;
        let (quot, num') = udiv_loop num den' qbit 0;
        Some (False, quot, Some num')
      })"

definition udivmoddi4 :: "64 word \<Rightarrow> 64 word \<Rightarrow> (bool \<times> 64 word \<times> 64 word option) option" where
  "udivmoddi4 num den =
     (if den = 0 then Some (True, 0, None)
      else do {
        (den', qbit) \<leftarrow> udiv_justify den 1;
        let (quot, num') = udiv_loop num den' qbit 0;
        Some (False, quot, Some num')
      })"

definition udivsi3 :: "32 word \<Rightarrow> 32 word \<Rightarrow> (bool \<times> 32 word) option" where
  "udivsi3 num den = do { (sig, quot, _) \<leftarrow> udivmodsi4 num den; Some (sig, quot) }"

definition umodsi3 :: "32 word \<Rightarrow> 32 word \<Rightarrow> (bool \<times> 32 word option) option" where
  "umodsi3 num den = do { (sig, _, v) \<leftarrow> udivmodsi4 num den; Some (sig, v) }"

definition udivdi3 :: "64 word \<Rightarrow> 64 word \<Rightarrow> (bool \<times> 64 word) option" where
  "udivdi3 num den = do { (sig, quot, _) \<leftarrow> udivmoddi4 num den; Some (sig, quot) }"

definition umoddi3 :: "64 word \<Rightarrow> 64 word \<Rightarrow> (bool \<times> 64 word option) option" where
  "umoddi3 num den = do { (sig, _, v) \<leftarrow> udivmoddi4 num den; Some (sig, v) }"

subsection \<open>Signed division and remainder\<close>

text \<open>The sign handling the four signed routines share: the operands made non-negative and whether an
  odd number of them was negative.\<close>

definition strip_signs :: "'a::len word \<Rightarrow> 'a word \<Rightarrow> 'a word \<times> 'a word \<times> bool" where
  "strip_signs num den =
     (let minus = False;
          (num, minus) = (if sint num < 0 then (- num, True) else (num, minus));
          (den, minus) = (if sint den < 0 then (- den, \<not> minus) else (den, minus))
      in (num, den, minus))"

definition divsi3 :: "32 word \<Rightarrow> 32 word \<Rightarrow> (bool \<times> 32 word) option" where
  "divsi3 num den = (let (num, den, minus) = strip_signs num den in do {
     (sig, v, _) \<leftarrow> udivmodsi4 num den;
     Some (sig, if minus then - v else v)
   })"

definition divdi3 :: "64 word \<Rightarrow> 64 word \<Rightarrow> (bool \<times> 64 word) option" where
  "divdi3 num den = (let (num, den, minus) = strip_signs num den in do {
     (sig, v, _) \<leftarrow> udivmoddi4 num den;
     Some (sig, if minus then - v else v)
   })"

definition modsi3 :: "32 word \<Rightarrow> 32 word \<Rightarrow> (bool \<times> 32 word option) option" where
  "modsi3 num den = (let (num, den, minus) = strip_signs num den in do {
     (sig, _, v) \<leftarrow> udivmodsi4 num den;
     Some (sig, map_option (\<lambda>v. if minus then - v else v) v)
   })"

definition moddi3 :: "64 word \<Rightarrow> 64 word \<Rightarrow> (bool \<times> 64 word option) option" where
  "moddi3 num den = (let (num, den, minus) = strip_signs num den in do {
     (sig, _, v) \<leftarrow> udivmoddi4 num den;
     Some (sig, map_option (\<lambda>v. if minus then - v else v) v)
   })"

subsection \<open>Shifts of 64-bit values on 32-bit halves\<close>

definition shl32 :: "32 word \<Rightarrow> nat \<Rightarrow> 32 word option" where
  "shl32 v n = (if n < 32 then Some (push_bit n v) else None)"

definition shr32 :: "32 word \<Rightarrow> nat \<Rightarrow> 32 word option" where
  "shr32 v n = (if n < 32 then Some (drop_bit n v) else None)"

definition sar32 :: "32 word \<Rightarrow> nat \<Rightarrow> 32 word option" where
  "sar32 v n = (if n < 32 then Some (signed_drop_bit n v) else None)"

definition join32 :: "32 word \<Rightarrow> 32 word \<Rightarrow> 64 word" where
  "join32 vh vl = push_bit 32 (ucast vh) + ucast vl"

definition ashldi3 :: "64 word \<Rightarrow> 32 word \<Rightarrow> 64 word option" where
  "ashldi3 v cnt = (let c = unat (cnt AND 31); vl = ucast v :: 32 word; vh = ucast (drop_bit 32 v) :: 32 word in
     if cnt AND 32 \<noteq> 0 then do {
       vh \<leftarrow> shl32 vl c;
       Some (join32 vh 0)
     } else do {
       a \<leftarrow> shl32 vh c;
       b \<leftarrow> shr32 vl (32 - c);
       vl \<leftarrow> shl32 vl c;
       Some (join32 (a + b) vl)
     })"

definition lshrdi3 :: "64 word \<Rightarrow> 32 word \<Rightarrow> 64 word option" where
  "lshrdi3 v cnt = (let c = unat (cnt AND 31); vl = ucast v :: 32 word; vh = ucast (drop_bit 32 v) :: 32 word in
     if cnt AND 32 \<noteq> 0 then do {
       vl \<leftarrow> shr32 vh c;
       Some (join32 0 vl)
     } else do {
       a \<leftarrow> shr32 vl c;
       b \<leftarrow> shl32 vh (32 - c);
       vh \<leftarrow> shr32 vh c;
       Some (join32 vh (a + b))
     })"

definition ashrdi3 :: "64 word \<Rightarrow> 32 word \<Rightarrow> 64 word option" where
  "ashrdi3 v cnt = (let c = unat (cnt AND 31); vl = ucast v :: 32 word; vh = ucast (drop_bit 32 v) :: 32 word in
     if cnt AND 32 \<noteq> 0 then do {
       vl \<leftarrow> sar32 vh c;
       vh \<leftarrow> sar32 vh 31;
       Some (join32 vh vl)
     } else do {
       a \<leftarrow> shr32 vl c;
       b \<leftarrow> shl32 vh (32 - c);
       vh \<leftarrow> sar32 vh c;
       Some (join32 vh (a + b))
     })"

subsection \<open>Leading zeros\<close>

definition clz_step :: "32 word \<Rightarrow> nat \<Rightarrow> int \<times> 32 word \<Rightarrow> int \<times> 32 word" where
  "clz_step bits k = (\<lambda>(p, v). if v AND bits \<noteq> 0 then (p - int k, drop_bit k v) else (p, v))"

definition clzsi2 :: "32 word \<Rightarrow> int" where
  "clzsi2 v = fst (clz_step 0x2 1 (clz_step 0xc 2 (clz_step 0xf0 4 (clz_step 0xff00 8
     (clz_step 0xffff0000 16 (31, v))))))"

section \<open>The division loops at any width\<close>

lemma top_bit_unat: "bit (w :: 'a::len word) (LENGTH('a) - Suc 0) \<longleftrightarrow> 2 ^ (LENGTH('a) - Suc 0) \<le> unat w"
proof -
  have lt: "unat w < 2 ^ LENGTH('a)" by simp
  have e: "(2::nat) ^ LENGTH('a) = 2 * 2 ^ (LENGTH('a) - Suc 0)"
    by (metis One_nat_def Suc_pred len_gt_0 power_Suc)
  have "bit w (LENGTH('a) - Suc 0) \<longleftrightarrow> bit (unat w) (LENGTH('a) - Suc 0)"
    by (simp add: bit_unsigned_iff)
  also have "\<dots> \<longleftrightarrow> odd (unat w div 2 ^ (LENGTH('a) - Suc 0))"
    by (simp add: bit_iff_odd)
  also have "\<dots> \<longleftrightarrow> 2 ^ (LENGTH('a) - Suc 0) \<le> unat w"
  proof (cases "2 ^ (LENGTH('a) - Suc 0) \<le> unat w")
    case True
    then have "unat w div 2 ^ (LENGTH('a) - Suc 0) = 1"
      using lt e by (intro div_nat_eqI) auto
    with True show ?thesis by simp
  qed simp
  finally show ?thesis .
qed

lemma sint_ge_0_unat: "0 \<le> sint (w :: 'a::len word) \<longleftrightarrow> unat w < 2 ^ (LENGTH('a) - Suc 0)"
  using bit_last_iff [of w] top_bit_unat [of w] by auto

lemma half_power: "(2::nat) ^ LENGTH('a::len) = 2 * 2 ^ (LENGTH('a) - Suc 0)"
  by (metis One_nat_def Suc_pred len_gt_0 power_Suc)

lemma unat_double:
  "unat (w :: 'a::len word) < 2 ^ (LENGTH('a) - Suc 0) \<Longrightarrow> unat (push_bit 1 w) = 2 * unat w"
  by (subst unsigned_push_bit_eq) (simp add: take_bit_nat_def half_power push_bit_eq_mult)

text \<open>Justifying a non-zero denominator always ends, scales denominator and quotient bit by the same
  power of two and leaves the denominator with its top bit set.\<close>

lemma udiv_justify_scales:
  fixes den qbit :: "'a::len word"
  assumes "unat den = d * 2 ^ k" "unat qbit = 2 ^ k" "0 < d"
  shows "\<exists>j den' qbit'. udiv_justify den qbit = Some (den', qbit') \<and> unat den' = d * 2 ^ j \<and>
    unat qbit' = 2 ^ j \<and> 2 ^ (LENGTH('a) - Suc 0) \<le> unat den'"
  using assms
proof (induction "2 ^ LENGTH('a) - unat den" arbitrary: den qbit k rule: less_induct)
  case less
  show ?case
  proof (cases "unat den < 2 ^ (LENGTH('a) - Suc 0)")
    case True
    have d: "unat (push_bit 1 den) = d * 2 ^ Suc k"
      using less.prems True by (simp only: unat_double) simp
    have "unat qbit \<le> unat den"
      using less.prems by simp
    then have q: "unat (push_bit 1 qbit) = 2 ^ Suc k"
      using True less.prems by (simp only: unat_double) simp
    have "d * 2 ^ k < d * 2 ^ Suc k"
      using less.prems by simp
    then have "2 ^ LENGTH('a) - unat (push_bit 1 den) < 2 ^ LENGTH('a) - unat den"
      using d less.prems(1) unsigned_less [of den, where ?'a = nat]
      by (intro diff_less_mono2) linarith+
    from less.hyps [OF this d q less.prems(3)] show ?thesis
      using True by (subst udiv_justify.simps) (simp add: sint_ge_0_unat)
  next
    case False
    then show ?thesis
      using less.prems by (subst udiv_justify.simps) (auto simp: sint_ge_0_unat)
  qed
qed

text \<open>The loop keeps \<open>quot * d + num\<close> and brings \<open>num\<close> below \<open>d\<close>.\<close>

lemma udiv_loop_divides:
  fixes num den qbit quot :: "'a::len word"
  assumes "unat den = d * 2 ^ k" "unat qbit = 2 ^ k" "unat num < d * 2 ^ Suc k"
    "unat quot + 2 ^ Suc k \<le> 2 ^ LENGTH('a)"
  shows "\<exists>q r. udiv_loop num den qbit quot = (q, r) \<and>
    unat q * d + unat r = unat quot * d + unat num \<and> unat r < d"
  using assms
proof (induction k arbitrary: num den qbit quot)
  case 0
  then have qb: "qbit = 1"
    using unat_eq_iff [of qbit 1] by auto
  have "unat (drop_bit 1 qbit) = 0"
    unfolding unat_halve using "0.prems"(2) by simp
  with qb have "drop_bit 1 qbit = 0" by simp
  with qb have "udiv_loop num den qbit quot = (if den \<le> num then (quot + 1, num - den) else (quot, num))"
    by (subst udiv_loop.simps) (simp add: udiv_loop.simps [of _ _ 0])
  moreover have "unat (quot + 1) = unat quot + 1"
    using "0.prems"(4) by (simp add: unat_word_ariths)
  moreover have "den \<le> num \<Longrightarrow> unat (num - den) = unat num - unat den"
    by (rule unat_sub)
  ultimately show ?case
    using "0.prems" by (cases "den \<le> num") (simp_all add: word_le_nat_alt)
next
  case (Suc k)
  have nz: "qbit \<noteq> 0" using Suc.prems(2) by auto
  have h: "unat (drop_bit 1 den) = d * 2 ^ k" "unat (drop_bit 1 qbit) = 2 ^ k"
    using Suc.prems(1,2) by (simp_all add: unat_halve del: One_nat_def)
  show ?case
  proof (cases "den \<le> num")
    case True
    have n: "unat (num - den) = unat num - unat den"
      using True by (simp add: unat_sub)
    have "(0::nat) < 2 ^ Suc k" by simp
    then have "unat quot + unat qbit < 2 ^ LENGTH('a)"
      using Suc.prems(2,4) by (simp only: power_Suc)
    then have q: "unat (quot + qbit) = unat quot + 2 ^ Suc k"
      using Suc.prems(2) by (simp add: unat_add_lem [THEN iffD1])
    have "unat (num - den) < d * 2 ^ Suc k" "unat (quot + qbit) + 2 ^ Suc k \<le> 2 ^ LENGTH('a)"
      using n q Suc.prems True by (auto simp: word_le_nat_alt)
    from Suc.IH [OF h this] show ?thesis
      using True nz n q Suc.prems by (subst udiv_loop.simps) (auto simp: word_le_nat_alt algebra_simps)
  next
    case False
    have "unat num < d * 2 ^ Suc k" "unat quot + 2 ^ Suc k \<le> 2 ^ LENGTH('a)"
      using Suc.prems False by (auto simp: word_le_nat_alt)
    from Suc.IH [OF h this] show ?thesis
      using False nz by (subst udiv_loop.simps) auto
  qed
qed

lemma udiv_correct:
  fixes num den :: "'a::len word"
  assumes "den \<noteq> 0"
  shows "\<exists>den' qbit. udiv_justify den 1 = Some (den', qbit) \<and>
    udiv_loop num den' qbit 0 = (num div den, num mod den)"
proof -
  let ?d = "unat den"
  have d: "0 < ?d" using assms by (simp add: unat_gt_0)
  obtain j den' qbit where j: "udiv_justify den 1 = Some (den', qbit)" "unat den' = ?d * 2 ^ j"
    "unat qbit = 2 ^ j" "2 ^ (LENGTH('a) - Suc 0) \<le> unat den'"
    using udiv_justify_scales [of den ?d 0 1] d by auto
  have "unat num < 2 ^ LENGTH('a)" by simp
  then have n: "unat num < ?d * 2 ^ Suc j"
    using j(2,4) by (simp add: half_power)
  have "2 ^ j < (2::nat) ^ LENGTH('a)"
    using j(3) unsigned_less [of qbit, where ?'a = nat] by simp
  then have "j < LENGTH('a)"
    using power_less_imp_less_exp [of 2 j] by simp
  then have "unat (0 :: 'a word) + 2 ^ Suc j \<le> 2 ^ LENGTH('a)"
    by (simp del: power_Suc add: Suc_leI)
  from udiv_loop_divides [OF j(2,3) n this] obtain q r where
    qr: "udiv_loop num den' qbit 0 = (q, r)" "unat q * ?d + unat r = unat num" "unat r < ?d"
    by auto
  have "q = num div den" "r = num mod den"
    using qr(2,3) d by (auto simp: unat_eq_iff [symmetric] unat_div unat_mod
      simp flip: qr(2))
  then show ?thesis using j(1) qr(1) by auto
qed

section \<open>Signed division over an unsigned one\<close>

lemma uint_magnitude: "uint (if sint w < 0 then - w else w) = \<bar>sint (w :: 'a::len word)\<bar>"
proof (cases "sint w < 0")
  case True
  have "- sint w \<le> 2 ^ (LENGTH('a) - 1)"
    using sint_ge [of w] by simp
  also have "\<dots> < (2::int) ^ LENGTH('a)"
    by (rule power_strict_increasing) auto
  finally have "take_bit LENGTH('a) (- sint w) = - sint w"
    using True by (simp add: take_bit_int_eq_self)
  moreover have "uint (- w) = take_bit LENGTH('a) (- sint w)"
    by (simp flip: uint_word_of_int_eq)
  ultimately show ?thesis using True by simp
next
  case False
  then have "unat w < 2 ^ (LENGTH('a) - Suc 0)"
    using sint_ge_0_unat [of w] by simp
  then have "int (unat w) < int (2 ^ (LENGTH('a) - Suc 0))"
    by (simp only: of_nat_less_iff)
  then have "uint w < 2 ^ (LENGTH('a) - Suc 0)"
    by simp
  then have "signed_take_bit (LENGTH('a) - Suc 0) (uint w) = uint w"
    by (intro signed_take_bit_int_eq_self) (use uint_ge_0 [of w] in linarith)+
  then show ?thesis using False by (simp add: sint_uint)
qed

text \<open>The interface of the unsigned division the signed routines call, and what they compute over any
  division that provides it. A zero denominator is reported and gives quotient zero.\<close>

locale unsigned_division =
  fixes udivmod :: "'a::len word \<Rightarrow> 'a word \<Rightarrow> (bool \<times> 'a word \<times> 'a word option) option"
  assumes udivmod_zero: "udivmod n 0 = Some (True, 0, None)"
    and udivmod_nonzero: "d \<noteq> 0 \<Longrightarrow> udivmod n d = Some (False, n div d, Some (n mod d))"
begin

lemma signed_quotient:
  "(let (num, den, minus) = strip_signs num den in do {
     (sig, v, _) \<leftarrow> udivmod num den;
     Some (sig, if minus then - v else v)
   }) = Some (den = 0, word_of_int (sint num sdiv sint den))"
proof (cases "den = 0")
  case True
  then show ?thesis by (simp add: strip_signs_def udivmod_zero signed_divide_int_def)
next
  case False
  let ?n = "if sint num < 0 then - num else num" and ?d = "if sint den < 0 then - den else den"
  have "?d \<noteq> 0" using False by auto
  then have u: "udivmod ?n ?d = Some (False, ?n div ?d, Some (?n mod ?d))"
    by (rule udivmod_nonzero)
  have h: "uint (?n div ?d) = \<bar>sint num\<bar> div \<bar>sint den\<bar>"
    by (simp only: uint_div_distrib uint_magnitude)
  have q: "?n div ?d = word_of_int (\<bar>sint num\<bar> div \<bar>sint den\<bar>)"
    unfolding h [symmetric] by (rule word_of_int_uint [symmetric])
  have s: "strip_signs num den = (?n, ?d, (sint num < 0) \<noteq> (sint den < 0))"
    by (simp add: strip_signs_def)
  have "word_of_int (sint num sdiv sint den) =
      (if (sint num < 0) \<noteq> (sint den < 0) then - word_of_int (\<bar>sint num\<bar> div \<bar>sint den\<bar>)
       else word_of_int (\<bar>sint num\<bar> div \<bar>sint den\<bar>) :: 'a word)"
    using False by (simp add: signed_divide_int_def sgn_if)
  then show ?thesis
    by (simp only: s u q Let_def prod.case bind.bind_lunit False refl simp_thms)
qed

lemma signed_remainder:
  "(let (num, den, minus) = strip_signs num den in do {
     (sig, _, v) \<leftarrow> udivmod num den;
     Some (sig, map_option (\<lambda>v. if minus then - v else v) v)
   }) = Some (den = 0, if den = 0 then None
     else Some (word_of_int (sgn (sint den) * (sint num smod sint den))))"
proof (cases "den = 0")
  case True
  then show ?thesis by (simp add: strip_signs_def udivmod_zero)
next
  case False
  let ?n = "if sint num < 0 then - num else num" and ?d = "if sint den < 0 then - den else den"
  have "?d \<noteq> 0" using False by auto
  then have u: "udivmod ?n ?d = Some (False, ?n div ?d, Some (?n mod ?d))"
    by (rule udivmod_nonzero)
  have h: "uint (?n mod ?d) = \<bar>sint num\<bar> mod \<bar>sint den\<bar>"
    by (simp only: uint_mod_distrib uint_magnitude)
  have q: "?n mod ?d = word_of_int (\<bar>sint num\<bar> mod \<bar>sint den\<bar>)"
    unfolding h [symmetric] by (rule word_of_int_uint [symmetric])
  have s: "strip_signs num den = (?n, ?d, (sint num < 0) \<noteq> (sint den < 0))"
    by (simp add: strip_signs_def)
  have "word_of_int (sgn (sint den) * (sint num smod sint den)) =
      (if (sint num < 0) \<noteq> (sint den < 0) then - word_of_int (\<bar>sint num\<bar> mod \<bar>sint den\<bar>)
       else word_of_int (\<bar>sint num\<bar> mod \<bar>sint den\<bar>) :: 'a word)"
    using False signed_eq_0_iff [of den] by (auto simp: signed_modulo_int_def sgn_if)
  then show ?thesis
    by (simp only: s u q Let_def prod.case bind.bind_lunit False refl simp_thms if_False option.map)
qed

end

lemma udivmodsi4_nonzero: "d \<noteq> 0 \<Longrightarrow> udivmodsi4 n d = Some (False, n div d, Some (n mod d))"
  using udiv_correct [of d n] by (auto simp: udivmodsi4_def)

lemma udivmoddi4_nonzero: "d \<noteq> 0 \<Longrightarrow> udivmoddi4 n d = Some (False, n div d, Some (n mod d))"
  using udiv_correct [of d n] by (auto simp: udivmoddi4_def)

interpretation usi: unsigned_division udivmodsi4
  by unfold_locales (simp add: udivmodsi4_def, rule udivmodsi4_nonzero)

interpretation udi: unsigned_division udivmoddi4
  by unfold_locales (simp add: udivmoddi4_def, rule udivmoddi4_nonzero)

section \<open>Shifts and leading zeros\<close>

lemma bit_join32:
  "bit (join32 vh vl) n \<longleftrightarrow> n < 64 \<and> (if n < 32 then bit vl n else bit vh (n - 32))"
proof -
  have "push_bit 32 (ucast vh :: 64 word) + ucast vl = push_bit 32 (ucast vh) OR ucast vl"
    by (rule disjunctive_add) (auto simp: bit_push_bit_iff bit_ucast_iff dest: bit_imp_le_length)
  then show ?thesis
    by (auto simp: join32_def bit_or_iff bit_push_bit_iff bit_ucast_iff dest: bit_imp_le_length)
qed

lemma shift_count:
  fixes cnt :: "32 word"
  shows "unat (cnt AND 31) = unat cnt mod 32"
    "unat cnt mod 64 = (if cnt AND 32 \<noteq> 0 then 32 else 0) + unat cnt mod 32"
proof -
  have m: "(31 :: 32 word) = mask 5" "(32 :: 32 word) = 2 ^ 5" by (simp_all add: mask_eq_exp_minus_1)
  show "unat (cnt AND 31) = unat cnt mod 32"
    unfolding m by (simp add: take_bit_eq_mask [symmetric] unsigned_take_bit_eq take_bit_nat_def)
  have "cnt AND 32 \<noteq> 0 \<longleftrightarrow> bit cnt 5"
    unfolding m by (simp only: and_exp_eq_0_iff_not_bit not_not)
  moreover have "take_bit (Suc 5) (unat cnt) = 2 ^ 5 * of_bool (bit (unat cnt) 5) + take_bit 5 (unat cnt)"
    by (rule take_bit_Suc_from_most)
  ultimately show "unat cnt mod 64 = (if cnt AND 32 \<noteq> 0 then 32 else 0) + unat cnt mod 32"
    by (simp add: take_bit_nat_def bit_unsigned_iff)
qed

lemma half_bits:
  "bit (ucast (v :: 64 word) :: 32 word) n \<longleftrightarrow> n < 32 \<and> bit v n"
  "bit (ucast (drop_bit 32 (v :: 64 word)) :: 32 word) n \<longleftrightarrow> n < 32 \<and> bit v (32 + n)"
  by (auto simp: bit_ucast_iff bit_drop_bit_eq)

lemma shift_parts_left:
  fixes a b :: "32 word"
  assumes "0 < c" "c < 32"
  shows "push_bit c a + drop_bit (32 - c) b = push_bit c a OR drop_bit (32 - c) b"
    "drop_bit c a + push_bit (32 - c) b = drop_bit c a OR push_bit (32 - c) b"
proof -
  have "\<not> bit (push_bit c a) n \<or> \<not> bit (drop_bit (32 - c) b) n" for n
    using assms bit_imp_le_length [of b "32 - c + n"] by (auto simp: bit_push_bit_iff bit_drop_bit_eq)
  then show "push_bit c a + drop_bit (32 - c) b = push_bit c a OR drop_bit (32 - c) b"
    by (rule disjunctive_add)
  have "\<not> bit (drop_bit c a) n \<or> \<not> bit (push_bit (32 - c) b) n" for n
    using assms bit_imp_le_length [of a "c + n"] by (auto simp: bit_push_bit_iff bit_drop_bit_eq)
  then show "drop_bit c a + push_bit (32 - c) b = drop_bit c a OR push_bit (32 - c) b"
    by (rule disjunctive_add)
qed

lemma ashldi3_parts:
  fixes v :: "64 word"
  assumes "c < 32"
  shows "join32 (push_bit c (ucast v)) 0 = push_bit (32 + c) v"
    "0 < c \<Longrightarrow> join32 (push_bit c (ucast (drop_bit 32 v)) + drop_bit (32 - c) (ucast v)) (push_bit c (ucast v))
      = push_bit c v"
  using assms
  by (intro bit_eqI; auto simp: bit_join32 bit_push_bit_iff half_bits shift_parts_left bit_or_iff
    bit_drop_bit_eq diff_diff_add)+

lemma lshrdi3_parts:
  fixes v :: "64 word"
  assumes "c < 32"
  shows "join32 0 (drop_bit c (ucast (drop_bit 32 v))) = drop_bit (32 + c) v"
    "0 < c \<Longrightarrow> join32 (drop_bit c (ucast (drop_bit 32 v)))
      (drop_bit c (ucast v) + push_bit (32 - c) (ucast (drop_bit 32 v))) = drop_bit c v"
  using assms
  by (intro bit_eqI; auto simp: bit_join32 bit_push_bit_iff half_bits shift_parts_left bit_or_iff
    bit_drop_bit_eq diff_diff_add ac_simps dest: bit_imp_le_length)+

lemma ashrdi3_parts:
  fixes v :: "64 word"
  assumes "c < 32"
  shows "join32 (signed_drop_bit 31 (ucast (drop_bit 32 v))) (signed_drop_bit c (ucast (drop_bit 32 v)))
      = signed_drop_bit (32 + c) v"
    "0 < c \<Longrightarrow> join32 (signed_drop_bit c (ucast (drop_bit 32 v)))
      (drop_bit c (ucast v) + push_bit (32 - c) (ucast (drop_bit 32 v))) = signed_drop_bit c v"
proof -
  show "join32 (signed_drop_bit 31 (ucast (drop_bit 32 v))) (signed_drop_bit c (ucast (drop_bit 32 v)))
      = signed_drop_bit (32 + c) v"
  proof (rule bit_word_eqI)
    fix n assume "n < LENGTH(64)"
    then show "bit (join32 (signed_drop_bit 31 (ucast (drop_bit 32 v))) (signed_drop_bit c (ucast (drop_bit 32 v)))) n
      = bit (signed_drop_bit (32 + c) v) n"
      using assms by (cases "n = 32") (auto simp: bit_join32 half_bits bit_signed_drop_bit_iff bit_drop_bit_eq add.assoc)
  qed
  show "join32 (signed_drop_bit c (ucast (drop_bit 32 v)))
      (drop_bit c (ucast v) + push_bit (32 - c) (ucast (drop_bit 32 v))) = signed_drop_bit c v" if "0 < c"
    using assms that by (intro bit_eqI) (auto simp: bit_join32 bit_push_bit_iff half_bits shift_parts_left bit_or_iff
      bit_drop_bit_eq bit_signed_drop_bit_iff diff_diff_add add.assoc add.commute [of c])
qed

text \<open>The leading-zero count keeps the value as a shift of the input and halves its possible width.\<close>

definition clz_inv :: "32 word \<Rightarrow> nat \<Rightarrow> int \<times> 32 word \<Rightarrow> bool" where
  "clz_inv v0 m = (\<lambda>(p, v). v \<noteq> 0 \<and> p \<le> 31 \<and> unat v < 2 ^ m \<and> v = drop_bit (nat (31 - p)) v0)"

lemma clz_step_inv:
  assumes "clz_inv v0 (2 * k) pv" "2 * k \<le> 32" "bits = push_bit k (mask k)"
  shows "clz_inv v0 k (clz_step bits k pv)"
proof -
  obtain p v where pv: "pv = (p, v)" by (cases pv)
  have v: "v \<noteq> 0" "p \<le> 31" "unat v < 2 ^ (2 * k)" "v = drop_bit (nat (31 - p)) v0"
    using assms(1) by (auto simp: clz_inv_def pv)
  have "take_bit (2 * k) (unat v) = unat v"
    using v(3) by (simp add: take_bit_nat_def)
  then have hi: "\<not> bit v n" if "2 * k \<le> n" for n
    using that bit_take_bit_iff [of "2 * k" "unat v" n] by (simp add: bit_unsigned_iff)
  have b: "bit bits n \<longleftrightarrow> k \<le> n \<and> n < 2 * k" for n
    using assms(2) unfolding assms(3) by (auto simp: bit_push_bit_iff bit_mask_iff)
  have "v AND bits = 0 \<longleftrightarrow> drop_bit k v = 0"
  proof
    assume z: "v AND bits = 0"
    have "\<not> bit v (k + n)" for n
      using arg_cong [OF z, of "\<lambda>w. bit w (k + n)"] hi [of "k + n"] b [of "k + n"]
      by (simp add: bit_and_iff) linarith
    then show "drop_bit k v = 0"
      by (intro bit_eqI) (simp add: bit_drop_bit_eq)
  next
    assume z: "drop_bit k v = 0"
    have "\<not> bit (v AND bits) n" for n
      using arg_cong [OF z, of "\<lambda>w. bit w (n - k)"] b [of n]
      by (auto simp: bit_and_iff bit_drop_bit_eq)
    then show "v AND bits = 0"
      by (intro bit_eqI) simp
  qed
  moreover have u: "unat (drop_bit k v) = unat v div 2 ^ k"
    by (rule unat_drop_bit)
  moreover have "unat v div 2 ^ k < 2 ^ k"
    using v(3) by (simp add: less_mult_imp_div_less mult_2 power_add)
  moreover have "drop_bit k v = 0 \<Longrightarrow> unat v < 2 ^ k"
    using u by (simp add: div_eq_0_iff)
  moreover have "nat (31 - (p - int k)) = k + nat (31 - p)"
    using v(2) by simp
  ultimately show ?thesis
    using v by (simp add: clz_step_def clz_inv_def pv)
qed

section \<open>Properties\<close>

text \<open>C28: The shift-and-subtract division at 32 and at 64 bits returns for every pair of operands: it signals
  a division by zero exactly for a zero denominator, and otherwise computes the quotient and the
  remainder of the unsigned operands.\<close>

theorem udivmod_correct:
  "udivmodsi4 num den =
     Some (if den = 0 then (True, 0, None) else (False, num div den, Some (num mod den))) \<and>
   udivmoddi4 num' den' =
     Some (if den' = 0 then (True, 0, None) else (False, num' div den', Some (num' mod den')))"
  using udivmodsi4_nonzero [of den num] udivmoddi4_nonzero [of den' num'] usi.udivmod_zero udi.udivmod_zero
  by simp

text \<open>Signed division at both widths truncates towards zero, as C requires, for every pair of operands
  (the one overflowing quotient wraps around); dividing by zero is signalled.\<close>

theorem signed_division_truncates:
  "divsi3 num den = Some (den = 0, word_of_int (sint num sdiv sint den)) \<and>
   divdi3 num' den' = Some (den' = 0, word_of_int (sint num' sdiv sint den'))"
  using usi.signed_quotient [of num den] udi.signed_quotient [of num' den']
  by (simp only: divsi3_def divdi3_def simp_thms)

text \<open>The signed remainder of a non-zero denominator has the magnitude C requires, but its sign is the
  product of the signs of both operands: it is C's remainder multiplied by the sign of the denominator,
  so it differs from it for a negative denominator, for example 7 by -2.\<close>

theorem signed_remainder_sign:
  "modsi3 num den = Some (den = 0, if den = 0 then None
     else Some (word_of_int (sgn (sint den) * (sint num smod sint den)))) \<and>
   moddi3 num' den' = Some (den' = 0, if den' = 0 then None
     else Some (word_of_int (sgn (sint den') * (sint num' smod sint den')))) \<and>
   modsi3 7 (- 2) = Some (False, Some (- 1)) \<and> (7 :: int) smod - 2 = 1"
proof -
  have "modsi3 num den = Some (den = 0, if den = 0 then None
     else Some (word_of_int (sgn (sint den) * (sint num smod sint den))))" for num den
    using usi.signed_remainder [of num den] by (simp only: modsi3_def)
  moreover have "sint (- 2 :: 32 word) = - 2" "sint (7 :: 32 word) = 7" by code_simp+
  ultimately show ?thesis
    using udi.signed_remainder [of num' den'] by (simp add: moddi3_def signed_modulo_int_def)
qed

text \<open>The 64-bit shifts built from 32-bit halves shift by the count modulo 64, logically or
  arithmetically, except when that is zero: then the C code shifts a 32-bit half by 32 bits, which is
  undefined.\<close>

theorem shifts_on_halves:
  "ashldi3 v cnt = (if unat cnt mod 64 = 0 then None else Some (push_bit (unat cnt mod 64) v)) \<and>
   lshrdi3 v cnt = (if unat cnt mod 64 = 0 then None else Some (drop_bit (unat cnt mod 64) v)) \<and>
   ashrdi3 v cnt = (if unat cnt mod 64 = 0 then None else Some (signed_drop_bit (unat cnt mod 64) v))"
proof -
  define c where c: "c = unat cnt mod 32"
  have c32: "c < 32" by (simp add: c)
  have n: "unat cnt mod 64 = (if cnt AND 32 \<noteq> 0 then 32 else 0) + c"
    by (simp only: shift_count c)
  have s: "unat (cnt AND 31) = c"
    by (simp only: shift_count c)
  show ?thesis
  proof (cases "cnt AND 32 = 0")
    case True
    then show ?thesis
      using c32 ashldi3_parts(2) [OF c32, of v] lshrdi3_parts(2) [OF c32, of v] ashrdi3_parts(2) [OF c32, of v]
      unfolding n by (cases "c = 0")
        (simp_all add: ashldi3_def lshrdi3_def ashrdi3_def s Let_def shl32_def shr32_def sar32_def)
  next
    case False
    then show ?thesis
      using c32 ashldi3_parts(1) [OF c32, of v] lshrdi3_parts(1) [OF c32, of v] ashrdi3_parts(1) [OF c32, of v]
      unfolding n by (simp add: ashldi3_def lshrdi3_def ashrdi3_def s Let_def shl32_def shr32_def sar32_def)
  qed
qed

text \<open>The leading-zero count of a non-zero word is the number of bits above its highest set bit.\<close>

theorem clzsi2_counts:
  assumes "v \<noteq> 0"
  shows "0 \<le> clzsi2 v \<and> clzsi2 v < 32 \<and> 2 ^ nat (31 - clzsi2 v) \<le> unat v \<and> unat v < 2 ^ nat (32 - clzsi2 v)"
proof -
  have "clz_inv v 32 (31, v)"
    using assms unsigned_less [of v, where ?'a = nat] by (simp add: clz_inv_def)
  then have "clz_inv v 16 (clz_step 0xffff0000 16 (31, v))"
    by (intro clz_step_inv) (simp_all add: mask_eq_exp_minus_1)
  then have "clz_inv v 8 (clz_step 0xff00 8 (clz_step 0xffff0000 16 (31, v)))"
    by (intro clz_step_inv) (simp_all add: mask_eq_exp_minus_1)
  then have "clz_inv v 4 (clz_step 0xf0 4 (clz_step 0xff00 8 (clz_step 0xffff0000 16 (31, v))))"
    by (intro clz_step_inv) (simp_all add: mask_eq_exp_minus_1)
  then have "clz_inv v 2 (clz_step 0xc 2 (clz_step 0xf0 4 (clz_step 0xff00 8
      (clz_step 0xffff0000 16 (31, v)))))"
    by (intro clz_step_inv) (simp_all add: mask_eq_exp_minus_1)
  then have "clz_inv v 1 (clz_step 0x2 1 (clz_step 0xc 2 (clz_step 0xf0 4 (clz_step 0xff00 8
      (clz_step 0xffff0000 16 (31, v))))))"
    by (intro clz_step_inv) (simp_all add: mask_eq_exp_minus_1)
  then obtain p w where "clzsi2 v = p" "clz_inv v 1 (p, w)"
    by (metis clzsi2_def prod.collapse)
  then have p: "p \<le> 31" "unat w = 1" "w = drop_bit (nat (31 - p)) v"
    by (auto simp: clz_inv_def unat_eq_iff [symmetric] less_Suc_eq)
  then have d: "unat v div 2 ^ nat (31 - p) = 1"
    using unat_drop_bit [of "nat (31 - p)" v] by simp
  have "nat (31 - p) < 32"
  proof (rule ccontr)
    assume "\<not> nat (31 - p) < 32"
    then have "(2::nat) ^ 32 \<le> 2 ^ nat (31 - p)"
      by (intro power_increasing) auto
    then have "unat v div 2 ^ nat (31 - p) = 0"
      using unsigned_less [of v, where ?'a = nat] by (intro div_less) simp
    with d show False by simp
  qed
  moreover have "2 ^ nat (31 - p) \<le> unat v"
    using d by (rule_tac ccontr) simp
  moreover have "unat v < 2 * 2 ^ nat (31 - p)"
    using d dividend_less_div_times [of "2 ^ nat (31 - p)" "unat v"] by simp
  moreover have "nat (32 - p) = Suc (nat (31 - p))" using p(1) by simp
  ultimately show ?thesis
    using p(1) \<open>clzsi2 v = p\<close> by simp
qed

theorem clzsi2_counts_witness: "clzsi2 0x00f00000 = 8 \<and> 2 ^ nat (31 - clzsi2 0x00f00000) \<le> unat (0x00f00000 :: 32 word)"
  using clzsi2_counts [of "0x00f00000"] by (simp add: clzsi2_def clz_step_def)

end
