(* ===== verification/Strtox.thy ===== *)
theory Strtox
  imports StrFuns
begin

text \<open>
  Conversion of strings to integers: \<^verbatim>\<open>strntoumax\<close> (\<^verbatim>\<open>libc/src/strntoumax.c\<close>), the functions generated from
  \<^verbatim>\<open>strtox.c.h\<close> and \<^verbatim>\<open>atox.c.h\<close>, and \<^verbatim>\<open>strtotimeval\<close>/\<^verbatim>\<open>strtotimespec\<close> from \<^verbatim>\<open>strtotimex.c.h\<close>. The value is a
  64-bit word, so that overflow wraps around as in the code; \<^verbatim>\<open>*endptr\<close> is the second component of the
  result. \<open>umax_spec\<close> is the reference reading of a byte string, and \<open>strntoumax_nstr\<close> shows that the
  pointer-walking code computes it.
\<close>

section \<open>Definitions\<close>

definition digitval :: "int \<Rightarrow> int" where
  "digitval ch =
     (if ch \<ge> 48 \<and> ch \<le> 57 then ch - 48
      else if ch \<ge> 65 \<and> ch \<le> 90 then ch - 65 + 10
      else if ch \<ge> 97 \<and> ch \<le> 122 then ch - 97 + 10
      else -1)"

function strnto_space :: "mem \<Rightarrow> addr \<Rightarrow> nat \<Rightarrow> (addr \<times> nat) option" where
  "strnto_space m nptr n =
     (if n \<noteq> 0 then do {
        c \<leftarrow> rd m nptr;
        sp \<leftarrow> isspace (uint c);
        if sp \<noteq> 0 then strnto_space m (nptr + 1) (n - 1) else Some (nptr, n)
      } else Some (nptr, n))"
  by pat_completeness auto
termination
  by (relation "measure (\<lambda>(m, nptr, n). length m - nptr)") auto

definition strnto_sign :: "mem \<Rightarrow> addr \<Rightarrow> nat \<Rightarrow> (bool \<times> addr \<times> nat) option" where
  "strnto_sign m nptr n =
     (if n \<noteq> 0 then do {
        c \<leftarrow> rd m nptr;
        if c = 45 \<or> c = 43 then Some (c = 45, nptr + 1, n - 1) else Some (False, nptr, n)
      } else Some (False, nptr, n))"

text \<open>The test \<^verbatim>\<open>n >= 2 && nptr[0] == '0' && (nptr[1] == 'x' || nptr[1] == 'X')\<close>.\<close>

definition has_0x :: "mem \<Rightarrow> addr \<Rightarrow> nat \<Rightarrow> bool option" where
  "has_0x m nptr n =
     (if n \<ge> 2 then do {
        a \<leftarrow> rd m nptr;
        if a = 48 then do { b \<leftarrow> rd m (nptr + 1); Some (b = 120 \<or> b = 88) } else Some False
      } else Some False)"

definition strnto_base :: "mem \<Rightarrow> addr \<Rightarrow> nat \<Rightarrow> int \<Rightarrow> (int \<times> addr \<times> nat) option" where
  "strnto_base m nptr n base =
     (if base = 0 then do {
        hex \<leftarrow> has_0x m nptr n;
        if hex then Some (16, nptr + 2, n - 2)
        else do {
          oct \<leftarrow> (if n \<ge> 1 then do { a \<leftarrow> rd m nptr; Some (a = 48) } else Some False);
          if oct then Some (8, nptr + 1, n - 1) else Some (10, nptr, n)
        }
      } else if base = 16 then do {
        hex \<leftarrow> has_0x m nptr n;
        if hex then Some (16, nptr + 2, n - 2) else Some (16, nptr, n)
      } else Some (base, nptr, n))"

text \<open>A plain \<^verbatim>\<open>char\<close> is signed; \<^verbatim>\<open>v * base + d\<close> is computed in \<^verbatim>\<open>uintmax_t\<close>.\<close>

function strnto_digits :: "mem \<Rightarrow> addr \<Rightarrow> nat \<Rightarrow> int \<Rightarrow> 64 word \<Rightarrow> (64 word \<times> addr) option" where
  "strnto_digits m nptr n base v =
     (if n \<noteq> 0 then do {
        c \<leftarrow> rd m nptr;
        let d = digitval (sint c);
        if d \<ge> 0 \<and> d < base then strnto_digits m (nptr + 1) (n - 1) base (v * word_of_int base + word_of_int d)
        else Some (v, nptr)
      } else Some (v, nptr))"
  by pat_completeness auto
termination
  by (relation "measure (\<lambda>(m, nptr, n, base, v). length m - nptr)") auto

declare strnto_space.simps [simp del] strnto_digits.simps [simp del]

definition strntoumax :: "mem \<Rightarrow> addr \<Rightarrow> int \<Rightarrow> nat \<Rightarrow> (64 word \<times> addr) option" where
  "strntoumax m nptr base n = do {
     (nptr, n) \<leftarrow> strnto_space m nptr n;
     (minus, nptr, n) \<leftarrow> strnto_sign m nptr n;
     (base, nptr, n) \<leftarrow> strnto_base m nptr n base;
     (v, nptr) \<leftarrow> strnto_digits m nptr n base 0;
     Some (if minus then - v else v, nptr)
   }"

definition strntoimax :: "mem \<Rightarrow> addr \<Rightarrow> int \<Rightarrow> nat \<Rightarrow> (int \<times> addr) option" where
  "strntoimax m nptr base n = do { (v, e) \<leftarrow> strntoumax m nptr base n; Some (sint v, e) }"

definition size_max :: nat where
  "size_max = unat (- 1 :: 64 word)"

text \<open>The functions generated from \<^verbatim>\<open>strtox.c.h\<close>, by result type.\<close>

definition strtoumax :: "mem \<Rightarrow> addr \<Rightarrow> int \<Rightarrow> (64 word \<times> addr) option" where
  "strtoumax m nptr base = strntoumax m nptr base size_max"

definition strtoimax :: "mem \<Rightarrow> addr \<Rightarrow> int \<Rightarrow> (int \<times> addr) option" where
  "strtoimax m nptr base = do { (v, e) \<leftarrow> strntoumax m nptr base size_max; Some (sint v, e) }"

definition strtol :: "mem \<Rightarrow> addr \<Rightarrow> int \<Rightarrow> (int \<times> addr) option" where
  "strtol m nptr base = do { (v, e) \<leftarrow> strntoumax m nptr base size_max; Some (sint v, e) }"

definition strtoll :: "mem \<Rightarrow> addr \<Rightarrow> int \<Rightarrow> (int \<times> addr) option" where
  "strtoll m nptr base = do { (v, e) \<leftarrow> strntoumax m nptr base size_max; Some (sint v, e) }"

definition strtoul :: "mem \<Rightarrow> addr \<Rightarrow> int \<Rightarrow> (64 word \<times> addr) option" where
  "strtoul m nptr base = strntoumax m nptr base size_max"

definition strtoull :: "mem \<Rightarrow> addr \<Rightarrow> int \<Rightarrow> (64 word \<times> addr) option" where
  "strtoull m nptr base = strntoumax m nptr base size_max"

text \<open>The functions generated from \<^verbatim>\<open>atox.c.h\<close>.\<close>

definition atoi :: "mem \<Rightarrow> addr \<Rightarrow> int option" where
  "atoi m nptr = do { (v, _) \<leftarrow> strntoumax m nptr 10 size_max; Some (sint (ucast v :: 32 word)) }"

definition atol :: "mem \<Rightarrow> addr \<Rightarrow> int option" where
  "atol m nptr = do { (v, _) \<leftarrow> strntoumax m nptr 10 size_max; Some (sint v) }"

definition atoll :: "mem \<Rightarrow> addr \<Rightarrow> int option" where
  "atoll m nptr = do { (v, _) \<leftarrow> strntoumax m nptr 10 size_max; Some (sint v) }"

subsection \<open>Times\<close>

function skip_digits :: "mem \<Rightarrow> addr \<Rightarrow> addr option" where
  "skip_digits m s = do {
     c \<leftarrow> rd m s;
     if isdigit (sint c) \<noteq> 0 then skip_digits m (s + 1) else Some s
   }"
  by pat_completeness auto
termination
  by (relation "measure (\<lambda>(m, s). length m - s)") auto

declare skip_digits.simps [simp del]

text \<open>The multiplication \<^verbatim>\<open>fs *= 10\<close> is done once for every missing decimal.\<close>

definition scale_fraction :: "64 word \<Rightarrow> nat \<Rightarrow> nat \<Rightarrow> 64 word" where
  "scale_fraction fs n decimals = ((\<lambda>f. f * 10) ^^ (decimals - n)) fs"

text \<open>The result holds \<^verbatim>\<open>tv_sec\<close>, the fraction and the returned pointer.\<close>

definition strtotimex :: "nat \<Rightarrow> mem \<Rightarrow> addr \<Rightarrow> (64 word \<times> 64 word \<times> addr) option" where
  "strtotimex decimals m str = do {
     (sec, s) \<leftarrow> strntoumax m str 10 size_max;
     c \<leftarrow> rd m s;
     if c = 46 then do {
       let s0 = s + 1;
       (fs, s) \<leftarrow> strntoumax m s0 10 decimals;
       let n = s - s0;
       s \<leftarrow> skip_digits m s;
       Some (sec, scale_fraction fs n decimals, s)
     } else Some (sec, 0, s)
   }"

definition strtotimeval :: "mem \<Rightarrow> addr \<Rightarrow> (64 word \<times> 64 word \<times> addr) option" where
  "strtotimeval = strtotimex 6"

definition strtotimespec :: "mem \<Rightarrow> addr \<Rightarrow> (64 word \<times> 64 word \<times> addr) option" where
  "strtotimespec = strtotimex 9"

section \<open>The reference reading of a byte string\<close>

definition space_byte :: "byte \<Rightarrow> bool" where
  "space_byte c \<longleftrightarrow> c \<in> {8, 9, 10, 11, 12, 13, 32, 160}"

text \<open>The digits in the order of their values; a letter counts the same in both cases.\<close>

definition digit_table :: "(byte \<times> int) list" where
  "digit_table = zip (map of_char ''0123456789abcdefghijklmnopqrstuvwxyz'') [0..35] @
     zip (map of_char ''ABCDEFGHIJKLMNOPQRSTUVWXYZ'') [10..35]"

definition digit_rank :: "byte \<Rightarrow> int" where
  "digit_rank c = (case map_of digit_table c of None \<Rightarrow> -1 | Some d \<Rightarrow> d)"

definition digit_byte :: "int \<Rightarrow> byte \<Rightarrow> bool" where
  "digit_byte base c \<longleftrightarrow> 0 \<le> digit_rank c \<and> digit_rank c < base"

text \<open>The number a sequence of digits denotes, most significant digit first.\<close>

definition digits_value :: "int \<Rightarrow> byte list \<Rightarrow> int" where
  "digits_value base ds = foldl (\<lambda>v c. v * base + digit_rank c) 0 ds"

definition split_sign :: "byte list \<Rightarrow> bool \<times> byte list" where
  "split_sign xs = (case xs of [] \<Rightarrow> (False, [])
     | c # ys \<Rightarrow> if c = 45 \<or> c = 43 then (c = 45, ys) else (False, xs))"

definition starts_0x :: "byte list \<Rightarrow> bool" where
  "starts_0x xs \<longleftrightarrow> take 2 xs = [48, 120] \<or> take 2 xs = [48, 88]"

definition split_base :: "int \<Rightarrow> byte list \<Rightarrow> int \<times> byte list" where
  "split_base base xs =
     (if (base = 0 \<or> base = 16) \<and> starts_0x xs then (16, drop 2 xs)
      else if base = 0 then (if take 1 xs = [48] then (8, drop 1 xs) else (10, xs))
      else (base, xs))"

text \<open>\<open>umax_spec base xs\<close> is the value read from \<open>xs\<close> and the bytes left unread.\<close>

definition umax_spec :: "int \<Rightarrow> byte list \<Rightarrow> 64 word \<times> byte list" where
  "umax_spec base xs =
     (let (minus, ys) = split_sign (dropWhile space_byte xs);
          (base', zs) = split_base base ys;
          v = word_of_int (digits_value base' (takeWhile (digit_byte base') zs))
      in (if minus then - v else v, dropWhile (digit_byte base') zs))"

section \<open>The code reads what the reference reads\<close>

lemma digit_table_entry: "(c, d) \<in> set digit_table \<Longrightarrow> digitval (sint c) = d"
  unfolding digit_table_def by (simp add: digitval_def upto.simps) (elim disjE conjE; simp)

lemma digit_table_keys: "word_of_int ` (set [48..57] \<union> set [65..90] \<union> set [97..122]) \<subseteq> fst ` set digit_table"
  unfolding digit_table_def by (simp add: upto.simps)

text \<open>The comparisons and subtractions of \<open>digitval\<close> give the place of a digit in the table.\<close>

lemma digitval_rank: "digitval (sint c) = digit_rank c"
proof (cases "map_of digit_table c")
  case None
  then have "c \<notin> fst ` set digit_table" by (simp add: map_of_eq_None_iff)
  moreover have "c = word_of_int (sint c)" by simp
  ultimately have "sint c \<notin> set [48..57] \<union> set [65..90] \<union> set [97..122]" using digit_table_keys by blast
  then have "sint c \<notin> {48..57} \<union> {65..90} \<union> {97..122}" by (simp only: set_upto not_False_eq_True)
  then show ?thesis using None by (simp add: digit_rank_def digitval_def)
next
  case (Some d)
  then show ?thesis using digit_table_entry [OF map_of_SomeD] by (simp add: digit_rank_def)
qed
lemma digit_byte_digitval: "digit_byte base c \<longleftrightarrow> 0 \<le> digitval (sint c) \<and> digitval (sint c) < base"
  by (simp add: digit_byte_def digitval_rank)

lemma digits_value_digitval: "digits_value base ds = foldl (\<lambda>v c. v * base + digitval (sint c)) 0 ds"
  by (simp add: digits_value_def digitval_rank)


text \<open>The part of the string at \<open>p\<close> that a function limited to \<open>n\<close> bytes can see.\<close>

definition nstr :: "mem \<Rightarrow> addr \<Rightarrow> nat \<Rightarrow> byte list \<Rightarrow> bool" where
  "nstr m p n ys \<longleftrightarrow> (\<exists>xs. cstr m p xs \<and> ys = take n xs)"

lemma nstr_Cons:
  assumes "nstr m p n (c # ys)"
  shows "n \<noteq> 0 \<and> 0 < p \<and> p < length m \<and> m ! p = c \<and> c \<noteq> 0 \<and> nstr m (Suc p) (n - 1) ys"
proof -
  obtain xs where x: "cstr m p xs" "c # ys = take n xs"
    using assms by (auto simp: nstr_def)
  then obtain zs where "xs = c # zs" "ys = take (n - 1) zs" "n \<noteq> 0"
    by (cases xs; cases n) auto
  with x show ?thesis by (auto simp: nstr_def cstr_Cons)
qed

lemma nstr_Nil: "nstr m p n [] \<Longrightarrow> n \<noteq> 0 \<Longrightarrow> 0 < p \<and> p < length m \<and> m ! p = 0"
  by (auto simp: nstr_def cstr_Nil)

lemma nstr_rd:
  "nstr m p n ys \<Longrightarrow> n \<noteq> 0 \<Longrightarrow> 0 < p \<and> p < length m \<and> m ! p = (case ys of [] \<Rightarrow> 0 | c # _ \<Rightarrow> c)"
  by (cases ys) (auto dest: nstr_Cons nstr_Nil)

lemma nstr_0: "nstr m p 0 ys \<Longrightarrow> ys = []"
  by (simp add: nstr_def)

lemma nstr_drop: "nstr m p n ys \<Longrightarrow> k \<le> length ys \<Longrightarrow> nstr m (p + k) (n - k) (drop k ys)"
proof (induction k arbitrary: p n ys)
  case (Suc k)
  then obtain c zs where "ys = c # zs" by (cases ys) auto
  with Suc.prems nstr_Cons [of m p n c zs] Suc.IH [of "Suc p" "n - 1" zs] show ?case by simp
qed simp

lemma isspace_byte: "isspace (uint (c :: byte)) = Some (if space_byte c then 16 else 0)"
proof -
  have "space_byte c \<longleftrightarrow> uint c \<in> {8, 9, 10, 11, 12, 13, 32, 160}"
    unfolding space_byte_def by (simp add: word_uint_eq_iff [of c])
  moreover have "uint c \<in> {8, 9, 10, 11, 12, 13, 32, 160} \<longleftrightarrow> uint c \<in> {8..13} \<or> uint c = 32 \<or> uint c = 160"
    by auto
  ultimately show ?thesis
    using isspace_eq [of "uint c"] uint_byte [of c] by simp
qed

lemma not_space_0: "\<not> space_byte 0" and not_digit_0: "\<not> digit_byte base 0"
  by (simp_all add: space_byte_def digit_byte_digitval digitval_def)

lemma strnto_space_nstr:
  "nstr m p n ys \<Longrightarrow> strnto_space m p n =
     Some (p + length (takeWhile space_byte ys), n - length (takeWhile space_byte ys))"
proof (induction ys arbitrary: p n)
  case Nil
  then show ?case
    using nstr_Nil [OF Nil] by (subst strnto_space.simps) (simp add: mem_simps isspace_byte not_space_0)
next
  case (Cons c ys)
  then show ?case
    using nstr_Cons [OF Cons.prems] by (subst strnto_space.simps) (simp add: mem_simps isspace_byte)
qed

lemma strnto_digits_nstr:
  "nstr m p n ys \<Longrightarrow> strnto_digits m p n base (word_of_int v) =
     Some (word_of_int (foldl (\<lambda>v c. v * base + digitval (sint c)) v (takeWhile (digit_byte base) ys)),
       p + length (takeWhile (digit_byte base) ys))"
proof (induction ys arbitrary: p n v)
  case Nil
  then show ?case
    using nstr_Nil [OF Nil] by (subst strnto_digits.simps) (simp add: mem_simps digitval_def)
next
  case (Cons c ys)
  have "word_of_int v * word_of_int base + word_of_int (digitval (sint c)) =
      (word_of_int (v * base + digitval (sint c)) :: 64 word)"
    by simp
  then show ?case
    using nstr_Cons [OF Cons.prems] Cons.IH [of "Suc p" "n - 1" "v * base + digitval (sint c)"]
    by (subst strnto_digits.simps) (simp add: mem_simps Let_def flip: digit_byte_digitval)
qed

lemma strnto_sign_nstr:
  assumes "nstr m p n ys"
  shows "strnto_sign m p n = Some (fst (split_sign ys), p + (length ys - length (snd (split_sign ys))),
    n - (length ys - length (snd (split_sign ys))))"
  using assms nstr_rd [OF assms] nstr_0 [of m p ys]
  by (cases ys; cases "n = 0") (auto simp: strnto_sign_def split_sign_def mem_simps)

lemma has_0x_nstr:
  assumes "nstr m p n ys"
  shows "has_0x m p n = Some (starts_0x ys)"
proof (cases ys)
  case Nil
  then show ?thesis
    using nstr_Nil [of m p n] assms by (simp add: has_0x_def starts_0x_def mem_simps)
next
  case (Cons a zs)
  then have a: "n \<noteq> 0" "0 < p" "p < length m" "m ! p = a" "nstr m (Suc p) (n - 1) zs"
    using nstr_Cons [of m p n a zs] assms by auto
  show ?thesis
    using Cons a nstr_rd [OF a(5)] nstr_0 [of m "Suc p" zs]
    by (cases zs; cases "n = 1") (auto simp: has_0x_def starts_0x_def mem_simps)
qed

lemma starts_0x_length: "starts_0x ys \<Longrightarrow> 2 \<le> length ys \<and> take 1 ys = [48]"
  by (cases ys; cases "tl ys") (auto simp: starts_0x_def)

lemma strnto_base_nstr:
  assumes "nstr m p n ys"
  shows "strnto_base m p n base = Some (fst (split_base base ys),
    p + (length ys - length (snd (split_base base ys))), n - (length ys - length (snd (split_base base ys))))"
  using assms has_0x_nstr [OF assms] nstr_rd [OF assms] nstr_0 [of m p ys] starts_0x_length [of ys]
  by (cases ys; cases "n = 0") (auto simp: strnto_base_def split_base_def mem_simps)

lemma split_sign_suffix: "snd (split_sign ys) = drop (length ys - length (snd (split_sign ys))) ys"
  "length (snd (split_sign ys)) \<le> length ys"
  by (auto simp: split_sign_def split: list.split)

lemma split_base_suffix: "snd (split_base base ys) = drop (length ys - length (snd (split_base base ys))) ys"
  "length (snd (split_base base ys)) \<le> length ys"
  using starts_0x_length [of ys] by (cases ys; auto simp: split_base_def)+

lemma takeWhile_length_diff: "length (takeWhile P xs) = length xs - length (dropWhile P xs)"
  by (metis add_diff_cancel_right' length_append takeWhile_dropWhile_id)

lemma strntoumax_nstr:
  assumes "nstr m p n ys"
  shows "strntoumax m p base n = Some (fst (umax_spec base ys), p + (length ys - length (snd (umax_spec base ys))))"
proof -
  let ?a = "dropWhile space_byte ys"
  let ?b = "snd (split_sign ?a)"
  let ?c = "snd (split_base base ?b)" and ?base = "fst (split_base base ?b)"
  let ?i = "length ys - length ?a" and ?j = "length ?a - length ?b" and ?k = "length ?b - length ?c"
  have a: "nstr m (p + ?i) (n - ?i) ?a"
    using nstr_drop [OF assms, of ?i]
    by (simp add: takeWhile_length_diff [symmetric] dropWhile_eq_drop length_takeWhile_le)
  have b: "nstr m (p + ?i + ?j) (n - ?i - ?j) ?b"
    using nstr_drop [OF a, of ?j] split_sign_suffix [of ?a] by simp
  have c: "nstr m (p + ?i + ?j + ?k) (n - ?i - ?j - ?k) ?c"
    using nstr_drop [OF b, of ?k] split_base_suffix [of base ?b] by simp
  have l: "length ?c \<le> length ?b" "length ?b \<le> length ?a" "length ?a \<le> length ys"
    using split_sign_suffix(2) split_base_suffix(2) length_dropWhile_le by auto
  show ?thesis
    using strnto_space_nstr [OF assms] strnto_sign_nstr [OF a] strnto_base_nstr [OF b, of base]
      strnto_digits_nstr [OF c, of ?base 0] l length_dropWhile_le [of "digit_byte ?base" ?c]
    by (simp add: strntoumax_def umax_spec_def Let_def split_beta digits_value_digitval takeWhile_length_diff)
qed

lemma nstr_cstr: "cstr m p xs \<Longrightarrow> nstr m p n (take n xs)"
  by (auto simp: nstr_def)

lemma digit10: "digit_byte 10 c \<longleftrightarrow> 48 \<le> sint c \<and> sint c \<le> 57"
  by (auto simp: digit_byte_digitval digitval_def)

lemma digit10_plain: "digit_byte 10 c \<Longrightarrow> \<not> space_byte c \<and> c \<noteq> 45 \<and> c \<noteq> 43"
  unfolding digit10 space_byte_def by auto

text \<open>A digit string in base ten is read as the number it denotes, up to the first other byte.\<close>

lemma umax_spec_decimal:
  assumes "ds \<noteq> []" "\<forall>c \<in> set ds. digit_byte 10 c" "rest = [] \<or> \<not> digit_byte 10 (hd rest)"
  shows "umax_spec 10 (ds @ rest) = (word_of_int (digits_value 10 ds), rest)"
proof -
  obtain c cs where ds: "ds = c # cs" using assms(1) by (cases ds) auto
  then have "\<not> space_byte c \<and> c \<noteq> 45 \<and> c \<noteq> 43"
    using digit10_plain assms(2) by auto
  then have 1: "dropWhile space_byte (ds @ rest) = ds @ rest" "split_sign (ds @ rest) = (False, ds @ rest)"
    by (simp_all add: ds split_sign_def)
  have 2: "takeWhile (digit_byte 10) (ds @ rest) = ds" "dropWhile (digit_byte 10) (ds @ rest) = rest"
    using assms(2,3) by (cases rest; simp add: takeWhile_append2 dropWhile_append2)+
  show ?thesis
    by (simp add: umax_spec_def 1 split_base_def 2)
qed

lemma isdigit_byte: "isdigit (sint (c :: byte)) \<noteq> 0 \<longleftrightarrow> digit_byte 10 c"
proof -
  have "- (2 ^ 7) \<le> sint c" "sint c < 2 ^ 7"
    using sint_ge [of c] sint_lt [of c] by auto
  then show ?thesis
    by (simp add: isdigit_eq digit10)
qed

lemma skip_digits_cstr:
  assumes "cstr m p (ds @ rest)" "\<forall>c \<in> set ds. digit_byte 10 c" "rest = [] \<or> \<not> digit_byte 10 (hd rest)"
  shows "skip_digits m p = Some (p + length ds)"
  using assms
proof (induction ds arbitrary: p)
  case Nil
  then show ?case
    by (subst skip_digits.simps; cases rest) (auto simp: cstr_simps mem_simps isdigit_byte not_digit_0)
next
  case (Cons c ds)
  then show ?case
    by (subst skip_digits.simps) (auto simp: cstr_simps mem_simps isdigit_byte)
qed

lemma scale_fraction_pow: "scale_fraction f n d = f * 10 ^ (d - n)"
proof -
  have "((\<lambda>f. f * 10) ^^ k) f = f * 10 ^ k" for k
    by (induction k) simp_all
  then show ?thesis by (simp add: scale_fraction_def)
qed

lemma size_max_eq: "size_max = 2 ^ 64 - 1"
  by (simp add: size_max_def unsigned_minus_1_eq_mask mask_eq_exp_minus_1)

lemma strntoumax_decimal:
  assumes "cstr m p (ds @ rest)" "ds \<noteq> []" "\<forall>c \<in> set ds. digit_byte 10 c"
    "rest = [] \<or> \<not> digit_byte 10 (hd rest)" "length ds \<le> n"
  shows "strntoumax m p 10 n = Some (word_of_int (digits_value 10 ds), p + length ds)"
proof -
  have "nstr m p n (ds @ take (n - length ds) rest)"
    using nstr_cstr [OF assms(1), of n] assms(5) by simp
  moreover have "take (n - length ds) rest = [] \<or> \<not> digit_byte 10 (hd (take (n - length ds) rest))"
    using assms(4) by (cases rest; cases "n - length ds") auto
  ultimately show ?thesis
    using strntoumax_nstr umax_spec_decimal [OF assms(2,3)] by simp
qed

section \<open>Properties\<close>

text \<open>C31: \<open>strntoumax\<close> never faults on a string and never looks beyond its terminator or the first \<open>n\<close> bytes.
  It consumes optional white space, an optional sign, the prefix the base allows (\<^verbatim>\<open>0x\<close> in base 16, \<^verbatim>\<open>0x\<close> or
  \<^verbatim>\<open>0\<close> in base 0) and then the longest, possibly empty, sequence of digits of the base. It returns the
  value of that sequence modulo two to the 64th, negated after a minus sign, and the position behind
  everything consumed, also where no digit followed.\<close>

theorem strntoumax_reads:
  assumes "cstr m p xs"
  shows "\<exists>v rest. umax_spec base (take n xs) = (v, rest) \<and>
    strntoumax m p base n = Some (v, p + (length (take n xs) - length rest))"
  using strntoumax_nstr [OF nstr_cstr [OF assms]] by (cases "umax_spec base (take n xs)") auto

theorem strntoumax_reads_witness:
  "\<exists>v rest. umax_spec 0 (take 6 [32, 45, 48, 120, 49, 70, 33]) = (v, rest) \<and> v = - 31 \<and>
    strntoumax [7, 32, 45, 48, 120, 49, 70, 33, 0] 1 0 6 = Some (v, 7)"
proof -
  have "cstr [7, 32, 45, 48, 120, 49, 70, 33, 0] 1 [32, 45, 48, 120, 49, 70, 33]"
    by (simp add: cstr_simps)
  from strntoumax_reads [OF this, of 0 6] show ?thesis
    by (simp add: umax_spec_def split_sign_def split_base_def starts_0x_def space_byte_def digit_byte_digitval
      digitval_def digits_value_digitval)
qed

text \<open>\<open>strtotimeval\<close> and \<open>strtotimespec\<close> on seconds, a point and a fraction give the seconds and the
  fraction in units of ten to the minus sixth or ninth, truncated, and return a pointer behind the last digit.\<close>

theorem strtotimex_fraction:
  assumes "cstr m p (ds @ 46 # fs @ rest)" "ds \<noteq> []" "fs \<noteq> []"
    "\<forall>c \<in> set ds \<union> set fs. digit_byte 10 c" "rest = [] \<or> \<not> digit_byte 10 (hd rest)"
    "length ds < 2 ^ 64" "0 < decimals"
  shows "strtotimex decimals m p = Some (word_of_int (digits_value 10 ds),
    word_of_int (digits_value 10 (take decimals fs) * 10 ^ (decimals - length fs)),
    p + length ds + 1 + length fs)"
proof -
  have sec: "strntoumax m p 10 size_max = Some (word_of_int (digits_value 10 ds), p + length ds)"
    using assms by (intro strntoumax_decimal [of m p ds "46 # fs @ rest"]) (auto simp: digit10 size_max_eq)
  have s: "cstr m (p + length ds) (46 # fs @ rest)"
    using cstr_drop [OF assms(1), of "length ds"] by simp
  then have s0: "cstr m (p + length ds + 1) (fs @ rest)" and dot: "0 < p + length ds" "p + length ds < length m" "m ! (p + length ds) = 46"
    by (auto simp: cstr_Cons)
  let ?k = "min decimals (length fs)" and ?fs = "take decimals fs" and ?s0 = "p + length ds + 1"
  have "nstr m ?s0 decimals (?fs @ take (decimals - length fs) rest)"
    using nstr_cstr [OF s0, of decimals] by simp
  moreover have "take (decimals - length fs) rest = [] \<or> \<not> digit_byte 10 (hd (take (decimals - length fs) rest))"
    using assms(5) by (cases rest; cases "decimals - length fs") auto
  moreover have "\<forall>c \<in> set ?fs. digit_byte 10 c"
    using assms(4) by (auto dest: in_set_takeD)
  ultimately have frac: "strntoumax m ?s0 10 decimals = Some (word_of_int (digits_value 10 ?fs), ?s0 + ?k)"
    using strntoumax_nstr umax_spec_decimal [of ?fs] assms(3,7) by (simp add: min.commute)
  have "cstr m (?s0 + ?k) (drop ?k fs @ rest)"
    using cstr_drop [OF s0, of ?k] by simp
  then have "skip_digits m (?s0 + ?k) = Some (?s0 + ?k + length (drop ?k fs))"
    using assms(4,5) by (intro skip_digits_cstr) (auto dest: in_set_dropD)
  then show ?thesis
    using sec dot frac by (simp add: strtotimex_def scale_fraction_pow Let_def bind_rd_in min_def)
qed

theorem strtotimex_fraction_witness:
  "strtotimeval [7, 50, 46, 49, 53, 0] 1 = Some (2, 150000, 5)"
  using strtotimex_fraction [of "[7, 50, 46, 49, 53, 0]" 1 "[50]" "[49, 53]" "[]" 6]
  by (simp add: cstr_simps digit_byte_digitval digitval_def strtotimeval_def digits_value_digitval)

end
