(* ===== verification/Alloc.thy ===== *)
theory Alloc
  imports StrFuns
begin

text \<open>
  The configured allocator, \<^verbatim>\<open>malloc_impl_static\<close>, \<^verbatim>\<open>free\<close> and \<^verbatim>\<open>realloc_impl_static\<close> (\<^verbatim>\<open>libc/src/malloc.c\<close>,
  \<^verbatim>\<open>libc/src/realloc.c\<close>, selected by \<^verbatim>\<open>klibc/poet.h\<close>), and its clients \<^verbatim>\<open>zalloc\<close>, \<^verbatim>\<open>calloc\<close>, \<^verbatim>\<open>strdup\<close> and \<^verbatim>\<open>strndup\<close>.
  The state is the address of the static array \<^verbatim>\<open>heap\<close> and the counter \<^verbatim>\<open>heapcnt\<close>, a 32-bit word; sizes are
  64-bit words, and sums wrap around as in the code. A client takes the allocator it is linked with as
  an argument. The locale \<open>allocator\<close> is the contract a client relies on: a block that is returned is
  mapped, apart from everything in use, and in use afterwards.
\<close>

section \<open>Definitions\<close>

definition KLIBC_MALLOC_STATIC_SIZE :: "64 word" where
  "KLIBC_MALLOC_STATIC_SIZE = 64 * 1024 * 1024"

record sheap =
  heap :: addr
  heapcnt :: "32 word"

definition malloc_impl_static :: "sheap \<Rightarrow> 64 word \<Rightarrow> addr \<times> sheap" where
  "malloc_impl_static h sz =
     (if sz + ucast (heapcnt h) \<ge> KLIBC_MALLOC_STATIC_SIZE then (NULL, h)
      else let ptr = heap h + unat (heapcnt h);
               cnt = heapcnt h + ucast sz;
               cnt = (if cnt mod 16 \<noteq> 0 then cnt + (16 - cnt mod 16) else cnt)
           in (ptr, h\<lparr>heapcnt := cnt\<rparr>))"

definition malloc :: "sheap \<Rightarrow> 64 word \<Rightarrow> addr \<times> sheap" where
  "malloc = malloc_impl_static"

definition free :: "sheap \<Rightarrow> addr \<Rightarrow> sheap" where
  "free h ptr = h"

definition realloc_impl_static :: "mem \<Rightarrow> sheap \<Rightarrow> addr \<Rightarrow> 64 word \<Rightarrow> (addr \<times> mem \<times> sheap) option" where
  "realloc_impl_static m h ptr sz =
     (if ptr = NULL then let (p, h') = malloc h sz in Some (p, m, h')
      else let (ptr2, h') = malloc h sz in do {
        m' \<leftarrow> (if ptr2 \<noteq> NULL then do { (m', _) \<leftarrow> memcpy m ptr2 ptr (unat sz); Some m' } else Some m);
        Some (ptr2, m', free h' ptr)
      })"

definition realloc :: "mem \<Rightarrow> sheap \<Rightarrow> addr \<Rightarrow> 64 word \<Rightarrow> (addr \<times> mem \<times> sheap) option" where
  "realloc = realloc_impl_static"

subsection \<open>Clients\<close>

definition zalloc :: "('h \<Rightarrow> 64 word \<Rightarrow> addr \<times> 'h) \<Rightarrow> mem \<Rightarrow> 'h \<Rightarrow> 64 word \<Rightarrow> (addr \<times> mem \<times> 'h) option" where
  "zalloc mal m h sz = (let (ptr, h') = mal h sz in
     if ptr \<noteq> NULL then do { (m', _) \<leftarrow> memset m ptr 0 (unat sz); Some (ptr, m', h') }
     else Some (ptr, m, h'))"

definition calloc :: "('h \<Rightarrow> 64 word \<Rightarrow> addr \<times> 'h) \<Rightarrow> mem \<Rightarrow> 'h \<Rightarrow> 64 word \<Rightarrow> 64 word \<Rightarrow> (addr \<times> mem \<times> 'h) option" where
  "calloc mal m h nmemb sz = zalloc mal m h (nmemb * sz)"

text \<open>The length is an \<^verbatim>\<open>int\<close>; passed as a \<^verbatim>\<open>size_t\<close> it is sign-extended.\<close>

definition strdup :: "('h \<Rightarrow> 64 word \<Rightarrow> addr \<times> 'h) \<Rightarrow> mem \<Rightarrow> 'h \<Rightarrow> addr \<Rightarrow> (addr \<times> mem \<times> 'h) option" where
  "strdup mal m h s = do {
     n \<leftarrow> strlen m s;
     let l = (scast (word_of_nat (n + 1) :: 32 word) :: 64 word);
     let (d, h') = mal h l;
     if d \<noteq> NULL then do { (m', _) \<leftarrow> memcpy m d s (unat l); Some (d, m', h') }
     else Some (d, m, h')
   }"

definition strndup :: "('h \<Rightarrow> 64 word \<Rightarrow> addr \<times> 'h) \<Rightarrow> mem \<Rightarrow> 'h \<Rightarrow> addr \<Rightarrow> nat \<Rightarrow> (addr \<times> mem \<times> 'h) option" where
  "strndup mal m h s n = do {
     l \<leftarrow> strnlen m s n;
     let (d, h') = mal h (word_of_nat (l + 1));
     if d = NULL then Some (NULL, m, h')
     else do {
       (m', _) \<leftarrow> memcpy m d s l;
       m'' \<leftarrow> wr m' (d + l) 0;
       Some (d, m'', h')
     }
   }"

section \<open>The contract of an allocator\<close>

text \<open>\<open>used h\<close> is the set of addresses the allocator may not hand out (blocks in use and everything it does
  not manage), \<open>covers h m\<close> says that the memory \<open>m\<close> contains what the
  allocator manages, and \<open>ok h sz\<close> that a request does not overflow the size computation.\<close>

definition bytes_at :: "addr \<Rightarrow> nat \<Rightarrow> addr set" where
  "bytes_at p n = {p ..< p + n}"

definition frame :: "addr set \<Rightarrow> mem \<Rightarrow> mem \<Rightarrow> bool" where
  "frame U m m' \<longleftrightarrow> length m' = length m \<and> (\<forall>i \<in> U. m' ! i = m ! i)"

locale allocator =
  fixes mal :: "'h \<Rightarrow> 64 word \<Rightarrow> addr \<times> 'h"
    and inv :: "'h \<Rightarrow> bool"
    and covers :: "'h \<Rightarrow> mem \<Rightarrow> bool"
    and used :: "'h \<Rightarrow> addr set"
    and ok :: "'h \<Rightarrow> 64 word \<Rightarrow> bool"
  assumes mal_inv: "inv h \<Longrightarrow> ok h sz \<Longrightarrow> mal h sz = (p, h') \<Longrightarrow> inv h' \<and> used h \<subseteq> used h'"
    and mal_fresh: "inv h \<Longrightarrow> ok h sz \<Longrightarrow> mal h sz = (p, h') \<Longrightarrow> p \<noteq> NULL \<Longrightarrow>
      bytes_at p (unat sz) \<inter> used h = {} \<and> bytes_at p (unat sz) \<subseteq> used h'"
    and mal_mapped: "inv h \<Longrightarrow> ok h sz \<Longrightarrow> mal h sz = (p, h') \<Longrightarrow> p \<noteq> NULL \<Longrightarrow> covers h m \<Longrightarrow>
      mapped m p (unat sz)"
begin

lemma put_frame:
  assumes "inv h" "ok h sz" "mal h sz = (p, h')" "p \<noteq> NULL" "covers h m" "length xs = unat sz"
  shows "frame (used h) m (put m p xs)"
proof -
  have m: "mapped m p (length xs)" and d: "bytes_at p (length xs) \<inter> used h = {}"
    using mal_mapped [OF assms(1-5)] mal_fresh [OF assms(1-4)] assms(6) by auto
  show ?thesis
  proof (cases "xs = []")
    case True
    then show ?thesis by (simp add: frame_def)
  next
    case False
    with m have "p + length xs \<le> length m" by (simp add: mapped_def)
    with d show ?thesis
      by (auto simp: frame_def nth_put bytes_at_def)
  qed
qed

text \<open>\<open>zalloc\<close> returns null, or a fresh block of zeros; what was in use keeps its contents.\<close>

lemma zalloc_zeroed:
  assumes "inv h" "ok h sz" "covers h m"
  shows "\<exists>p m' h'. zalloc mal m h sz = Some (p, m', h') \<and> inv h' \<and> frame (used h) m m' \<and>
    (p \<noteq> NULL \<longrightarrow> block m' p (unat sz) = replicate (unat sz) 0 \<and>
      bytes_at p (unat sz) \<inter> used h = {} \<and> bytes_at p (unat sz) \<subseteq> used h')"
proof -
  obtain p h' where a: "mal h sz = (p, h')" by fastforce
  show ?thesis
  proof (cases "p = NULL")
    case True
    then show ?thesis
      using a mal_inv [OF assms(1,2) a] by (simp add: zalloc_def frame_def)
  next
    case False
    have m: "mapped m p (unat sz)" by (rule mal_mapped [OF assms(1,2) a False assms(3)])
    let ?m = "put m p (replicate (unat sz) 0)"
    have "memset m p 0 (unat sz) = Some (?m, p)"
      using memset_put [OF m] by simp
    moreover have "block ?m p (unat sz) = replicate (unat sz) 0"
      using block_put_same [of p "replicate (unat sz) 0" m] m
      by (cases "unat sz = 0") (auto simp: mapped_def)
    moreover have "frame (used h) m ?m"
      using put_frame [OF assms(1,2) a False assms(3)] by simp
    ultimately show ?thesis
      using a False mal_inv [OF assms(1,2) a] mal_fresh [OF assms(1,2) a False] by (simp add: zalloc_def)
  qed
qed

text \<open>Copying a string that the allocator may not hand out into a fresh block.\<close>

lemma copy_fresh:
  assumes "inv h" "ok h sz" "covers h m" "mal h sz = (p, h')" "p \<noteq> NULL"
    "mapped m s n" "bytes_at s n \<subseteq> used h" "n \<le> unat sz"
  shows "memcpy m p s n = Some (put m p (block m s n), p) \<and> mapped m p (unat sz) \<and>
    bytes_at p (unat sz) \<inter> used h = {}"
proof -
  have m: "mapped m p (unat sz)" by (rule mal_mapped [OF assms(1,2,4,5,3)])
  have f: "bytes_at p (unat sz) \<inter> used h = {}" using mal_fresh [OF assms(1,2,4,5)] by simp
  have "bytes_at p n \<inter> bytes_at s n = {}"
    using f assms(7,8) by (fastforce simp: bytes_at_def)
  then have "disjoint_ranges p n s n \<or> n = 0"
    by (auto simp: bytes_at_def disjoint_ranges_def)
  then have "memcpy m p s n = Some (put m p (block m s n), p)"
    using m assms(6,8) by (intro cpy.copy_put) (auto intro: mapped_mono simp: disjoint_ranges_def)
  with m f show ?thesis by simp
qed

lemma strdup_copies:
  assumes "inv h" "ok h (word_of_nat (Suc (length xs)))" "covers h m" "cstr m s xs"
    "bytes_at s (Suc (length xs)) \<subseteq> used h" "Suc (length xs) < 2 ^ 31"
  shows "\<exists>p m' h'. strdup mal m h s = Some (p, m', h') \<and> inv h' \<and> frame (used h) m m' \<and>
    (p \<noteq> NULL \<longrightarrow> cstr m' p xs \<and> bytes_at p (Suc (length xs)) \<inter> used h = {} \<and>
      bytes_at p (Suc (length xs)) \<subseteq> used h')"
proof -
  let ?l = "word_of_nat (Suc (length xs)) :: 64 word"
  have l: "scast (word_of_nat (length xs + 1) :: 32 word) = ?l"
    using scast_of_nat [of "length xs + 1"] assms(6) by (simp del: of_nat_Suc of_nat_add)
  have ul: "unat ?l = Suc (length xs)"
    using unat_of_nat64 [of "Suc (length xs)"] assms(6) by (simp del: of_nat_Suc)
  obtain p h' where a: "mal h ?l = (p, h')" by fastforce
  show ?thesis
  proof (cases "p = NULL")
    case True
    then show ?thesis
      using a l strlen_cstr [OF assms(4)] mal_inv [OF assms(1,2) a]
      by (simp add: strdup_def frame_def del: of_nat_Suc)
  next
    case False
    have c: "memcpy m p s (Suc (length xs)) = Some (put m p (xs @ [0]), p)" "mapped m p (Suc (length xs))"
      using copy_fresh [OF assms(1,2,3) a False cstr_mapped [OF assms(4)] assms(5)] ul cstr_block [OF assms(4)]
      by auto
    have "cstr (put m p (xs @ [0])) p xs"
      using c(2) assms(4) by (intro cstr_put) (auto simp: mapped_def cstr_def)
    moreover have "frame (used h) m (put m p (xs @ [0]))"
      using put_frame [OF assms(1,2) a False assms(3)] ul by simp
    ultimately show ?thesis
      using a l ul c False strlen_cstr [OF assms(4)] mal_inv [OF assms(1,2) a] mal_fresh [OF assms(1,2) a False]
      by (simp add: strdup_def del: of_nat_Suc)
  qed
qed

lemma strndup_copies:
  assumes "inv h" "ok h (word_of_nat (Suc (min n (length xs))))" "covers h m" "cstr m s xs"
    "bytes_at s (Suc (length xs)) \<subseteq> used h" "Suc (min n (length xs)) < 2 ^ 64"
  shows "\<exists>p m' h'. strndup mal m h s n = Some (p, m', h') \<and> inv h' \<and> frame (used h) m m' \<and>
    (p \<noteq> NULL \<longrightarrow> cstr m' p (take n xs) \<and> bytes_at p (Suc (min n (length xs))) \<inter> used h = {} \<and>
      bytes_at p (Suc (min n (length xs))) \<subseteq> used h')"
proof -
  let ?k = "min n (length xs)"
  let ?l = "word_of_nat (Suc ?k) :: 64 word"
  have ul: "unat ?l = Suc ?k"
    by (rule unat_of_nat64 [OF assms(6)])
  obtain p h' where a: "mal h ?l = (p, h')" by fastforce
  show ?thesis
  proof (cases "p = NULL")
    case True
    then show ?thesis
      using a strnlen_cstr [OF assms(4)] mal_inv [OF assms(1,2) a]
      by (simp add: strndup_def frame_def del: of_nat_Suc)
  next
    case False
    have s: "mapped m s ?k" "bytes_at s ?k \<subseteq> used h"
      using cstr_mapped [OF assms(4)] assms(5) by (auto intro: mapped_mono simp: bytes_at_def subset_iff)
    have "block m s ?k = take n xs"
      using cstr_block_take [OF assms(4), of ?k] by (simp add: min_def)
    then have c: "memcpy m p s ?k = Some (put m p (take n xs), p)" "mapped m p (Suc ?k)"
      using copy_fresh [OF assms(1,2,3) a False s] ul by auto
    then have t: "0 < p" "p + length (take n xs) < length m"
      by (auto simp: mapped_def min.commute)
    then have w: "wr (put m p (take n xs)) (p + ?k) 0 = Some (put m p (take n xs @ [0]))"
      using put_update [of p "take n xs" m 0] by (simp add: wr_in min.commute)
    have "cstr (put m p (take n xs @ [0])) p (take n xs)"
      using t assms(4) by (intro cstr_put) (auto simp: cstr_def dest: in_set_takeD)
    moreover have "frame (used h) m (put m p (take n xs @ [0]))"
      using put_frame [OF assms(1,2) a False assms(3)] ul by (simp add: min.commute)
    ultimately show ?thesis
      using a ul c w False strnlen_cstr [OF assms(4)] mal_inv [OF assms(1,2) a] mal_fresh [OF assms(1,2) a False]
      by (simp add: strndup_def mem_simps del: of_nat_Suc)
  qed
qed

end

section \<open>The static allocator provides the contract\<close>

definition static_inv :: "sheap \<Rightarrow> bool" where
  "static_inv h \<longleftrightarrow> heap h \<noteq> NULL \<and> unat (heapcnt h) \<le> 2 ^ 26 \<and> 16 dvd unat (heapcnt h)"

definition static_covers :: "sheap \<Rightarrow> mem \<Rightarrow> bool" where
  "static_covers h m \<longleftrightarrow> heap h + 2 ^ 26 \<le> length m"

definition static_used :: "sheap \<Rightarrow> addr set" where
  "static_used h = - {heap h + unat (heapcnt h) ..< heap h + 2 ^ 26}"

definition static_ok :: "sheap \<Rightarrow> 64 word \<Rightarrow> bool" where
  "static_ok h sz \<longleftrightarrow> unat sz + 2 ^ 26 < 2 ^ 64"

definition round16 :: "nat \<Rightarrow> nat" where
  "round16 n = (n + 15) div 16 * 16"

lemma round16_bounds: "n \<le> round16 n" "round16 n < n + 16" "16 dvd round16 n"
  by (auto simp: round16_def)

lemma round16_eq: "round16 n = (if n mod 16 \<noteq> 0 then n + (16 - n mod 16) else n)"
proof -
  define q r where "q = n div 16" and "r = n mod 16"
  then have n: "n = 16 * q + r" "r < 16" by simp_all
  have "(16 * q + r + 15) div 16 = q + (if r = 0 then 0 else 1)"
    using n(2) by (intro div_nat_eqI) auto
  then show ?thesis
    using n by (simp add: round16_def r_def [symmetric])
qed

lemma round16_word:
  fixes w :: "32 word"
  assumes "unat w < 2 ^ 26"
  shows "unat (if w mod 16 \<noteq> 0 then w + (16 - w mod 16) else w) = round16 (unat w)"
proof -
  have m: "unat (w mod 16) = unat w mod 16"
    by (simp add: unat_mod)
  have "w mod 16 \<le> 16"
    by (simp add: word_le_nat_alt m)
  then have "unat (16 - w mod 16) = 16 - unat w mod 16"
    by (simp add: unat_sub m)
  then have "unat (w + (16 - w mod 16)) = unat w + (16 - unat w mod 16)"
    using assms by (simp add: unat_word_ariths)
  moreover have "w mod 16 = 0 \<longleftrightarrow> unat w mod 16 = 0"
    using unat_eq_iff [of "w mod 16" 0] by (simp add: m)
  ultimately show ?thesis
    unfolding round16_eq by simp
qed

lemma malloc_static_eq:
  assumes "static_inv h" "static_ok h sz"
  shows "if unat sz + unat (heapcnt h) \<ge> 2 ^ 26 then malloc_impl_static h sz = (NULL, h)
    else \<exists>c. malloc_impl_static h sz = (heap h + unat (heapcnt h), h\<lparr>heapcnt := c\<rparr>) \<and>
      unat c = round16 (unat (heapcnt h) + unat sz)"
proof -
  let ?c = "unat (heapcnt h)"
  have "unat (ucast (heapcnt h) :: 64 word) = ?c"
    using unsigned_less [of "heapcnt h", where ?'a = nat] by (simp add: unsigned_ucast_eq take_bit_nat_eq_self)
  then have s: "unat (sz + ucast (heapcnt h)) = unat sz + ?c"
    using assms by (simp add: unat_word_ariths static_inv_def static_ok_def)
  have b: "KLIBC_MALLOC_STATIC_SIZE \<le> sz + ucast (heapcnt h) \<longleftrightarrow> 2 ^ 26 \<le> unat sz + ?c"
    by (simp add: word_le_nat_alt s KLIBC_MALLOC_STATIC_SIZE_def)
  show ?thesis
  proof (cases "2 ^ 26 \<le> unat sz + ?c")
    case True
    with b show ?thesis by (simp add: malloc_impl_static_def)
  next
    case False
    then have u: "unat (ucast sz :: 32 word) = unat sz"
      by (simp add: unsigned_ucast_eq take_bit_nat_eq_self)
    then have c: "unat (heapcnt h + ucast sz) = ?c + unat sz"
      using False by (simp add: unat_word_ariths)
    then show ?thesis
      using False b round16_word [of "heapcnt h + ucast sz"]
      by (cases "(heapcnt h + ucast sz) mod 16 = 0") (auto simp: malloc_impl_static_def Let_def)
  qed
qed

lemma static_contract:
  assumes "static_inv h" "static_ok h sz" "malloc_impl_static h sz = (p, h')"
  shows "static_inv h' \<and> static_used h \<subseteq> static_used h' \<and> heap h' = heap h \<and>
      unat (heapcnt h) \<le> unat (heapcnt h')"
    "p \<noteq> NULL \<Longrightarrow> p = heap h + unat (heapcnt h) \<and> unat (heapcnt h) + unat sz \<le> unat (heapcnt h') \<and>
      unat (heapcnt h) + unat sz < 2 ^ 26"
proof -
  have r: "round16 n \<le> 2 ^ 26" if "n < 2 ^ 26" for n
    using that unfolding round16_def by simp
  show "static_inv h' \<and> static_used h \<subseteq> static_used h' \<and> heap h' = heap h \<and>
      unat (heapcnt h) \<le> unat (heapcnt h')"
    using malloc_static_eq [OF assms(1,2)] assms(1,3) r [of "unat (heapcnt h) + unat sz"]
      round16_bounds [of "unat (heapcnt h) + unat sz"]
    by (auto simp: static_inv_def static_used_def split: if_splits)
  show "p = heap h + unat (heapcnt h) \<and> unat (heapcnt h) + unat sz \<le> unat (heapcnt h') \<and>
      unat (heapcnt h) + unat sz < 2 ^ 26" if "p \<noteq> NULL"
    using malloc_static_eq [OF assms(1,2)] assms(3) that round16_bounds(1) [of "unat (heapcnt h) + unat sz"]
    by (auto split: if_splits)
qed

interpretation sta: allocator malloc static_inv static_covers static_used static_ok
proof
  fix h sz p h' and m :: mem
  assume a: "static_inv h" "static_ok h sz" "malloc h sz = (p, h')"
  note c = static_contract [OF a(1,2), of p h'] a(3) [unfolded malloc_def]
  show "static_inv h' \<and> static_used h \<subseteq> static_used h'"
    using c by simp
  assume p: "p \<noteq> NULL"
  show "bytes_at p (unat sz) \<inter> static_used h = {} \<and> bytes_at p (unat sz) \<subseteq> static_used h'"
    using c p by (auto simp: bytes_at_def static_used_def)
  assume "static_covers h m"
  then show "mapped m p (unat sz)"
    using c p by (auto simp: mapped_def static_covers_def)
qed

section \<open>Copies that may overlap\<close>

text \<open>\<^verbatim>\<open>realloc_impl_static\<close> copies \<open>size\<close> bytes whatever the size of the old block, so that the source range may
  run into the new block. Such a copy still writes only its destination, and gets right what lies in
  front of the destination.\<close>

lemma memcpy_loop_frame:
  assumes "mapped m q n" "mapped m p n"
  shows "\<exists>m'. memcpy_loop m q p n = Some m' \<and> length m' = length m \<and> (\<forall>i. i < q \<or> q + n \<le> i \<longrightarrow> m' ! i = m ! i)"
  using assms
proof (induction n arbitrary: m q p)
  case (Suc n)
  then have "mapped (m[q := m ! p]) (q + 1) n" "mapped (m[q := m ! p]) (p + 1) n"
    by (auto simp: mapped_def)
  from Suc.IH [OF this] Suc.prems show ?case
    by (auto simp: mem_simps mapped_Suc)
qed simp

lemma memcpy_loop_add:
  "memcpy_loop m q p (k + j) = do { m' \<leftarrow> memcpy_loop m q p k; memcpy_loop m' (q + k) (p + k) j }"
proof (induction k arbitrary: m q p)
  case (Suc k)
  show ?case
    by (simp add: Suc.IH split: bind_splits)
qed simp

lemma memcpy_prefix:
  assumes "mapped m q n" "mapped m p n" "k \<le> n" "p + k \<le> q"
  shows "\<exists>m'. memcpy m q p n = Some (m', q) \<and> length m' = length m \<and> block m' q k = block m p k \<and>
    (\<forall>i. i < q \<or> q + n \<le> i \<longrightarrow> m' ! i = m ! i)"
proof (cases "n = 0")
  case True
  with assms show ?thesis by (simp add: memcpy_def)
next
  case False
  then have b: "0 < p" "p + n \<le> length m" "q + n \<le> length m"
    using assms by (auto simp: mapped_def)
  let ?m = "put m q (block m p k)"
  have 1: "memcpy_loop m q p k = Some ?m"
    using assms by (intro memcpy_loop_put) (auto intro: mapped_mono)
  have len: "length ?m = length m" using b assms(3) by simp
  obtain m' where m': "memcpy_loop ?m (q + k) (p + k) (n - k) = Some m'" "length m' = length ?m"
    "\<forall>i. i < q + k \<or> q + k + (n - k) \<le> i \<longrightarrow> m' ! i = ?m ! i"
    using memcpy_loop_frame [of ?m "q + k" "n - k" "p + k"] assms b len by (auto simp: mapped_def)
  have "memcpy m q p n = Some (m', q)"
    using memcpy_loop_add [of m q p k "n - k"] 1 m'(1) assms(3) by (simp add: memcpy_def)
  moreover have "block m' q k = block m p k"
    using m'(2,3) b assms(3) by (intro block_eqI) (auto simp: nth_put)
  moreover have "m' ! i = m ! i" if "i < q \<or> q + n \<le> i" for i
    using that m'(3) b assms(3) by (auto simp: nth_put)
  ultimately show ?thesis
    using m'(2) len by auto
qed

section \<open>Properties\<close>

text \<open>The results of a sequence of calls of \<open>malloc\<close>: pointer and requested size of each.\<close>

fun mallocs :: "sheap \<Rightarrow> 64 word list \<Rightarrow> (addr \<times> nat) list" where
  "mallocs h [] = []"
| "mallocs h (sz # szs) = (let (p, h') = malloc h sz in (p, unat sz) # mallocs h' szs)"

lemma mallocs_ordered:
  assumes "static_inv h" "\<forall>sz \<in> set szs. static_ok h sz"
  shows "sorted_wrt (\<lambda>(p, n) (q, k). p + n \<le> q) (filter (\<lambda>(p, n). p \<noteq> NULL) (mallocs h szs)) \<and>
    (\<forall>(p, n) \<in> set (mallocs h szs). p \<noteq> NULL \<longrightarrow>
      heap h + unat (heapcnt h) \<le> p \<and> p + n < heap h + 2 ^ 26 \<and> 16 dvd (p - heap h))"
  using assms
proof (induction szs arbitrary: h)
  case (Cons sz szs)
  obtain p h' where a: "malloc h sz = (p, h')" by fastforce
  note c = static_contract [of h sz p h', folded malloc_def, OF _ _ a]
  have ok: "static_ok h sz" "\<forall>sz \<in> set szs. static_ok h' sz"
    using Cons.prems(2) by (auto simp: static_ok_def)
  have h': "static_inv h'" "heap h' = heap h" "unat (heapcnt h) \<le> unat (heapcnt h')"
    using c(1) [OF Cons.prems(1) ok(1)] by simp_all
  have IH1: "sorted_wrt (\<lambda>(p, n) (q, k). p + n \<le> q) (filter (\<lambda>(p, n). p \<noteq> NULL) (mallocs h' szs))"
    and IH2: "\<And>q k. (q, k) \<in> set (mallocs h' szs) \<Longrightarrow> q \<noteq> NULL \<Longrightarrow>
      heap h + unat (heapcnt h') \<le> q \<and> q + k < heap h + 2 ^ 26 \<and> 16 dvd (q - heap h)"
    using Cons.IH [OF h'(1) ok(2)] unfolding h'(2) by fast+
  have later: "(q, k) \<in> set (mallocs h' szs) \<Longrightarrow> q \<noteq> NULL \<Longrightarrow>
      heap h + unat (heapcnt h) \<le> q \<and> q + k < heap h + 2 ^ 26 \<and> 16 dvd (q - heap h)" for q k
    using IH2 [of q k] h'(3) by linarith
  show ?case
  proof (cases "p = NULL")
    case True
    then show ?thesis using IH1 later a by auto
  next
    case False
    then have "p = heap h + unat (heapcnt h)" "unat (heapcnt h) + unat sz \<le> unat (heapcnt h')"
      "unat (heapcnt h) + unat sz < 2 ^ 26"
      using c(2) Cons.prems(1) ok(1) by auto
    moreover have "16 dvd unat (heapcnt h)"
      using Cons.prems(1) by (simp add: static_inv_def)
    moreover have "p + unat sz \<le> q" if "(q, k) \<in> set (mallocs h' szs)" "q \<noteq> NULL" for q k
      using IH2 [OF that] calculation(1,2) by linarith
    ultimately show ?thesis
      using IH1 later a False by auto
  qed
qed simp

lemma round16_add: "16 dvd k \<Longrightarrow> round16 (k + n) = k + round16 n"
  using div_mult_self4 [of 16 "k div 16" "n + 15"] by (auto simp: round16_def add.assoc elim!: dvdE)

lemma mallocs_succeed:
  assumes "static_inv h" "unat (heapcnt h) + sum_list (map (\<lambda>sz. round16 (unat sz)) szs) < 2 ^ 26"
  shows "\<forall>(p, n) \<in> set (mallocs h szs). p \<noteq> NULL"
  using assms
proof (induction szs arbitrary: h)
  case (Cons sz szs)
  have b: "unat (heapcnt h) + unat sz < 2 ^ 26"
    using Cons.prems(2) round16_bounds(1) [of "unat sz"] by simp
  then have ok: "static_ok h sz" by (simp add: static_ok_def)
  obtain c where c: "malloc h sz = (heap h + unat (heapcnt h), h\<lparr>heapcnt := c\<rparr>)" "unat c = round16 (unat (heapcnt h) + unat sz)"
    using malloc_static_eq [OF Cons.prems(1) ok] b by (auto simp: malloc_def)
  have i: "static_inv (h\<lparr>heapcnt := c\<rparr>)"
    using static_contract(1) [OF Cons.prems(1) ok] c(1) by (simp add: malloc_def)
  have "round16 (unat (heapcnt h) + unat sz) = unat (heapcnt h) + round16 (unat sz)"
    using Cons.prems(1) by (intro round16_add) (simp add: static_inv_def)
  then have "\<forall>(p, n) \<in> set (mallocs (h\<lparr>heapcnt := c\<rparr>) szs). p \<noteq> NULL"
    using Cons.prems(2) c(2) by (intro Cons.IH [OF i]) simp
  then show ?case using c(1) Cons.prems(1) by (simp add: static_inv_def)
qed simp

text \<open>C34: for any sequence of requests that stay 64 MiB below \<open>2 ^ 64\<close>, so that the size computation does not overflow,
  the static allocator returns null or blocks that lie inside the 64 MiB array, start at a multiple of 16 from the start
  of the array, and are pairwise disjoint in the order of the calls; as long as the sizes rounded up to 16 leave room in
  the array no request fails. A request closer to \<open>2 ^ 64\<close> breaks this, see \<open>malloc_static_wraps\<close>.\<close>

theorem malloc_static_disjoint:
  assumes "static_inv h" "\<forall>sz \<in> set szs. static_ok h sz"
  shows "sorted_wrt (\<lambda>(p, n) (q, k). p + n \<le> q) (filter (\<lambda>(p, n). p \<noteq> NULL) (mallocs h szs)) \<and>
    (\<forall>(p, n) \<in> set (mallocs h szs). p \<noteq> NULL \<longrightarrow>
      heap h \<le> p \<and> p + n < heap h + 2 ^ 26 \<and> 16 dvd (p - heap h)) \<and>
    (unat (heapcnt h) + sum_list (map (\<lambda>sz. round16 (unat sz)) szs) < 2 ^ 26 \<longrightarrow>
      (\<forall>(p, n) \<in> set (mallocs h szs). p \<noteq> NULL))"
  using mallocs_ordered [OF assms] mallocs_succeed [OF assms(1), of szs] by fastforce

theorem malloc_static_disjoint_witness:
  "mallocs \<lparr>heap = 64, heapcnt = 0\<rparr> [5, 100000000, 16, 1] = [(64, 5), (NULL, 100000000), (80, 16), (96, 1)] \<and>
   sorted_wrt (\<lambda>(p, n) (q, k). p + n \<le> q) [(64 :: nat, 5 :: nat), (80, 16), (96, 1)]"
proof -
  have e: "mallocs \<lparr>heap = 64, heapcnt = 0\<rparr> [5, 100000000, 16, 1] =
      [(64, 5), (NULL, 100000000), (80, 16), (96, 1)]"
    by (simp add: malloc_def malloc_impl_static_def KLIBC_MALLOC_STATIC_SIZE_def Let_def)
  show ?thesis
    using malloc_static_disjoint [of "\<lparr>heap = 64, heapcnt = 0\<rparr>" "[5, 100000000, 16, 1]"]
    unfolding e by (simp add: static_inv_def static_ok_def)
qed

text \<open>A request close to the largest size wraps around in the test of \<^verbatim>\<open>malloc_impl_static\<close>: after one block
  of 8 bytes, \<^verbatim>\<open>malloc(-16)\<close> succeeds and resets the counter, so that the next block is the first one again.\<close>

theorem malloc_static_wraps:
  "let (p1, h1) = malloc \<lparr>heap = b, heapcnt = 0\<rparr> 8;
       (p2, h2) = malloc h1 (- 16);
       (p3, h3) = malloc h2 8
   in p1 = b \<and> p2 = b + 16 \<and> p3 = p1"
proof -
  have c: "KLIBC_MALLOC_STATIC_SIZE \<le> 8 + ucast (0 :: 32 word) \<longleftrightarrow> False"
    "KLIBC_MALLOC_STATIC_SIZE \<le> - 16 + ucast (16 :: 32 word) \<longleftrightarrow> False"
    "0 + ucast (8 :: 64 word) = (8 :: 32 word)" "16 + ucast (- 16 :: 64 word) = (0 :: 32 word)"
    "(8 :: 32 word) mod 16 = 8" "(0 :: 32 word) mod 16 = 0" "(8 :: 32 word) + (16 - 8) = 16" "(8 :: 32 word) \<noteq> 0" "unat (16 :: 32 word) = 16"
    by (code_simp)+
  show ?thesis
    by (simp only: malloc_def malloc_impl_static_def c Let_def sheap.simps split_conv if_False if_True simp_thms unat_0 add_0_right)
qed

text \<open>\<open>calloc\<close> with a product that does not overflow returns null or a fresh block of \<open>nmemb * size\<close>
  zero bytes, and leaves every byte the allocator may not hand out unchanged.\<close>

theorem calloc_zeroed:
  assumes "static_inv h" "static_covers h m" "unat nmemb * unat sz + 2 ^ 26 < 2 ^ 64"
  shows "\<exists>p m' h'. calloc malloc m h nmemb sz = Some (p, m', h') \<and> static_inv h' \<and> frame (static_used h) m m' \<and>
    (p \<noteq> NULL \<longrightarrow> block m' p (unat nmemb * unat sz) = replicate (unat nmemb * unat sz) 0 \<and>
      bytes_at p (unat nmemb * unat sz) \<inter> static_used h = {} \<and> bytes_at p (unat nmemb * unat sz) \<subseteq> static_used h')"
proof -
  have "unat (nmemb * sz) = unat nmemb * unat sz"
    using assms(3) by (simp add: unat_word_ariths)
  then show ?thesis
    using sta.zalloc_zeroed [OF assms(1) _ assms(2), of "nmemb * sz"] assms(3)
    by (simp add: calloc_def static_ok_def)
qed

theorem calloc_zeroed_witness:
  "\<exists>m'. calloc malloc (replicate (2 ^ 27) 1) \<lparr>heap = 16, heapcnt = 32\<rparr> 2 3 =
      Some (48, m', \<lparr>heap = 16, heapcnt = 48\<rparr>) \<and> block m' 48 6 = replicate 6 0"
proof -
  let ?h = "\<lparr>heap = 16, heapcnt = 32\<rparr>"
  define M where "M = (replicate (2 ^ 27) 1 :: mem)"
  have "length M = 2 ^ 27" by (simp add: M_def)
  then have c: "static_covers ?h M" by (simp add: static_covers_def)
  have i: "static_inv ?h" by (simp add: static_inv_def)
  have "malloc ?h 6 = (48, \<lparr>heap = 16, heapcnt = 48\<rparr>)"
    by (simp add: malloc_def malloc_impl_static_def KLIBC_MALLOC_STATIC_SIZE_def Let_def)
  then have e: "calloc malloc M ?h 2 3 = Some (p, m', h') \<Longrightarrow> p = 48 \<and> h' = \<lparr>heap = 16, heapcnt = 48\<rparr>" for p m' h'
    by (auto simp: calloc_def zalloc_def split: bind_splits)
  show ?thesis
    using calloc_zeroed [OF i c, of 2 3] e unfolding M_def [symmetric] by fastforce
qed

text \<open>\<open>strdup\<close> and \<open>strndup\<close> return null or a fresh copy of the string, cut to \<open>n\<close> bytes by \<open>strndup\<close>,
  always terminated; every byte the allocator may not hand out is unchanged.\<close>

theorem strdup_strndup_copy:
  assumes "static_inv h" "static_covers h m" "cstr m s xs" "bytes_at s (Suc (length xs)) \<subseteq> static_used h"
    "Suc (length xs) < 2 ^ 31"
  shows "(\<exists>p m' h'. strdup malloc m h s = Some (p, m', h') \<and> static_inv h' \<and> frame (static_used h) m m' \<and>
      (p \<noteq> NULL \<longrightarrow> cstr m' p xs \<and> bytes_at p (Suc (length xs)) \<inter> static_used h = {})) \<and>
    (\<exists>p m' h'. strndup malloc m h s n = Some (p, m', h') \<and> static_inv h' \<and> frame (static_used h) m m' \<and>
      (p \<noteq> NULL \<longrightarrow> cstr m' p (take n xs) \<and> bytes_at p (Suc (min n (length xs))) \<inter> static_used h = {}))"
proof -
  have b: "Suc (length xs) < 2 ^ 64" "Suc (min n (length xs)) < 2 ^ 64"
    using assms(5) by auto
  have ok: "static_ok h (word_of_nat (Suc (length xs)))" "static_ok h (word_of_nat (Suc (min n (length xs))))"
    using assms(5) unat_of_nat64 [OF b(1)] unat_of_nat64 [OF b(2)] by (simp_all add: static_ok_def del: of_nat_Suc)
  show ?thesis
    using sta.strdup_copies [OF assms(1) ok(1) assms(2,3,4,5)]
      sta.strndup_copies [OF assms(1) ok(2) assms(2,3,4) b(2)] by blast
qed

theorem strdup_strndup_copy_witness:
  "(\<exists>p m' h'. strdup malloc ([7, 97, 98, 0] @ replicate (2 ^ 27) 1) \<lparr>heap = 16, heapcnt = 0\<rparr> 1 = Some (p, m', h') \<and>
      (p \<noteq> NULL \<longrightarrow> cstr m' p [97, 98])) \<and>
   (\<exists>p m' h'. strndup malloc ([7, 97, 98, 0] @ replicate (2 ^ 27) 1) \<lparr>heap = 16, heapcnt = 0\<rparr> 1 1 = Some (p, m', h') \<and>
      (p \<noteq> NULL \<longrightarrow> cstr m' p [97]))"
proof -
  let ?h = "\<lparr>heap = 16, heapcnt = 0\<rparr>"
  define M where "M = (replicate (2 ^ 27) 1 :: mem)"
  let ?m = "[7, 97, 98, 0] @ M"
  have "length M = 2 ^ 27" by (simp add: M_def)
  then have a: "static_inv ?h" "static_covers ?h ?m" "bytes_at 1 (Suc (length [97, 98 :: byte])) \<subseteq> static_used ?h"
    by (auto simp: static_inv_def static_covers_def bytes_at_def static_used_def)
  have "cstr ?m 1 [97, 98]"
    by (simp add: cstr_simps)
  from strdup_strndup_copy [OF a(1,2) this a(3), of 1] show ?thesis
    unfolding M_def [symmetric] by fastforce
qed

text \<open>\<open>realloc\<close> of a block of \<open>k\<close> bytes never faults, although it reads \<open>size\<close> bytes whatever the size of the old
  block: the reads stay inside the array. It returns null, or a fresh block whose first \<open>min k size\<close> bytes
  are those of the old block, and changes nothing else that is in use.\<close>

theorem realloc_keeps_contents:
  assumes "static_inv h" "static_covers h m" "static_ok h sz" "heap h \<le> ptr" "ptr + k \<le> heap h + unat (heapcnt h)"
  shows "\<exists>p m' h'. realloc m h ptr sz = Some (p, m', h') \<and> static_inv h' \<and> frame (static_used h) m m' \<and>
    (p \<noteq> NULL \<longrightarrow> block m' p (min k (unat sz)) = block m ptr (min k (unat sz)) \<and>
      bytes_at p (unat sz) \<inter> static_used h = {})"
proof -
  obtain p h' where a: "malloc h sz = (p, h')" by fastforce
  note c = static_contract [OF assms(1,3) a [unfolded malloc_def]]
  have n: "ptr \<noteq> NULL"
    using assms(1,4) by (auto simp: static_inv_def)
  show ?thesis
  proof (cases "p = NULL")
    case True
    then show ?thesis
      using a n c by (simp add: realloc_def realloc_impl_static_def free_def frame_def)
  next
    case False
    then have p: "p = heap h + unat (heapcnt h)" "unat (heapcnt h) + unat sz < 2 ^ 26"
      using c(2) by auto
    have le: "ptr + min k (unat sz) \<le> p"
      using p(1) assms(5) by simp
    have "mapped m p (unat sz)" "mapped m ptr (unat sz)"
      using p False n assms(2,4,5) by (auto simp: mapped_def static_covers_def)
    then obtain m' where m': "memcpy m p ptr (unat sz) = Some (m', p)" "length m' = length m"
      "block m' p (min k (unat sz)) = block m ptr (min k (unat sz))"
      "\<forall>i. i < p \<or> p + unat sz \<le> i \<longrightarrow> m' ! i = m ! i"
      using memcpy_prefix [OF _ _ min.cobounded2 le] by blast
    have d: "bytes_at p (unat sz) \<inter> static_used h = {}"
      using p by (auto simp: bytes_at_def static_used_def)
    have "i < p \<or> p + unat sz \<le> i" if "i \<in> static_used h" for i
      using d that disjoint_iff [of "bytes_at p (unat sz)" "static_used h"] by (auto simp: bytes_at_def)
    then have "frame (static_used h) m m'"
      using m'(2,4) unfolding frame_def by blast
    with d show ?thesis
      using a n c(1) m' False by (simp add: realloc_def realloc_impl_static_def free_def)
  qed
qed

theorem realloc_keeps_contents_witness:
  "\<exists>p m' h'. realloc (replicate 20 7 @ replicate (2 ^ 27) 1) \<lparr>heap = 16, heapcnt = 16\<rparr> 16 40 = Some (p, m', h') \<and>
    (p \<noteq> NULL \<longrightarrow> block m' p 4 = [7, 7, 7, 7])"
proof -
  let ?h = "\<lparr>heap = 16, heapcnt = 16\<rparr>"
  define M where "M = (replicate (2 ^ 27) 1 :: mem)"
  let ?m = "replicate 20 7 @ M"
  have "length M = 2 ^ 27" by (simp add: M_def)
  then have a: "static_inv ?h" "static_covers ?h ?m" "static_ok ?h 40"
    by (simp_all add: static_inv_def static_covers_def static_ok_def)
  have "replicate 4 (7 :: byte) = [7, 7, 7, 7]" by code_simp
  then have "block ?m 16 4 = [7, 7, 7, 7]"
    by (simp add: block_def)
  then show ?thesis
    using realloc_keeps_contents [OF a, of 16 4] unfolding M_def [symmetric] by fastforce
qed

end
