(* ===== verification/ChainRing.thy ===== *)
theory ChainRing
  imports Main
begin

text \<open>
  Circular doubly linked lists with a head node, as the allocator uses them: \<open>ring nx pv h xs\<close> says that from
  the head \<open>h\<close> the successor function visits exactly \<open>xs\<close> and returns to \<open>h\<close>, that the predecessor function
  is its inverse there, and that all nodes are distinct. Insertion, removal and replacement of a node are
  the pointer assignments of the code.
\<close>

definition ring :: "('a \<Rightarrow> 'a) \<Rightarrow> ('a \<Rightarrow> 'a) \<Rightarrow> 'a \<Rightarrow> 'a list \<Rightarrow> bool" where
  "ring nx pv h xs \<longleftrightarrow> distinct (h # xs) \<and> successively (\<lambda>a b. nx a = b \<and> pv b = a) (h # xs @ [h])"

text \<open>The node before and the node behind a position.\<close>

abbreviation before :: "'a \<Rightarrow> 'a list \<Rightarrow> 'a" where "before h us \<equiv> last (h # us)"
abbreviation behind :: "'a \<Rightarrow> 'a list \<Rightarrow> 'a" where "behind h vs \<equiv> hd (vs @ [h])"

lemma ring_distinct: "ring nx pv h xs \<Longrightarrow> distinct xs \<and> h \<notin> set xs"
  by (simp add: ring_def)

lemma links_update:
  assumes "successively (\<lambda>a b. nx a = b \<and> pv b = a) xs" "x \<notin> set (butlast xs)" "z \<notin> set (tl xs)"
  shows "successively (\<lambda>a b. (nx(x := y)) a = b \<and> (pv(z := w)) b = a) xs"
  using assms
proof (induction xs rule: induct_list012)
  case (3 a b xs)
  then show ?case by (cases xs) auto
qed auto

lemma ring_split:
  "ring nx pv h (us @ vs) \<longleftrightarrow> distinct (h # us @ vs) \<and>
     successively (\<lambda>a b. nx a = b \<and> pv b = a) (h # us) \<and>
     successively (\<lambda>a b. nx a = b \<and> pv b = a) (vs @ [h]) \<and>
     nx (before h us) = behind h vs \<and> pv (behind h vs) = before h us"
  unfolding ring_def by (auto simp: successively_append_iff simp flip: append_Cons)

lemma ring_link: "ring nx pv h (us @ vs) \<Longrightarrow> nx (before h us) = behind h vs \<and> pv (behind h vs) = before h us"
  by (simp add: ring_split)

lemma before_butlast: "distinct (h # us) \<Longrightarrow> before h us \<notin> set (butlast (h # us))"
  by (metis append_butlast_last_id distinct_append disjoint_iff list.distinct(1) list.set_intros(1))

lemma behind_tl: "distinct (h # vs) \<Longrightarrow> behind h vs \<notin> set (tl (vs @ [h]))"
  by (cases vs) auto

lemma before_in: "before h us \<in> insert h (set us)"
  by auto

lemma behind_in: "behind h vs \<in> insert h (set vs)"
  by (cases vs) auto

lemma ring_insert:
  assumes "ring nx pv h (us @ vs)" "y \<notin> set (h # us @ vs)"
  shows "ring (nx(y := behind h vs, before h us := y)) (pv(y := before h us, behind h vs := y)) h (us @ y # vs)"
proof -
  let ?x = "before h us" and ?z = "behind h vs"
  let ?nx = "nx(y := ?z, ?x := y)" and ?pv = "pv(y := ?x, ?z := y)"
  have d: "distinct (h # us @ vs)" and A: "successively (\<lambda>a b. nx a = b \<and> pv b = a) (h # us)"
    and B: "successively (\<lambda>a b. nx a = b \<and> pv b = a) (vs @ [h])"
    using assms(1) by (auto simp: ring_split)
  have y: "y \<noteq> ?x" "y \<noteq> ?z"
    using assms(2) before_in [of h us] behind_in [of vs h] by auto
  have 1: "?x \<notin> set (butlast (h # us))" "?z \<notin> set (tl (h # us))"
    using before_butlast [of h us] behind_in [of vs h] d by auto
  have 2: "?x \<notin> set (butlast (vs @ [h]))" "?z \<notin> set (tl (vs @ [h]))"
    using behind_tl [of h vs] before_in [of h us] d by (auto simp: butlast_append)
  have yA: "y \<notin> set (butlast (h # us))" "y \<notin> set (tl (h # us))"
    using assms(2) by (auto dest: in_set_butlastD)
  have A': "successively (\<lambda>a b. ?nx a = b \<and> ?pv b = a) (h # us)"
    by (rule links_update [OF links_update [OF A yA] 1])
  have yB: "y \<notin> set (butlast (vs @ [h]))" "y \<notin> set (tl (vs @ [h]))"
    using assms(2) by (auto simp: tl_append dest: list.set_sel(2) split: list.splits)
  have B': "successively (\<lambda>a b. ?nx a = b \<and> ?pv b = a) (vs @ [h])"
    by (rule links_update [OF links_update [OF B yB] 2])
  have B'': "successively (\<lambda>a b. ?nx a = b \<and> ?pv b = a) ((y # vs) @ [h])"
    using B' y by (cases vs) auto
  show ?thesis
    unfolding ring_split
  proof (intro conjI)
    show "distinct (h # us @ y # vs)" using d assms(2) by auto
    show "?nx ?x = behind h (y # vs)" "?pv (behind h (y # vs)) = ?x" using y by auto
  qed (fact A' B'')+
qed

lemma ring_remove:
  assumes "ring nx pv h (us @ x # vs)"
  shows "pv x = before h us \<and> nx x = behind h vs \<and>
    ring (nx(before h us := behind h vs)) (pv(behind h vs := before h us)) h (us @ vs)"
proof -
  let ?p = "before h us" and ?n = "behind h vs"
  have d: "distinct (h # us @ x # vs)" and A: "successively (\<lambda>a b. nx a = b \<and> pv b = a) (h # us)"
    and B: "successively (\<lambda>a b. nx a = b \<and> pv b = a) (x # vs @ [h])" and p: "pv x = ?p"
    using assms by (auto simp: ring_split)
  have B': "successively (\<lambda>a b. nx a = b \<and> pv b = a) (vs @ [h])" and n: "nx x = ?n"
    using B by (cases vs; simp)+
  have 1: "?p \<notin> set (butlast (h # us))" "?n \<notin> set (tl (h # us))"
    using before_butlast [of h us] behind_in [of vs h] d by auto
  have 2: "?p \<notin> set (butlast (vs @ [h]))" "?n \<notin> set (tl (vs @ [h]))"
    using behind_tl [of h vs] before_in [of h us] d by (auto simp: butlast_append)
  show ?thesis
    using links_update [OF A 1] links_update [OF B' 2] p n d by (simp add: ring_split)
qed

text \<open>Replacing \<open>x\<close> by a new node \<open>y\<close> is inserting \<open>y\<close> behind \<open>x\<close> and removing \<open>x\<close>, as far as the ring goes.\<close>

lemma ring_replace:
  assumes "ring nx pv h (us @ x # vs)" "y \<notin> set (h # us @ x # vs)"
  shows "ring (nx(y := nx x, pv x := y)) (pv(y := pv x, nx x := y)) h (us @ y # vs)"
proof -
  let ?nx = "nx(before h us := behind h vs)" and ?pv = "pv(behind h vs := before h us)"
  have r: "pv x = before h us" "nx x = behind h vs" "ring ?nx ?pv h (us @ vs)"
    using ring_remove [OF assms(1)] by auto
  have y: "y \<noteq> before h us" "y \<noteq> behind h vs"
    using assms(2) before_in [of h us] behind_in [of vs h] by auto
  have "ring (?nx(y := behind h vs, before h us := y)) (?pv(y := before h us, behind h vs := y)) h (us @ y # vs)"
    using ring_insert [OF r(3)] assms(2) by simp
  moreover have "?nx(y := behind h vs, before h us := y) = nx(y := nx x, pv x := y)"
    "?pv(y := before h us, behind h vs := y) = pv(y := pv x, nx x := y)"
    using r y by (auto simp: fun_eq_iff)
  ultimately show ?thesis by simp
qed

lemma ring_Nil: "nx h = h \<Longrightarrow> pv h = h \<Longrightarrow> ring nx pv h []"
  by (simp add: ring_def)

lemma ring_first: "ring nx pv h xs \<Longrightarrow> nx h = behind h xs"
  using ring_link [of nx pv h "[]" xs] by simp

lemma ring_last: "ring nx pv h xs \<Longrightarrow> pv h = before h xs"
  using ring_link [of nx pv h xs "[]"] by simp

lemma ring_next: "ring nx pv h (us @ x # vs) \<Longrightarrow> nx x = behind h vs \<and> pv x = before h us"
  using ring_remove by metis

text \<open>The pointers determine the list of nodes.\<close>

lemma ring_prefix:
  assumes "ring nx pv h (us @ vs)" "ring nx pv h (us @ ws)"
  shows "vs = ws"
  using assms
proof (induction vs arbitrary: us ws)
  case Nil
  have "behind h ws = h"
    using ring_link [OF Nil(1)] ring_link [OF Nil(2)] by simp
  then show ?case
    using ring_distinct [OF Nil(2)] by (cases ws) auto
next
  case (Cons v vs)
  have "behind h ws = v"
    using ring_link [OF Cons.prems(1)] ring_link [OF Cons.prems(2)] by simp
  moreover have "v \<noteq> h"
    using ring_distinct [OF Cons.prems(1)] by auto
  ultimately obtain ws' where "ws = v # ws'" by (cases ws) auto
  then show ?case
    using Cons.IH [of "us @ [v]" ws'] Cons.prems by simp
qed

lemma ring_unique: "ring nx pv h xs \<Longrightarrow> ring nx pv h ys \<Longrightarrow> xs = ys"
  using ring_prefix [of nx pv h "[]"] by simp

end
