(* ===== verification/Arena.thy ===== *)
theory Arena
  imports Alloc ChainRing
begin

text \<open>
  The arena allocator of \<^verbatim>\<open>libc/src/malloc.c\<close> and \<^verbatim>\<open>libc/src/malloc.h\<close> (\<^verbatim>\<open>malloc_impl_orig\<close>, \<^verbatim>\<open>free_impl_orig\<close>) and
  \<^verbatim>\<open>realloc_impl_orig\<close> of \<^verbatim>\<open>libc/src/realloc.c\<close>, the alternative to the static allocator. The block headers are
  modelled field by field: one function from addresses to values for each field of \<^verbatim>\<open>struct free_arena_header\<close>,
  and the address of \<^verbatim>\<open>__malloc_head\<close>. \<^verbatim>\<open>mmap\<close> is a parameter of the definitions, a function of the state and the
  size that gives an address or fails. \<^verbatim>\<open>munmap\<close> is reported: a result says which range was given back.
  The searches along the chains are \<open>partial_function\<close>s, since a chain that is not a ring could keep them
  busy for ever; the proofs show that they return. \<^verbatim>\<open>DEBUG_MALLOC\<close> is off and \<^verbatim>\<open>mmap\<close> is used, not \<^verbatim>\<open>sbrk\<close>.
\<close>

unbundle bit_operations_syntax

section \<open>Definitions\<close>

datatype arena_type = ARENA_TYPE_USED | ARENA_TYPE_FREE | ARENA_TYPE_HEAD

record arena =
  a_type :: "addr \<Rightarrow> arena_type"
  a_size :: "addr \<Rightarrow> nat"
  a_next :: "addr \<Rightarrow> addr"
  a_prev :: "addr \<Rightarrow> addr"
  next_free :: "addr \<Rightarrow> addr"
  prev_free :: "addr \<Rightarrow> addr"
  malloc_head :: addr

text \<open>\<^verbatim>\<open>sizeof(struct arena_header)\<close>: four fields of eight bytes.\<close>

definition arena_header_size :: nat where
  "arena_header_size = 32"

definition chunk_size :: "64 word" where
  "chunk_size = 65536"

definition initial_arena :: "addr \<Rightarrow> arena" where
  "initial_arena hp = \<lparr>a_type = (\<lambda>_. ARENA_TYPE_USED)(hp := ARENA_TYPE_HEAD), a_size = (\<lambda>_. 0),
     a_next = (\<lambda>_. 0)(hp := hp), a_prev = (\<lambda>_. 0)(hp := hp),
     next_free = (\<lambda>_. 0)(hp := hp), prev_free = (\<lambda>_. 0)(hp := hp), malloc_head = hp\<rparr>"

definition remove_from_main_chain :: "arena \<Rightarrow> addr \<Rightarrow> arena" where
  "remove_from_main_chain s ah = (let ap = a_prev s ah; an = a_next s ah;
     s = s\<lparr>a_next := (a_next s)(ap := an)\<rparr>
     in s\<lparr>a_prev := (a_prev s)(an := ap)\<rparr>)"

definition remove_from_free_chain :: "arena \<Rightarrow> addr \<Rightarrow> arena" where
  "remove_from_free_chain s ah = (let ap = prev_free s ah; an = next_free s ah;
     s = s\<lparr>next_free := (next_free s)(ap := an)\<rparr>
     in s\<lparr>prev_free := (prev_free s)(an := ap)\<rparr>)"

definition remove_from_chains :: "arena \<Rightarrow> addr \<Rightarrow> arena" where
  "remove_from_chains s ah = remove_from_main_chain (remove_from_free_chain s ah) ah"

definition malloc_from_block :: "arena \<Rightarrow> addr \<Rightarrow> nat \<Rightarrow> addr \<times> arena" where
  "malloc_from_block s fp sz = (let fsize = a_size s fp;
     s = (if fsize \<ge> sz + 2 * arena_header_size then
       let nfp = fp + sz; na = a_next s fp;
           s = s\<lparr>a_type := (a_type s)(nfp := ARENA_TYPE_FREE)\<rparr>;
           s = s\<lparr>a_size := (a_size s)(nfp := fsize - sz)\<rparr>;
           s = s\<lparr>a_type := (a_type s)(fp := ARENA_TYPE_USED)\<rparr>;
           s = s\<lparr>a_size := (a_size s)(fp := sz)\<rparr>;
           s = s\<lparr>a_prev := (a_prev s)(nfp := fp)\<rparr>;
           s = s\<lparr>a_next := (a_next s)(nfp := na)\<rparr>;
           s = s\<lparr>a_prev := (a_prev s)(na := nfp)\<rparr>;
           s = s\<lparr>a_next := (a_next s)(fp := nfp)\<rparr>;
           fpn = next_free s fp;
           s = s\<lparr>next_free := (next_free s)(nfp := fpn)\<rparr>;
           fpp = prev_free s fp;
           s = s\<lparr>prev_free := (prev_free s)(nfp := fpp)\<rparr>;
           s = s\<lparr>prev_free := (prev_free s)(fpn := nfp)\<rparr>;
           s = s\<lparr>next_free := (next_free s)(fpp := nfp)\<rparr>
       in s
     else remove_from_free_chain (s\<lparr>a_type := (a_type s)(fp := ARENA_TYPE_USED)\<rparr>) fp)
   in (fp + arena_header_size, s))"

definition free_block :: "arena \<Rightarrow> addr \<Rightarrow> addr \<times> arena" where
  "free_block s ah = (let pah = a_prev s ah; nah = a_next s ah;
     (ah, s) = (if a_type s pah = ARENA_TYPE_FREE \<and> pah + a_size s pah = ah then
         let s = s\<lparr>a_size := (a_size s)(pah := a_size s pah + a_size s ah)\<rparr>;
             s = s\<lparr>a_next := (a_next s)(pah := nah)\<rparr>;
             s = s\<lparr>a_prev := (a_prev s)(nah := pah)\<rparr>
         in (pah, s)
       else
         let s = s\<lparr>a_type := (a_type s)(ah := ARENA_TYPE_FREE)\<rparr>;
             s = s\<lparr>next_free := (next_free s)(ah := next_free s (malloc_head s))\<rparr>;
             s = s\<lparr>prev_free := (prev_free s)(ah := malloc_head s)\<rparr>;
             s = s\<lparr>next_free := (next_free s)(malloc_head s := ah)\<rparr>;
             s = s\<lparr>prev_free := (prev_free s)(next_free s ah := ah)\<rparr>
         in (ah, s))
   in if a_type s nah = ARENA_TYPE_FREE \<and> ah + a_size s ah = nah then
        (ah, remove_from_chains (s\<lparr>a_size := (a_size s)(ah := a_size s ah + a_size s nah)\<rparr>) nah)
      else (ah, s))"

text \<open>First fit along the free chain; \<open>Some None\<close> when the head is reached.\<close>

partial_function (option) arena_find :: "arena \<Rightarrow> nat \<Rightarrow> addr \<Rightarrow> addr option option" where
  [code]: "arena_find s sz fp =
     (if a_type s fp \<noteq> ARENA_TYPE_HEAD then
        (if a_size s fp \<ge> sz then Some (Some fp) else arena_find s sz (next_free s fp))
      else Some None)"

text \<open>The place of a new block in the sorted chain, searched backwards.\<close>

partial_function (option) arena_pred :: "arena \<Rightarrow> addr \<Rightarrow> addr \<Rightarrow> addr option" where
  [code]: "arena_pred s fp pah =
     (if a_type s pah \<noteq> ARENA_TYPE_HEAD then
        (if pah < fp then Some pah else arena_pred s fp (a_prev s pah))
      else Some pah)"

text \<open>The common part of \<^verbatim>\<open>malloc\<close> and \<^verbatim>\<open>realloc\<close>: add the header and round up.\<close>

definition arena_request :: "64 word \<Rightarrow> 64 word" where
  "arena_request sz = (sz + 2 * word_of_nat arena_header_size - 1) AND NOT (word_of_nat arena_header_size - 1)"

definition malloc_impl_orig :: "(arena \<Rightarrow> nat \<Rightarrow> addr option) \<Rightarrow> arena \<Rightarrow> 64 word \<Rightarrow> (addr \<times> arena) option" where
  "malloc_impl_orig mmap s sz0 =
     (if sz0 = 0 then Some (NULL, s)
      else let sz = arena_request sz0 in do {
        r \<leftarrow> arena_find s (unat sz) (next_free s (malloc_head s));
        case r of
          Some fp \<Rightarrow> Some (malloc_from_block s fp (unat sz))
        | None \<Rightarrow>
            (let fsize = (sz + (chunk_size - 1)) AND NOT (chunk_size - 1) in
             case mmap s (unat fsize) of
               None \<Rightarrow> Some (NULL, s)
             | Some fp \<Rightarrow> do {
                 let s = s\<lparr>a_type := (a_type s)(fp := ARENA_TYPE_FREE)\<rparr>;
                 let s = s\<lparr>a_size := (a_size s)(fp := unat fsize)\<rparr>;
                 pah \<leftarrow> arena_pred s fp (a_prev s (malloc_head s));
                 let s = s\<lparr>a_next := (a_next s)(fp := a_next s pah)\<rparr>;
                 let s = s\<lparr>a_prev := (a_prev s)(fp := pah)\<rparr>;
                 let s = s\<lparr>a_next := (a_next s)(pah := fp)\<rparr>;
                 let s = s\<lparr>a_prev := (a_prev s)(a_next s fp := fp)\<rparr>;
                 let (fp, s) = free_block s fp;
                 Some (malloc_from_block s fp (unat sz))
               })
      })"

text \<open>The parts of a free block in front of its first whole page and behind its last one. A part that exists must
  be large enough for a header, so a smaller one is extended by a page.\<close>

definition head_of :: "nat \<Rightarrow> addr \<Rightarrow> nat" where
  "head_of page_size ah = (let head_portion = nat ((- int ah) mod int page_size) in
     if head_portion \<noteq> 0 \<and> head_portion < 2 * arena_header_size then head_portion + page_size else head_portion)"

definition tail_of :: "nat \<Rightarrow> addr \<Rightarrow> nat" where
  "tail_of page_size e = (let tail_portion = e mod page_size in
     if tail_portion \<noteq> 0 \<and> tail_portion < 2 * arena_header_size then tail_portion + page_size else tail_portion)"

text \<open>The new header \<open>tah\<close> of size \<open>n\<close>, linked behind \<open>ah\<close> in the main chain and in front of it in the free chain.\<close>

definition cut_tail :: "arena \<Rightarrow> addr \<Rightarrow> addr \<Rightarrow> nat \<Rightarrow> arena" where
  "cut_tail s ah tah n =
     (let s = s\<lparr>a_type := (a_type s)(tah := ARENA_TYPE_FREE)\<rparr>;
          s = s\<lparr>a_size := (a_size s)(tah := n)\<rparr>;
          tan = a_next s ah;
          s = s\<lparr>a_next := (a_next s)(tah := tan)\<rparr>;
          s = s\<lparr>a_prev := (a_prev s)(tan := tah)\<rparr>;
          s = s\<lparr>a_prev := (a_prev s)(tah := ah)\<rparr>;
          s = s\<lparr>a_next := (a_next s)(ah := tah)\<rparr>;
          tap = prev_free s ah;
          s = s\<lparr>prev_free := (prev_free s)(tah := tap)\<rparr>;
          s = s\<lparr>next_free := (next_free s)(tap := tah)\<rparr>;
          s = s\<lparr>next_free := (next_free s)(tah := ah)\<rparr>
      in s\<lparr>prev_free := (prev_free s)(ah := tah)\<rparr>)"

definition trim_block :: "arena \<Rightarrow> addr \<Rightarrow> nat \<Rightarrow> nat \<Rightarrow> arena" where
  "trim_block s ah head_portion tail_portion =
     (let adj_size = a_size s ah - head_portion - tail_portion;
          s = (if tail_portion \<noteq> 0 then cut_tail s ah (ah + head_portion + adj_size) tail_portion else s)
      in if head_portion \<noteq> 0 then s\<lparr>a_size := (a_size s)(ah := head_portion)\<rparr> else remove_from_chains s ah)"

text \<open>\<open>free_impl_orig\<close> returns the range given to \<^verbatim>\<open>munmap\<close>, if any. The guard that \<^verbatim>\<open>a.size\<close> is large enough makes the
  subtraction for \<^verbatim>\<open>adj_size\<close> exact.\<close>

definition free_impl_orig :: "nat \<Rightarrow> arena \<Rightarrow> addr \<Rightarrow> (addr \<times> nat) option \<times> arena" where
  "free_impl_orig page_size s ptr =
     (if ptr = NULL then (None, s)
      else let (ah, s) = free_block s (ptr - arena_header_size);
               head_portion = head_of page_size ah;
               tail_portion = tail_of page_size (ah + a_size s ah);
               adj_size = a_size s ah - head_portion - tail_portion
           in if a_size s ah \<ge> head_portion + tail_portion + unat chunk_size then
                (Some (ah + head_portion, adj_size), trim_block s ah head_portion tail_portion)
              else (None, s))"

definition realloc_impl_orig ::
  "(arena \<Rightarrow> nat \<Rightarrow> addr option) \<Rightarrow> nat \<Rightarrow> mem \<Rightarrow> arena \<Rightarrow> addr \<Rightarrow> 64 word \<Rightarrow> (addr \<times> mem \<times> arena) option" where
  "realloc_impl_orig mmap page_size m s ptr sz0 =
     (if ptr = NULL then do { (p, s') \<leftarrow> malloc_impl_orig mmap s sz0; Some (p, m, s') }
      else if sz0 = 0 then Some (NULL, m, snd (free_impl_orig page_size s ptr))
      else let sz = arena_request sz0; ah = ptr - arena_header_size in
        if a_size s ah \<ge> unat sz \<and> unat sz \<ge> a_size s ah div 4 then Some (ptr, m, s)
        else do {
          let oldsize = a_size s ah - arena_header_size;
          (newptr, s') \<leftarrow> malloc_impl_orig mmap s sz;
          (m', _) \<leftarrow> memcpy m newptr ptr (if unat sz < oldsize then unat sz else oldsize);
          Some (newptr, m', snd (free_impl_orig page_size s' ptr))
        })"

section \<open>Blocks in address order\<close>

text \<open>What the sorted chain holds: blocks that are aligned, large enough for a free header, ordered by
  address without overlap, and away from the head node.\<close>

definition block_ok :: "addr \<Rightarrow> (addr \<Rightarrow> arena_type) \<Rightarrow> (addr \<Rightarrow> nat) \<Rightarrow> addr \<Rightarrow> bool" where
  "block_ok hp ty sz a \<longleftrightarrow> ty a \<noteq> ARENA_TYPE_HEAD \<and> 0 < a \<and> 32 dvd a \<and> 32 dvd sz a \<and> 64 \<le> sz a \<and>
     (hp < a \<or> a + sz a \<le> hp)"

definition blocks_ok :: "addr \<Rightarrow> (addr \<Rightarrow> arena_type) \<Rightarrow> (addr \<Rightarrow> nat) \<Rightarrow> addr list \<Rightarrow> bool" where
  "blocks_ok hp ty sz as \<longleftrightarrow> ty hp = ARENA_TYPE_HEAD \<and> (\<forall>a \<in> set as. block_ok hp ty sz a) \<and>
     sorted_wrt (\<lambda>a b. a + sz a \<le> b) as"

lemma blocks_ok_append:
  "blocks_ok hp ty sz (us @ vs) \<longleftrightarrow> blocks_ok hp ty sz us \<and> blocks_ok hp ty sz vs \<and>
     (\<forall>a \<in> set us. \<forall>b \<in> set vs. a + sz a \<le> b)"
  by (auto simp: blocks_ok_def sorted_wrt_append)

lemma blocks_ok_Cons:
  "blocks_ok hp ty sz (a # vs) \<longleftrightarrow> block_ok hp ty sz a \<and> blocks_ok hp ty sz vs \<and> (\<forall>b \<in> set vs. a + sz a \<le> b)"
  by (auto simp: blocks_ok_def)

lemmas blocks_ok_simps = blocks_ok_append blocks_ok_Cons

lemma blocks_ok_cong:
  assumes "blocks_ok hp ty sz as" "ty' hp = ty hp" "\<And>a. a \<in> set as \<Longrightarrow> ty' a = ty a \<and> sz' a = sz a"
  shows "blocks_ok hp ty' sz' as"
proof -
  have "sorted_wrt (\<lambda>a b. a + sz' a \<le> b) as"
    using assms(1) by (auto simp: blocks_ok_def assms(3) intro: sorted_wrt_mono_rel [rotated])
  with assms show ?thesis by (auto simp: blocks_ok_def block_ok_def)
qed

lemma blocks_ok_type:
  assumes "blocks_ok hp ty sz as" "a \<noteq> hp" "t \<noteq> ARENA_TYPE_HEAD"
  shows "blocks_ok hp (ty(a := t)) sz as"
  using assms by (auto simp: blocks_ok_def block_ok_def)

lemma blocks_ok_distinct:
  assumes "blocks_ok hp ty sz as"
  shows "distinct as \<and> hp \<notin> set as"
proof -
  have "distinct as"
    using assms
  proof (induction as)
    case (Cons a as)
    then show ?case
      by (fastforce simp: blocks_ok_Cons block_ok_def)
  qed simp
  then show ?thesis using assms by (auto simp: blocks_ok_def block_ok_def)
qed

lemma blocks_ok_remove: "blocks_ok hp ty sz (us @ a # vs) \<Longrightarrow> blocks_ok hp ty sz (us @ vs)"
  by (auto simp: blocks_ok_simps)

text \<open>Changing the size of one block: it must stay clear of its successors and of the head.\<close>

lemma blocks_ok_resize:
  assumes "blocks_ok hp ty sz (us @ a # vs)" "64 \<le> n" "32 dvd n" "hp < a \<or> a + n \<le> hp" "\<forall>b \<in> set vs. a + n \<le> b"
  shows "blocks_ok hp ty (sz(a := n)) (us @ a # vs)"
proof -
  have d: "a \<notin> set us" "a \<notin> set vs" using blocks_ok_distinct [OF assms(1)] by auto
  have "blocks_ok hp ty (sz(a := n)) us" "blocks_ok hp ty (sz(a := n)) vs"
    using assms(1) d by (auto simp: blocks_ok_simps intro: blocks_ok_cong)
  then show ?thesis
    using assms d by (auto simp: blocks_ok_simps block_ok_def)
qed

text \<open>Adding a block in a gap.\<close>

lemma blocks_ok_insert:
  assumes "blocks_ok hp ty sz (us @ vs)" "0 < y" "32 dvd y" "32 dvd n" "64 \<le> n" "hp < y \<or> y + n \<le> hp"
    "\<forall>a \<in> set us. a + sz a \<le> y" "\<forall>b \<in> set vs. y + n \<le> b" "t \<noteq> ARENA_TYPE_HEAD"
  shows "blocks_ok hp (ty(y := t)) (sz(y := n)) (us @ y # vs) \<and> y \<notin> set (hp # us @ vs)"
proof -
  have "hp \<noteq> y" "hp \<notin> set us" using assms(5,6) blocks_ok_distinct [OF assms(1)] by auto
  moreover have "y \<notin> set us"
  proof
    assume y: "y \<in> set us"
    then have "block_ok hp ty sz y"
      using assms(1) by (simp add: blocks_ok_def)
    with y assms(7) show False
      by (auto simp: block_ok_def)
  qed
  moreover have "y \<notin> set vs" using assms(5,8) by fastforce
  ultimately have "blocks_ok hp (ty(y := t)) (sz(y := n)) us" "blocks_ok hp (ty(y := t)) (sz(y := n)) vs"
    "y \<notin> set (hp # us @ vs)"
    using assms(1) blocks_ok_distinct [OF assms(1)] by (auto simp: blocks_ok_simps intro: blocks_ok_cong)
  then show ?thesis
    using assms by (auto simp: blocks_ok_simps block_ok_def)
qed

lemma blocks_ok_merge:
  assumes "blocks_ok hp ty sz (us @ a # b # vs)" "a + sz a = b"
  shows "blocks_ok hp ty (sz(a := sz a + sz b)) (us @ a # vs)"
proof (rule blocks_ok_resize)
  show "blocks_ok hp ty sz (us @ a # vs)"
    using blocks_ok_remove [of hp ty sz "us @ [a]" b vs] assms(1) by simp
qed (use assms in \<open>auto simp: blocks_ok_simps block_ok_def\<close>)

lemma blocks_ok_split:
  assumes "blocks_ok hp ty sz (us @ a # vs)" "n + 64 \<le> sz a" "64 \<le> n" "32 dvd n"
    "t \<noteq> ARENA_TYPE_HEAD" "t' \<noteq> ARENA_TYPE_HEAD"
  shows "blocks_ok hp (ty(a + n := t, a := t')) (sz(a + n := sz a - n, a := n)) (us @ a # (a + n) # vs) \<and>
    a + n \<notin> set (hp # us @ a # vs)"
proof -
  have a: "block_ok hp ty sz a" "\<forall>b \<in> set vs. a + sz a \<le> b" "\<forall>b \<in> set us. b + sz b \<le> a" "a \<noteq> hp"
    using assms(1) by (auto simp: blocks_ok_simps block_ok_def)
  have "blocks_ok hp ty (sz(a := n)) (us @ a # vs)"
    using assms a by (intro blocks_ok_resize) (auto simp: block_ok_def)
  then have "blocks_ok hp (ty(a := t')) (sz(a := n)) ((us @ [a]) @ vs)"
    using a(4) assms(6) by (simp add: blocks_ok_type)
  then have "blocks_ok hp (ty(a := t', a + n := t)) (sz(a := n, a + n := sz a - n)) ((us @ [a]) @ (a + n) # vs) \<and>
      a + n \<notin> set (hp # (us @ [a]) @ vs)"
    by (rule blocks_ok_insert) (use a assms in \<open>auto simp: block_ok_def\<close>)
  moreover have "ty(a := t', a + n := t) = ty(a + n := t, a := t')"
    "sz(a := n, a + n := sz a - n) = sz(a + n := sz a - n, a := n)"
    using assms(3) by (auto simp: fun_eq_iff)
  ultimately show ?thesis by simp
qed

section \<open>The representation invariant\<close>

text \<open>Two neighbours of the chain that touch are never both free: \<^verbatim>\<open>free\<close> has merged them.\<close>

definition apart :: "(addr \<Rightarrow> arena_type) \<Rightarrow> (addr \<Rightarrow> nat) \<Rightarrow> addr \<Rightarrow> addr \<Rightarrow> bool" where
  "apart ty sz a b \<longleftrightarrow> \<not> (ty a = ARENA_TYPE_FREE \<and> ty b = ARENA_TYPE_FREE \<and> a + sz a = b)"

definition free_in :: "(addr \<Rightarrow> arena_type) \<Rightarrow> addr list \<Rightarrow> addr set" where
  "free_in ty as = {a \<in> set as. ty a = ARENA_TYPE_FREE}"

definition arena_rep :: "arena \<Rightarrow> addr list \<Rightarrow> addr list \<Rightarrow> bool" where
  "arena_rep s as fs \<longleftrightarrow>
     ring (a_next s) (a_prev s) (malloc_head s) as \<and>
     ring (next_free s) (prev_free s) (malloc_head s) fs \<and>
     blocks_ok (malloc_head s) (a_type s) (a_size s) as \<and>
     set fs = free_in (a_type s) as \<and>
     successively (apart (a_type s) (a_size s)) as"

text \<open>The blocks in use, with their sizes.\<close>

definition used_in :: "arena \<Rightarrow> addr list \<Rightarrow> (addr \<times> nat) set" where
  "used_in s as = {(a, a_size s a) |a. a \<in> set as \<and> a_type s a = ARENA_TYPE_USED}"

lemma used_in_iff: "(a, z) \<in> used_in s as \<longleftrightarrow> a \<in> set as \<and> a_type s a = ARENA_TYPE_USED \<and> z = a_size s a"
  by (auto simp: used_in_def)

lemma used_in_eqI:
  "(\<And>a z. (a, z) \<in> U \<longleftrightarrow> a \<in> set as \<and> a_type s a = ARENA_TYPE_USED \<and> z = a_size s a) \<Longrightarrow> used_in s as = U"
  by (auto simp: used_in_def)

lemma successively_mid:
  "successively P (us @ a # vs) \<longleftrightarrow> successively P us \<and> (us = [] \<or> P (last us) a) \<and>
     successively P vs \<and> (vs = [] \<or> P a (hd vs))"
  by (cases vs) (auto simp: successively_append_iff successively_Cons)

lemma apart_used: "ty a = ARENA_TYPE_USED \<Longrightarrow> apart ty sz a b" "ty b = ARENA_TYPE_USED \<Longrightarrow> apart ty sz a b"
  by (auto simp: apart_def)

lemma apart_cong:
  assumes "successively (apart ty sz) as" "\<And>a. a \<in> set as \<Longrightarrow> ty' a = ty a \<and> sz' a = sz a"
  shows "successively (apart ty' sz') as"
  using assms(1) by (rule successively_mono) (auto simp: apart_def assms(2))

lemma free_in_type: "ty a \<noteq> ARENA_TYPE_HEAD \<Longrightarrow> ty a \<noteq> ARENA_TYPE_FREE \<longleftrightarrow> ty a = ARENA_TYPE_USED"
  by (cases "ty a") auto

lemma malloc_from_block_whole:
  assumes r: "arena_rep s as fs" and fp: "fp \<in> set fs" and n: "a_size s fp < sz + 64" "sz \<le> a_size s fp"
  shows "\<exists>s' fs'. malloc_from_block s fp sz = (fp + 32, s') \<and> malloc_head s' = malloc_head s \<and> arena_rep s' as fs' \<and>
    used_in s' as = insert (fp, a_size s fp) (used_in s as) \<and> sz \<le> a_size s fp \<and>
    a_type s fp = ARENA_TYPE_FREE"
proof -
  let ?h = "malloc_head s"
  let ?s = "s\<lparr>a_type := (a_type s)(fp := ARENA_TYPE_USED)\<rparr>"
  have f: "fp \<in> set as" "a_type s fp = ARENA_TYPE_FREE"
    using r fp by (auto simp: arena_rep_def free_in_def)
  obtain us vs where fs: "fs = us @ fp # vs"
    using fp by (auto simp: in_set_conv_decomp)
  then have rr: "ring (next_free s) (prev_free s) ?h (us @ fp # vs)"
    using r by (simp add: arena_rep_def)
  note rm = ring_remove [OF rr]
  have m: "malloc_from_block s fp sz = (fp + 32, remove_from_free_chain ?s fp)"
    using n by (simp add: malloc_from_block_def arena_header_size_def Let_def)
  have hp: "fp \<noteq> ?h" using ring_distinct [OF rr] by auto
  have "arena_rep (remove_from_free_chain ?s fp) as (us @ vs)"
    unfolding arena_rep_def
  proof (intro conjI)
    show "set (us @ vs) = free_in (a_type (remove_from_free_chain ?s fp)) as"
      using r ring_distinct [OF rr] unfolding arena_rep_def fs
      by (auto simp: remove_from_free_chain_def Let_def free_in_def)
    show "successively (apart (a_type (remove_from_free_chain ?s fp)) (a_size (remove_from_free_chain ?s fp))) as"
      by (rule successively_mono [of "apart (a_type s) (a_size s)"])
        (use r in \<open>auto simp: arena_rep_def remove_from_free_chain_def Let_def apart_def split: if_splits\<close>)
  qed (use r rm hp in \<open>auto simp: arena_rep_def remove_from_free_chain_def Let_def intro!: blocks_ok_type\<close>)
  moreover have "used_in (remove_from_free_chain ?s fp) as = insert (fp, a_size s fp) (used_in s as)"
    using f by (auto simp: used_in_def remove_from_free_chain_def Let_def)
  ultimately show ?thesis
    using m f n by (auto simp: remove_from_free_chain_def Let_def)
qed

lemma malloc_from_block_split:
  assumes r: "arena_rep s as fs" and fp: "fp \<in> set fs" and n: "sz + 64 \<le> a_size s fp" "64 \<le> sz" "32 dvd sz"
  shows "\<exists>s' as' fs'. malloc_from_block s fp sz = (fp + 32, s') \<and> malloc_head s' = malloc_head s \<and> arena_rep s' as' fs' \<and>
    used_in s' as' = insert (fp, sz) (used_in s as) \<and> a_type s fp = ARENA_TYPE_FREE"
proof -
  let ?h = "malloc_head s" and ?nfp = "fp + sz"
  have f: "fp \<in> set as" "a_type s fp = ARENA_TYPE_FREE"
    using r fp by (auto simp: arena_rep_def free_in_def)
  obtain us vs where as: "as = us @ fp # vs"
    using f(1) by (auto simp: in_set_conv_decomp)
  obtain us' vs' where fs: "fs = us' @ fp # vs'"
    using fp by (auto simp: in_set_conv_decomp)
  have R: "ring (a_next s) (a_prev s) ?h (us @ fp # vs)" "ring (next_free s) (prev_free s) ?h (us' @ fp # vs')"
    "blocks_ok ?h (a_type s) (a_size s) (us @ fp # vs)" "set fs = free_in (a_type s) as"
    "successively (apart (a_type s) (a_size s)) (us @ fp # vs)"
    using r by (auto simp: arena_rep_def as fs)
  let ?ty = "(a_type s)(?nfp := ARENA_TYPE_FREE, fp := ARENA_TYPE_USED)"
  let ?sz = "(a_size s)(?nfp := a_size s fp - sz, fp := sz)"
  have B: "blocks_ok ?h ?ty ?sz (us @ fp # ?nfp # vs)" "?nfp \<notin> set (?h # us @ fp # vs)"
    using blocks_ok_split [OF R(3) n] by auto
  have d: "fp \<notin> set us" "fp \<notin> set vs"
    using ring_distinct [OF R(1)] by auto
  have main: "ring ((a_next s)(?nfp := a_next s fp, fp := ?nfp)) ((a_prev s)(?nfp := fp, a_next s fp := ?nfp)) ?h
      (us @ fp # ?nfp # vs)"
    using ring_insert [of "a_next s" "a_prev s" ?h "us @ [fp]" vs ?nfp] R(1) B(2) ring_next [OF R(1)] by simp
  have sub: "set fs \<subseteq> set as"
    using R(4) by (auto simp: free_in_def)
  then have free: "ring ((next_free s)(?nfp := next_free s fp, prev_free s fp := ?nfp))
      ((prev_free s)(?nfp := prev_free s fp, next_free s fp := ?nfp)) ?h (us' @ ?nfp # vs')"
    using B(2) by (intro ring_replace [OF R(2)]) (auto simp: as fs)
  let ?s = "s\<lparr>a_type := ?ty, a_size := ?sz, a_next := (a_next s)(?nfp := a_next s fp, fp := ?nfp),
    a_prev := (a_prev s)(?nfp := fp, a_next s fp := ?nfp),
    next_free := (next_free s)(?nfp := next_free s fp, prev_free s fp := ?nfp),
    prev_free := (prev_free s)(?nfp := prev_free s fp, next_free s fp := ?nfp)\<rparr>"
  have "malloc_from_block s fp sz = (fp + 32, ?s)"
    using n by (simp add: malloc_from_block_def arena_header_size_def Let_def)
  moreover have "arena_rep ?s (us @ fp # ?nfp # vs) (us' @ ?nfp # vs')"
    unfolding arena_rep_def
  proof (intro conjI)
    have "set (us' @ ?nfp # vs') = insert ?nfp (set fs - {fp})"
      using ring_distinct [OF R(2)] by (auto simp: fs)
    then show "set (us' @ ?nfp # vs') = free_in (a_type ?s) (us @ fp # ?nfp # vs)"
      using R(4) B(2) d by (auto simp: free_in_def as)
    have "successively (apart (a_type s) (a_size s)) us" "successively (apart (a_type s) (a_size s)) vs"
      using R(5) by (auto simp: successively_mid)
    then have "successively (apart ?ty ?sz) us" "successively (apart ?ty ?sz) vs"
      using B(2) d by (auto elim!: apart_cong)
    moreover have "vs \<noteq> [] \<Longrightarrow> apart ?ty ?sz ?nfp (hd vs)"
      using R(5) n f(2) B(2) d by (cases vs) (auto simp: successively_mid apart_def)
    moreover have "fp \<noteq> ?nfp" using n by simp
    ultimately show "successively (apart (a_type ?s) (a_size ?s)) (us @ fp # ?nfp # vs)"
      by (auto simp: successively_mid successively_Cons intro: apart_used)
  qed (use main free B in simp_all)
  moreover have "used_in ?s (us @ fp # ?nfp # vs) = insert (fp, sz) (used_in s as)"
    using f B(2) d n by (intro used_in_eqI) (auto simp: used_in_iff as)
  moreover have "malloc_head ?s = ?h" by simp
  ultimately show ?thesis
    using f(2) by blast
qed

section \<open>Freeing a block\<close>

text \<open>The state between the two merging steps of \<^verbatim>\<open>__free_block\<close>: everything is in order but for the free block
  \<open>x\<close>, which may touch a free successor.\<close>

definition half_merged :: "arena \<Rightarrow> addr list \<Rightarrow> addr \<Rightarrow> addr list \<Rightarrow> addr list \<Rightarrow> bool" where
  "half_merged s us x vs fs \<longleftrightarrow>
     ring (a_next s) (a_prev s) (malloc_head s) (us @ x # vs) \<and>
     ring (next_free s) (prev_free s) (malloc_head s) fs \<and>
     blocks_ok (malloc_head s) (a_type s) (a_size s) (us @ x # vs) \<and>
     set fs = free_in (a_type s) (us @ x # vs) \<and> a_type s x = ARENA_TYPE_FREE \<and>
     successively (apart (a_type s) (a_size s)) (us @ [x]) \<and> successively (apart (a_type s) (a_size s)) vs"

text \<open>The first step of \<^verbatim>\<open>__free_block\<close>: merge into the predecessor or link into the free chain.\<close>

definition free_step :: "arena \<Rightarrow> addr \<Rightarrow> addr \<times> arena" where
  "free_step s ah = (let pah = a_prev s ah; nah = a_next s ah in
     if a_type s pah = ARENA_TYPE_FREE \<and> pah + a_size s pah = ah then
       (pah, s\<lparr>a_size := (a_size s)(pah := a_size s pah + a_size s ah),
          a_next := (a_next s)(pah := nah), a_prev := (a_prev s)(nah := pah)\<rparr>)
     else let nf = (next_free s)(ah := next_free s (malloc_head s), malloc_head s := ah) in
       (ah, s\<lparr>a_type := (a_type s)(ah := ARENA_TYPE_FREE), next_free := nf,
          prev_free := (prev_free s)(ah := malloc_head s, nf ah := ah)\<rparr>))"

lemma free_block_steps:
  "free_block s ah = (let nah = a_next s ah; (x, s) = free_step s ah in
     if a_type s nah = ARENA_TYPE_FREE \<and> x + a_size s x = nah then
       (x, remove_from_chains (s\<lparr>a_size := (a_size s)(x := a_size s x + a_size s nah)\<rparr>) nah)
     else (x, s))"
  by (simp add: free_block_def free_step_def Let_def)

lemma free_step_merge:
  assumes R: "ring (a_next s) (a_prev s) (malloc_head s) (us @ ah # vs)"
    "ring (next_free s) (prev_free s) (malloc_head s) fs"
    "blocks_ok (malloc_head s) (a_type s) (a_size s) (us @ ah # vs)"
    "set fs = free_in (a_type s) (us @ vs)"
    "successively (apart (a_type s) (a_size s)) us" "successively (apart (a_type s) (a_size s)) vs"
  and m: "a_type s (a_prev s ah) = ARENA_TYPE_FREE" "a_prev s ah + a_size s (a_prev s ah) = ah"
  shows "\<exists>s' us0 x. free_step s ah = (x, s') \<and> malloc_head s' = malloc_head s \<and> half_merged s' us0 x vs fs \<and>
    x \<le> ah \<and> ah + a_size s ah \<le> x + a_size s' x \<and> used_in s' (us0 @ x # vs) = used_in s (us @ vs)"
proof -
  let ?h = "malloc_head s" and ?x = "a_prev s ah"
  have x: "?x = before ?h us" "a_next s ah = behind ?h vs"
    using ring_next [OF R(1)] by auto
  have "us \<noteq> []"
    using x(1) m(1) R(3) by (auto simp: blocks_ok_def)
  then obtain us0 where us: "us = us0 @ [?x]"
    using x(1) by (metis append_butlast_last_id last_ConsR)
  have R1: "ring (a_next s) (a_prev s) ?h ((us0 @ [?x]) @ ah # vs)" and R3: "blocks_ok ?h (a_type s) (a_size s) (us0 @ ?x # ah # vs)"
    using R(1,3) us by auto
  have d: "?x \<notin> set us0" "?x \<notin> set vs"
    using ring_distinct [OF R1] by auto
  let ?sz = "(a_size s)(?x := a_size s ?x + a_size s ah)"
  let ?s = "s\<lparr>a_size := ?sz, a_next := (a_next s)(?x := a_next s ah), a_prev := (a_prev s)(a_next s ah := ?x)\<rparr>"
  have e: "free_step s ah = (?x, ?s)"
    using m by (simp add: free_step_def Let_def)
  have ring: "ring ((a_next s)(?x := a_next s ah)) ((a_prev s)(a_next s ah := ?x)) ?h (us0 @ ?x # vs)"
    using ring_remove [OF R1] by simp
  have blk: "blocks_ok ?h (a_type s) ?sz (us0 @ ?x # vs)"
    by (rule blocks_ok_merge [OF R3 m(2)])
  have ap: "successively (apart (a_type s) (a_size s)) (us0 @ [?x])"
    using R(5) us by simp
  have "half_merged ?s us0 ?x vs fs"
    unfolding half_merged_def
  proof (intro conjI)
    show "set fs = free_in (a_type ?s) (us0 @ ?x # vs)"
      using R(4) by (auto simp: free_in_def us)
    have "successively (apart (a_type s) ?sz) us0"
      using ap d by (auto simp: successively_append_iff elim!: apart_cong)
    moreover have "us0 \<noteq> [] \<Longrightarrow> apart (a_type s) ?sz (last us0) ?x"
      using ap d by (auto simp: successively_append_iff apart_def)
    ultimately show "successively (apart (a_type ?s) (a_size ?s)) (us0 @ [?x])"
      by (auto simp: successively_append_iff)
    show "successively (apart (a_type ?s) (a_size ?s)) vs"
      using R(6) d by (auto elim!: apart_cong)
  qed (use ring R(2) blk m(1) in simp_all)
  moreover have "used_in ?s (us0 @ ?x # vs) = used_in s (us @ vs)"
    using d m(1) by (intro used_in_eqI) (auto simp: used_in_iff us)
  moreover have "malloc_head ?s = ?h" "?x \<le> ah" "ah + a_size s ah \<le> ?x + a_size ?s ?x"
    using m(2) by auto
  ultimately show ?thesis
    using e by blast
qed

lemma free_step_link:
  assumes R: "ring (a_next s) (a_prev s) (malloc_head s) (us @ ah # vs)"
    "ring (next_free s) (prev_free s) (malloc_head s) fs"
    "blocks_ok (malloc_head s) (a_type s) (a_size s) (us @ ah # vs)"
    "set fs = free_in (a_type s) (us @ vs)"
    "successively (apart (a_type s) (a_size s)) us" "successively (apart (a_type s) (a_size s)) vs"
  and m: "\<not> (a_type s (a_prev s ah) = ARENA_TYPE_FREE \<and> a_prev s ah + a_size s (a_prev s ah) = ah)"
  shows "\<exists>s'. free_step s ah = (ah, s') \<and> malloc_head s' = malloc_head s \<and> half_merged s' us ah vs (ah # fs) \<and>
    a_size s' = a_size s \<and> used_in s' (us @ ah # vs) = used_in s (us @ vs)"
proof -
  let ?h = "malloc_head s"
  have x: "a_prev s ah = before ?h us"
    using ring_next [OF R(1)] by auto
  have d: "ah \<notin> set us" "ah \<notin> set vs" "ah \<noteq> ?h"
    using ring_distinct [OF R(1)] by auto
  then have nfs: "ah \<notin> set (?h # fs)"
    using R(4) by (auto simp: free_in_def)
  let ?ty = "(a_type s)(ah := ARENA_TYPE_FREE)"
  let ?nf = "(next_free s)(ah := next_free s ?h, ?h := ah)"
  let ?pf = "(prev_free s)(ah := ?h, next_free s ?h := ah)"
  let ?s = "s\<lparr>a_type := ?ty, next_free := ?nf, prev_free := ?pf\<rparr>"
  have e: "free_step s ah = (ah, ?s)"
    using m d by (auto simp: free_step_def Let_def)
  have free: "ring ?nf ?pf ?h (ah # fs)"
    using ring_insert [of "next_free s" "prev_free s" ?h "[]" fs ah] R(2) nfs ring_first [OF R(2)] by simp
  have "half_merged ?s us ah vs (ah # fs)"
    unfolding half_merged_def
  proof (intro conjI)
    show "set (ah # fs) = free_in (a_type ?s) (us @ ah # vs)"
      using R(4) d by (auto simp: free_in_def)
    have "successively (apart ?ty (a_size s)) us"
      using R(5) d by (auto elim!: apart_cong)
    moreover have "us \<noteq> [] \<Longrightarrow> apart ?ty (a_size s) (last us) ah"
      using m x d by (auto simp: apart_def)
    ultimately show "successively (apart (a_type ?s) (a_size ?s)) (us @ [ah])"
      by (auto simp: successively_append_iff)
    show "successively (apart (a_type ?s) (a_size ?s)) vs"
      using R(6) d by (auto elim!: apart_cong)
  qed (use R free d in \<open>auto intro!: blocks_ok_type\<close>)
  moreover have "used_in ?s (us @ ah # vs) = used_in s (us @ vs)"
    using d by (intro used_in_eqI) (auto simp: used_in_iff)
  ultimately show ?thesis
    using e by simp
qed

lemma finish_merge:
  assumes "half_merged s us x vs fs"
  defines "nah \<equiv> a_next s x"
  defines "s' \<equiv> (if a_type s nah = ARENA_TYPE_FREE \<and> x + a_size s x = nah then
      remove_from_chains (s\<lparr>a_size := (a_size s)(x := a_size s x + a_size s nah)\<rparr>) nah else s)"
  shows "\<exists>vs' fs'. arena_rep s' (us @ x # vs') fs' \<and> x \<in> set fs' \<and> malloc_head s' = malloc_head s \<and>
    a_size s x \<le> a_size s' x \<and> used_in s' (us @ x # vs') = used_in s (us @ x # vs)"
proof (cases "a_type s nah = ARENA_TYPE_FREE \<and> x + a_size s x = nah")
  case False
  note H = assms(1) [unfolded half_merged_def]
  have "nah = behind (malloc_head s) vs"
    using ring_next [of "a_next s" "a_prev s" "malloc_head s" us x vs] H nah_def by auto
  then have "vs \<noteq> [] \<Longrightarrow> apart (a_type s) (a_size s) x (hd vs)"
    using False by (cases vs) (auto simp: apart_def)
  then have "successively (apart (a_type s) (a_size s)) (us @ x # vs)"
    using H by (auto simp: successively_mid)
  then have "arena_rep s (us @ x # vs) fs"
    using H by (simp add: arena_rep_def)
  moreover have "x \<in> set fs"
    using H by (simp add: free_in_def)
  ultimately show ?thesis
    using False unfolding s'_def by auto
next
  case True
  let ?h = "malloc_head s"
  note H = assms(1) [unfolded half_merged_def]
  have n: "nah = behind ?h vs"
    using ring_next [of "a_next s" "a_prev s" ?h us x vs] H nah_def by auto
  have "vs \<noteq> []"
    using n True H by (auto simp: blocks_ok_def)
  then obtain vs' where vs: "vs = nah # vs'"
    using n by (cases vs) auto
  have R1: "ring (a_next s) (a_prev s) ?h ((us @ [x]) @ nah # vs')"
    and R3: "blocks_ok ?h (a_type s) (a_size s) (us @ x # nah # vs')"
    using H by (auto simp: vs)
  have d: "x \<notin> set us" "x \<notin> set vs'" "nah \<notin> set us" "nah \<notin> set vs'" "x \<noteq> nah"
    using ring_distinct [OF R1] by auto
  have x: "x \<in> set fs" and nf: "nah \<in> set fs"
    using H True by (auto simp: vs free_in_def)
  obtain as bs where fs: "fs = as @ nah # bs"
    using nf by (auto simp: in_set_conv_decomp)
  have RF: "ring (next_free s) (prev_free s) ?h (as @ nah # bs)"
    using H fs by simp
  let ?sz = "(a_size s)(x := a_size s x + a_size s nah)"
  let ?s = "s\<lparr>a_size := ?sz,
    next_free := (next_free s)(prev_free s nah := next_free s nah),
    prev_free := (prev_free s)(next_free s nah := prev_free s nah),
    a_next := (a_next s)(a_prev s nah := a_next s nah),
    a_prev := (a_prev s)(a_next s nah := a_prev s nah)\<rparr>"
  have e: "s' = ?s"
    using True by (simp add: s'_def remove_from_chains_def remove_from_free_chain_def remove_from_main_chain_def Let_def)
  have "arena_rep ?s (us @ x # vs') (as @ bs)"
    unfolding arena_rep_def
  proof (intro conjI)
    have "set (as @ bs) = set fs - {nah}"
      using ring_distinct [OF RF] by (auto simp: fs)
    then show "set (as @ bs) = free_in (a_type ?s) (us @ x # vs')"
      using H d by (auto simp: free_in_def vs)
    have "successively (apart (a_type s) ?sz) us" "successively (apart (a_type s) ?sz) vs'"
      using H d by (auto simp: vs successively_append_iff successively_Cons elim!: apart_cong)
    moreover have "us \<noteq> [] \<Longrightarrow> apart (a_type s) ?sz (last us) x"
      using H d by (auto simp: successively_append_iff apart_def)
    moreover have "vs' \<noteq> [] \<Longrightarrow> apart (a_type s) ?sz x (hd vs')"
      using H True by (auto simp: vs successively_Cons apart_def)
    ultimately show "successively (apart (a_type ?s) (a_size ?s)) (us @ x # vs')"
      by (auto simp: successively_mid)
    show "ring (a_next ?s) (a_prev ?s) (malloc_head ?s) (us @ x # vs')"
      using ring_remove [OF R1] by simp
    show "ring (next_free ?s) (prev_free ?s) (malloc_head ?s) (as @ bs)"
      using ring_remove [OF RF] by simp
  qed (use blocks_ok_merge [OF R3] True in simp)
  moreover have "used_in ?s (us @ x # vs') = used_in s (us @ x # vs)"
    using d True H by (intro used_in_eqI) (auto simp: used_in_iff vs)
  moreover have "x \<in> set (as @ bs)"
    using x d(5) by (auto simp: fs)
  moreover have "malloc_head ?s = ?h" "a_size s x \<le> a_size ?s x" by simp_all
  ultimately show ?thesis
    unfolding e by blast
qed

text \<open>\<^verbatim>\<open>__free_block\<close> on a block of the chain that is not in the free chain: afterwards the invariant holds, the block
  lies inside a free block, and the other blocks in use are as before.\<close>

lemma free_block_rep:
  assumes "ring (a_next s) (a_prev s) (malloc_head s) (us @ ah # vs)"
    "ring (next_free s) (prev_free s) (malloc_head s) fs"
    "blocks_ok (malloc_head s) (a_type s) (a_size s) (us @ ah # vs)"
    "set fs = free_in (a_type s) (us @ vs)"
    "successively (apart (a_type s) (a_size s)) us" "successively (apart (a_type s) (a_size s)) vs"
  shows "\<exists>x s' as' fs'. free_block s ah = (x, s') \<and> malloc_head s' = malloc_head s \<and> arena_rep s' as' fs' \<and>
    x \<in> set fs' \<and> x \<le> ah \<and> ah + a_size s ah \<le> x + a_size s' x \<and> used_in s' as' = used_in s (us @ vs)"
proof -
  let ?h = "malloc_head s"
  have 1: "\<exists>s1 us1 x fs1. free_step s ah = (x, s1) \<and> malloc_head s1 = ?h \<and> half_merged s1 us1 x vs fs1 \<and>
    x \<le> ah \<and> ah + a_size s ah \<le> x + a_size s1 x \<and> used_in s1 (us1 @ x # vs) = used_in s (us @ vs)"
  proof (cases "a_type s (a_prev s ah) = ARENA_TYPE_FREE \<and> a_prev s ah + a_size s (a_prev s ah) = ah")
    case True
    then show ?thesis using free_step_merge [OF assms] by blast
  next
    case False
    from free_step_link [OF assms False] obtain s' where s': "free_step s ah = (ah, s')" "malloc_head s' = ?h"
      "half_merged s' us ah vs (ah # fs)" "a_size s' = a_size s" "used_in s' (us @ ah # vs) = used_in s (us @ vs)"
      by blast
    then have "ah \<le> ah" "ah + a_size s ah \<le> ah + a_size s' ah" by simp_all
    with s' show ?thesis by blast
  qed
  then obtain s1 us1 x fs1 where s1: "free_step s ah = (x, s1)" "malloc_head s1 = ?h" "half_merged s1 us1 x vs fs1"
    "x \<le> ah" "ah + a_size s ah \<le> x + a_size s1 x" "used_in s1 (us1 @ x # vs) = used_in s (us @ vs)"
    by blast
  have n: "a_next s1 x = a_next s ah"
    using ring_next [OF assms(1)] s1(2,3) ring_next [of "a_next s1" "a_prev s1" ?h us1 x vs]
    by (simp add: half_merged_def)
  let ?nah = "a_next s ah"
  define s2 where "s2 = (if a_type s1 ?nah = ARENA_TYPE_FREE \<and> x + a_size s1 x = ?nah then
      remove_from_chains (s1\<lparr>a_size := (a_size s1)(x := a_size s1 x + a_size s1 ?nah)\<rparr>) ?nah else s1)"
  have fb: "free_block s ah = (x, s2)"
    using s1(1) by (simp add: free_block_steps Let_def s2_def)
  obtain vs' fs' where f: "arena_rep s2 (us1 @ x # vs') fs'" "x \<in> set fs'" "malloc_head s2 = malloc_head s1"
    "a_size s1 x \<le> a_size s2 x" "used_in s2 (us1 @ x # vs') = used_in s1 (us1 @ x # vs)"
    using finish_merge [OF s1(3)] unfolding n s2_def [symmetric] by blast
  have "malloc_head s2 = ?h" "ah + a_size s ah \<le> x + a_size s2 x" "used_in s2 (us1 @ x # vs') = used_in s (us @ vs)"
    using f s1 by simp_all
  with fb f(1,2) s1(4) show ?thesis by blast
qed

section \<open>The searches\<close>

lemma arena_find_rep:
  assumes "arena_rep s as (ps @ rest)"
  shows "arena_find s sz (behind (malloc_head s) rest) = Some (find (\<lambda>a. sz \<le> a_size s a) rest)"
  using assms
proof (induction rest arbitrary: ps)
  case Nil
  then show ?case
    by (subst arena_find.simps) (simp add: arena_rep_def blocks_ok_def)
next
  case (Cons a rest)
  have "a_type s a = ARENA_TYPE_FREE"
    using Cons.prems by (auto simp: arena_rep_def free_in_def)
  moreover have "next_free s a = behind (malloc_head s) rest"
    using Cons.prems ring_next by (fastforce simp: arena_rep_def)
  ultimately show ?case
    using Cons.IH [of "ps @ [a]"] Cons.prems by (subst arena_find.simps) simp
qed

lemma arena_pred_sorted:
  assumes "ring (a_next s) (a_prev s) h (us @ vs)" "a_type s h = ARENA_TYPE_HEAD"
    "\<forall>a \<in> set us. a_type s a \<noteq> ARENA_TYPE_HEAD" "sorted us"
  shows "arena_pred s fp (before h us) = Some (before h (takeWhile (\<lambda>a. a < fp) us))"
  using assms
proof (induction us arbitrary: vs rule: rev_induct)
  case Nil
  then show ?case by (subst arena_pred.simps) simp
next
  case (snoc a us)
  have p: "a_prev s a = before h us"
    using ring_next [of "a_next s" "a_prev s" h us a vs] snoc.prems(1) by simp
  show ?case
  proof (cases "a < fp")
    case True
    then have "\<forall>b \<in> set us. b < fp"
      using snoc.prems(4) by (auto simp: sorted_append)
    then show ?thesis
      using True snoc.prems by (subst arena_pred.simps) (simp add: takeWhile_append2)
  next
    case False
    have "arena_pred s fp (before h us) = Some (before h (takeWhile (\<lambda>a. a < fp) us))"
      using snoc.IH [of "a # vs"] snoc.prems by (simp add: sorted_append)
    then show ?thesis
      using False p snoc.prems(3) by (subst arena_pred.simps) (simp add: takeWhile_tail)
  qed
qed

lemma blocks_sorted: "blocks_ok hp ty sz as \<Longrightarrow> sorted as"
  by (auto simp: blocks_ok_def intro: sorted_wrt_mono_rel [of _ "\<lambda>a b. a + sz a \<le> b"])

section \<open>Rounding\<close>

lemma unat_and_not_mask: "unat (w AND NOT (mask k)) = unat (w :: 'a::len word) div 2 ^ k * 2 ^ k"
proof -
  have "w AND NOT (mask k) = push_bit k (drop_bit k w)"
    by (rule bit_word_eqI) (auto simp: bit_and_iff bit_not_iff bit_mask_iff bit_push_bit_iff bit_drop_bit_eq)
  moreover have "unat (push_bit k (drop_bit k w)) = take_bit LENGTH('a) (unat w div 2 ^ k * 2 ^ k)"
    by (subst unsigned_push_bit_eq) (simp only: push_bit_eq_mult unat_drop_bit)
  moreover have "unat w div 2 ^ k * 2 ^ k < 2 ^ LENGTH('a)"
    by (rule le_less_trans [OF _ unsigned_less [of w]]) simp
  ultimately show ?thesis
    by (simp add: take_bit_nat_eq_self)
qed

definition arena_ok :: "64 word \<Rightarrow> bool" where
  "arena_ok sz \<longleftrightarrow> sz \<noteq> 0 \<and> unat sz + 2 ^ 17 < 2 ^ 64"

lemma arena_request_eq:
  assumes "arena_ok sz"
  shows "unat (arena_request sz) = (unat sz + 63) div 32 * 32"
proof -
  have m: "word_of_nat arena_header_size - 1 = (mask 5 :: 64 word)"
    by (simp add: arena_header_size_def mask_eq_exp_minus_1)
  have "unat (sz + 2 * word_of_nat arena_header_size - 1) = unat sz + 63"
    using assms unat_of_nat64 [of "unat sz + 63"]
    by (simp add: arena_header_size_def arena_ok_def add.commute [of sz])
  then show ?thesis
    unfolding arena_request_def m unat_and_not_mask by simp
qed

lemma arena_request_bounds:
  assumes "arena_ok sz"
  shows "64 \<le> unat (arena_request sz)" "32 dvd unat (arena_request sz)" "unat sz + 32 \<le> unat (arena_request sz)"
    "unat (arena_request sz) \<le> unat sz + 63"
proof -
  have "0 < unat sz"
    using assms by (simp add: arena_ok_def unat_gt_0)
  then show "64 \<le> unat (arena_request sz)" "32 dvd unat (arena_request sz)" "unat sz + 32 \<le> unat (arena_request sz)"
    "unat (arena_request sz) \<le> unat sz + 63"
    unfolding arena_request_eq [OF assms] by auto
qed

lemma chunk_round:
  assumes "arena_ok sz"
  shows "unat ((arena_request sz + (chunk_size - 1)) AND NOT (chunk_size - 1)) =
    (unat (arena_request sz) + 65535) div 65536 * 65536"
proof -
  have m: "chunk_size - 1 = (mask 16 :: 64 word)"
    by (simp add: chunk_size_def mask_eq_exp_minus_1)
  have "unat (arena_request sz + (mask 16)) = unat (arena_request sz) + 65535"
    using assms arena_request_bounds(4) [OF assms] by (simp add: unat_word_ariths arena_ok_def mask_eq_exp_minus_1)
  then show ?thesis
    unfolding m unat_and_not_mask by simp
qed

section \<open>Allocation\<close>

lemma malloc_from_block_rep:
  assumes "arena_rep s as fs" "fp \<in> set fs" "sz \<le> a_size s fp" "64 \<le> sz" "32 dvd sz"
  shows "\<exists>s' as' fs' z. malloc_from_block s fp sz = (fp + 32, s') \<and> malloc_head s' = malloc_head s \<and>
    arena_rep s' as' fs' \<and> sz \<le> z \<and> used_in s' as' = insert (fp, z) (used_in s as) \<and> fp \<notin> fst ` used_in s as"
proof -
  have "fp \<notin> fst ` used_in s as"
    using assms(1,2) by (auto simp: arena_rep_def free_in_def used_in_def)
  then show ?thesis
  proof (cases "sz + 64 \<le> a_size s fp")
    case True
    with malloc_from_block_split [OF assms(1,2) True assms(4,5)] \<open>fp \<notin> fst ` used_in s as\<close> show ?thesis by blast
  next
    case False
    then have "a_size s fp < sz + 64" by simp
    from malloc_from_block_whole [OF assms(1,2) this assms(3)] \<open>fp \<notin> fst ` used_in s as\<close> show ?thesis by blast
  qed
qed

text \<open>What \<^verbatim>\<open>mmap\<close> promises: an address returned is page aligned, not null, and the new mapping overlaps neither the
  head node nor a block of the arena.\<close>

definition mmap_ok :: "(arena \<Rightarrow> nat \<Rightarrow> addr option) \<Rightarrow> bool" where
  "mmap_ok mmap \<longleftrightarrow> (\<forall>s as fs n a. arena_rep s as fs \<and> 0 < n \<and> mmap s n = Some a \<longrightarrow>
     0 < a \<and> 4096 dvd a \<and> (malloc_head s < a \<or> a + n \<le> malloc_head s) \<and>
     (\<forall>b \<in> set as. a + n \<le> b \<or> b + a_size s b \<le> a))"

text \<open>Linking a new mapping into the sorted chain and the free chain.\<close>

definition grow_arena :: "arena \<Rightarrow> addr \<Rightarrow> nat \<Rightarrow> addr \<Rightarrow> arena" where
  "grow_arena s fp n pah = (let s = s\<lparr>a_type := (a_type s)(fp := ARENA_TYPE_FREE)\<rparr>;
     s = s\<lparr>a_size := (a_size s)(fp := n)\<rparr>;
     s = s\<lparr>a_next := (a_next s)(fp := a_next s pah)\<rparr>;
     s = s\<lparr>a_prev := (a_prev s)(fp := pah)\<rparr>;
     s = s\<lparr>a_next := (a_next s)(pah := fp)\<rparr>
     in s\<lparr>a_prev := (a_prev s)(a_next s fp := fp)\<rparr>)"

lemma sorted_dropWhile_ge: "sorted as \<Longrightarrow> b \<in> set (dropWhile (\<lambda>a. a < fp) as) \<Longrightarrow> fp \<le> (b :: nat)"
  by (induction as) (auto split: if_splits)

lemma grow_arena_rep:
  assumes R: "arena_rep s as fs" and n: "65536 dvd n" "0 < n" and fp: "0 < fp" "4096 dvd fp"
    "malloc_head s < fp \<or> fp + n \<le> malloc_head s" "\<forall>b \<in> set as. fp + n \<le> b \<or> b + a_size s b \<le> fp"
  defines "s1 \<equiv> s\<lparr>a_type := (a_type s)(fp := ARENA_TYPE_FREE), a_size := (a_size s)(fp := n)\<rparr>"
  shows "\<exists>pah x s' as' fs'. arena_pred s1 fp (a_prev s1 (malloc_head s1)) = Some pah \<and>
    free_block (grow_arena s fp n pah) fp = (x, s') \<and> malloc_head s' = malloc_head s \<and> arena_rep s' as' fs' \<and>
    x \<in> set fs' \<and> n \<le> a_size s' x \<and> used_in s' as' = used_in s as"
proof -
  let ?h = "malloc_head s"
  note R' = R [unfolded arena_rep_def]
  define us where "us = takeWhile (\<lambda>a. a < fp) as"
  define vs where "vs = dropWhile (\<lambda>a. a < fp) as"
  have as: "as = us @ vs" by (simp add: us_def vs_def)
  have so: "sorted as" using R' blocks_sorted by blast
  have ok: "block_ok ?h (a_type s) (a_size s) b" if "b \<in> set as" for b
    using R' that by (simp add: blocks_ok_def)
  have lo: "\<forall>b \<in> set us. b + a_size s b \<le> fp"
  proof
    fix b assume "b \<in> set us"
    then have "b < fp" "b \<in> set as" by (auto simp: us_def dest: set_takeWhileD)
    then show "b + a_size s b \<le> fp" using fp(4) by force
  qed
  have hi: "\<forall>b \<in> set vs. fp + n \<le> b"
  proof
    fix b assume b: "b \<in> set vs"
    then have "b \<in> set as" by (simp add: as)
    moreover have "fp \<le> b"
      by (rule sorted_dropWhile_ge [OF so b [unfolded vs_def]])
    ultimately show "fp + n \<le> b"
      using fp(4) ok [of b] by (force simp: block_ok_def)
  qed
  have al: "32 dvd fp" "32 dvd n" "64 \<le> n"
    using dvd_trans [OF _ fp(2), of 32] dvd_trans [OF _ n(1), of 32] dvd_imp_le [OF n] by auto
  have B: "blocks_ok ?h ((a_type s)(fp := ARENA_TYPE_FREE)) ((a_size s)(fp := n)) (us @ fp # vs)"
    "fp \<notin> set (?h # us @ vs)"
    using blocks_ok_insert [of ?h "a_type s" "a_size s" us vs fp n ARENA_TYPE_FREE] R' fp(1-3) al lo hi as by auto
  define p where "p = before ?h us"
  define z where "z = behind ?h vs"
  have link: "a_next s p = z"
    using ring_link [of "a_next s" "a_prev s" ?h us vs] R' as by (simp add: p_def z_def)
  have ne: "p \<noteq> fp" "?h \<noteq> fp"
    using B(2) before_in [of ?h us] unfolding p_def by auto
  have pred: "arena_pred s1 fp (a_prev s1 (malloc_head s1)) = Some p"
    using arena_pred_sorted [of s1 ?h as "[]" fp] ring_last [of "a_next s" "a_prev s" ?h as] R' so ok B(2) ne
    unfolding us_def [symmetric] p_def by (auto simp: s1_def block_ok_def blocks_ok_def as)
  define s2 where "s2 = grow_arena s fp n p"
  have g: "a_type s2 = (a_type s)(fp := ARENA_TYPE_FREE)" "a_size s2 = (a_size s)(fp := n)"
    "a_next s2 = (a_next s)(fp := z, p := fp)" "a_prev s2 = (a_prev s)(fp := p, z := fp)"
    "next_free s2 = next_free s" "prev_free s2 = prev_free s" "malloc_head s2 = ?h"
    using link ne(1) by (simp_all add: s2_def grow_arena_def Let_def)
  have ring: "ring (a_next s2) (a_prev s2) (malloc_head s2) (us @ fp # vs)"
    unfolding g p_def z_def using R' B(2) as by (intro ring_insert) auto
  have ap: "successively (apart (a_type s2) (a_size s2)) us" "successively (apart (a_type s2) (a_size s2)) vs"
  proof -
    have "successively (apart (a_type s) (a_size s)) (us @ vs)"
      using R' as by simp
    then show "successively (apart (a_type s2) (a_size s2)) us" "successively (apart (a_type s2) (a_size s2)) vs"
      unfolding successively_append_iff g using B(2) by (auto elim!: apart_cong)
  qed
  have free: "set fs = free_in (a_type s2) (us @ vs)"
    unfolding g using R' B(2) by (auto simp: free_in_def as)
  have used: "used_in s2 (us @ vs) = used_in s as"
    using B(2) as by (intro used_in_eqI) (auto simp: used_in_iff g)
  from free_block_rep [OF ring _ _ free ap] obtain x s' as' fs' where
    "free_block s2 fp = (x, s')" "malloc_head s' = ?h" "arena_rep s' as' fs'" "x \<in> set fs'" "x \<le> fp"
    "fp + n \<le> x + a_size s' x" "used_in s' as' = used_in s as"
    using R' B(1) used by (auto simp: g)
  moreover from this have "n \<le> a_size s' x" by linarith
  ultimately show ?thesis using pred unfolding s2_def by blast
qed

lemma malloc_orig_rep:
  assumes R: "arena_rep s as fs" and ok: "arena_ok sz" and mm: "mmap_ok mmap"
  shows "\<exists>p s' as' fs'. malloc_impl_orig mmap s sz = Some (p, s') \<and> malloc_head s' = malloc_head s \<and>
    arena_rep s' as' fs' \<and>
    (if p = NULL then s' = s \<and> as' = as \<and> (\<exists>n. unat sz + 32 \<le> n \<and> mmap s n = None)
     else \<exists>a z. p = a + 32 \<and> unat sz + 32 \<le> z \<and> a \<notin> fst ` used_in s as \<and>
       used_in s' as' = insert (a, z) (used_in s as))"
proof -
  let ?n = "unat (arena_request sz)"
  note b = arena_request_bounds [OF ok]
  have nz: "sz \<noteq> 0" using ok by (simp add: arena_ok_def)
  have find: "arena_find s ?n (next_free s (malloc_head s)) = Some (find (\<lambda>a. ?n \<le> a_size s a) fs)"
    using arena_find_rep [of s as "[]" fs] R ring_first [of "next_free s" "prev_free s" "malloc_head s" fs]
    by (simp add: arena_rep_def)
  show ?thesis
  proof (cases "find (\<lambda>a. ?n \<le> a_size s a) fs")
    case (Some fp)
    then have fp: "fp \<in> set fs" "?n \<le> a_size s fp"
      by (auto simp: find_Some_iff)
    from malloc_from_block_rep [OF R fp b(1,2)] obtain s' as' fs' z where
      m: "malloc_from_block s fp ?n = (fp + 32, s')" "malloc_head s' = malloc_head s" "arena_rep s' as' fs'" "?n \<le> z"
      "used_in s' as' = insert (fp, z) (used_in s as)" "fp \<notin> fst ` used_in s as"
      by blast
    have "malloc_impl_orig mmap s sz = Some (fp + 32, s')"
      using nz find Some m(1) by (simp add: malloc_impl_orig_def Let_def)
    moreover have "unat sz + 32 \<le> z" "fp + 32 \<noteq> NULL" using b(3) m(4) by auto
    ultimately show ?thesis using m by auto
  next
    case None
    define n where "n = unat ((arena_request sz + (chunk_size - 1)) AND NOT (chunk_size - 1))"
    have n: "65536 dvd n" "0 < n" "?n \<le> n"
      using chunk_round [OF ok] b(1) unfolding n_def by auto
    show ?thesis
    proof (cases "mmap s n")
      case None': None
      have "malloc_impl_orig mmap s sz = Some (NULL, s)"
        using nz find None None' by (simp add: malloc_impl_orig_def Let_def n_def)
      moreover have "unat sz + 32 \<le> n" using b(3) n(3) by simp
      ultimately show ?thesis using R None' by auto
    next
      case (Some fp)
      have fp: "0 < fp" "4096 dvd fp" "malloc_head s < fp \<or> fp + n \<le> malloc_head s"
        "\<forall>b \<in> set as. fp + n \<le> b \<or> b + a_size s b \<le> fp"
        using mm R n(2) Some unfolding mmap_ok_def by blast+
      let ?s1 = "s\<lparr>a_type := (a_type s)(fp := ARENA_TYPE_FREE), a_size := (a_size s)(fp := n)\<rparr>"
      from grow_arena_rep [OF R n(1,2) fp] obtain pah x s' as' fs' where
        g: "arena_pred ?s1 fp (a_prev ?s1 (malloc_head ?s1)) = Some pah"
          "free_block (grow_arena s fp n pah) fp = (x, s')" "malloc_head s' = malloc_head s" "arena_rep s' as' fs'"
          "x \<in> set fs'" "n \<le> a_size s' x" "used_in s' as' = used_in s as"
        by blast
      have "?n \<le> a_size s' x" using g(6) n(3) by simp
      from malloc_from_block_rep [OF g(4,5) this b(1,2)] obtain s'' as'' fs'' z where
        m: "malloc_from_block s' x ?n = (x + 32, s'')" "malloc_head s'' = malloc_head s'" "arena_rep s'' as'' fs''"
          "?n \<le> z" "used_in s'' as'' = insert (x, z) (used_in s' as')" "x \<notin> fst ` used_in s' as'"
        by blast
      have "malloc_impl_orig mmap s sz = Some (malloc_from_block s' x ?n)"
        using nz find None Some g(1,2)
        by (simp add: malloc_impl_orig_def Let_def n_def [symmetric] grow_arena_def)
      moreover have "unat sz + 32 \<le> z" "x + 32 \<noteq> NULL" using b(3) m(4) by auto
      ultimately show ?thesis using m g(3,7) by auto
    qed
  qed
qed

end
