(* ===== verification/ArenaFree.thy ===== *)
theory ArenaFree
  imports Arena
begin

text \<open>
  Freeing in the arena allocator: \<^verbatim>\<open>free_impl_orig\<close> keeps the invariant of the arena, including when it gives whole
  pages back with \<^verbatim>\<open>munmap\<close>, and the allocator contract of \<open>Alloc\<close> holds for \<^verbatim>\<open>malloc_impl_orig\<close>.
\<close>

section \<open>Giving memory back\<close>

text \<open>The invariant without the last conjunct: both chains and the blocks are in order.\<close>

definition chains_ok :: "arena \<Rightarrow> addr list \<Rightarrow> addr list \<Rightarrow> bool" where
  "chains_ok s as fs \<longleftrightarrow>
     ring (a_next s) (a_prev s) (malloc_head s) as \<and>
     ring (next_free s) (prev_free s) (malloc_head s) fs \<and>
     blocks_ok (malloc_head s) (a_type s) (a_size s) as \<and> set fs = free_in (a_type s) as"

lemma arena_rep_chains:
  "arena_rep s as fs \<longleftrightarrow> chains_ok s as fs \<and> successively (apart (a_type s) (a_size s)) as"
  by (auto simp: arena_rep_def chains_ok_def)

lemma chains_ok_distinct: "chains_ok s as fs \<Longrightarrow> distinct as \<and> malloc_head s \<notin> set as"
  by (simp add: chains_ok_def ring_def)

lemma chains_ok_resize:
  assumes "chains_ok s (us @ x # vs) fs" "64 \<le> n" "32 dvd n" "n \<le> a_size s x"
  shows "chains_ok (s\<lparr>a_size := (a_size s)(x := n)\<rparr>) (us @ x # vs) fs"
proof -
  have B: "blocks_ok (malloc_head s) (a_type s) (a_size s) (us @ x # vs)"
    using assms(1) by (simp add: chains_ok_def)
  then have "blocks_ok (malloc_head s) (a_type s) ((a_size s)(x := n)) (us @ x # vs)"
    using assms(2-4) by (intro blocks_ok_resize) (auto simp: blocks_ok_simps block_ok_def)
  then show ?thesis
    using assms(1) by (simp add: chains_ok_def)
qed

lemma chains_ok_remove:
  assumes "chains_ok s (us @ x # vs) fs" "x \<in> set fs"
  shows "\<exists>fs'. chains_ok (remove_from_chains s x) (us @ vs) fs'"
proof -
  let ?h = "malloc_head s"
  obtain as bs where fs: "fs = as @ x # bs"
    using assms(2) by (auto simp: in_set_conv_decomp)
  have R: "ring (a_next s) (a_prev s) ?h (us @ x # vs)" "ring (next_free s) (prev_free s) ?h (as @ x # bs)"
    "blocks_ok ?h (a_type s) (a_size s) (us @ x # vs)" "set fs = free_in (a_type s) (us @ x # vs)"
    using assms(1) by (auto simp: chains_ok_def fs)
  have "x \<notin> set us" "x \<notin> set vs" using ring_distinct [OF R(1)] by auto
  moreover have "set (as @ bs) = set fs - {x}"
    using ring_distinct [OF R(2)] by (auto simp: fs)
  ultimately have "set (as @ bs) = free_in (a_type s) (us @ vs)"
    unfolding R(4) by (auto simp: free_in_def)
  then have "chains_ok (remove_from_chains s x) (us @ vs) (as @ bs)"
    using ring_remove [OF R(1)] ring_remove [OF R(2)] blocks_ok_remove [OF R(3)]
    by (simp add: chains_ok_def remove_from_chains_def remove_from_free_chain_def remove_from_main_chain_def Let_def)
  then show ?thesis by blast
qed

text \<open>Cutting the tail \<open>n\<close> off the free block \<open>x\<close>, with the new size of \<open>x\<close>.\<close>

lemma cut_tail_eq:
  "cut_tail s x t n = s\<lparr>a_type := (a_type s)(t := ARENA_TYPE_FREE), a_size := (a_size s)(t := n),
     a_next := (a_next s)(t := a_next s x, x := t), a_prev := (a_prev s)(a_next s x := t, t := x),
     next_free := (next_free s)(prev_free s x := t, t := x), prev_free := (prev_free s)(t := prev_free s x, x := t)\<rparr>"
  by (simp add: cut_tail_def Let_def)

lemma chains_ok_cut_tail:
  assumes "chains_ok s (us @ x # vs) fs" "x \<in> set fs" "64 \<le> n" "32 dvd n" "n + 64 \<le> a_size s x"
  defines "t \<equiv> x + (a_size s x - n)"
  shows "\<exists>fs'. chains_ok ((cut_tail s x t n)\<lparr>a_size := (a_size (cut_tail s x t n))(x := a_size s x - n)\<rparr>) (us @ x # t # vs) fs' \<and>
    x \<in> set fs' \<and> t \<notin> set (us @ x # vs)"
proof -
  let ?h = "malloc_head s"
  obtain as bs where fs: "fs = as @ x # bs"
    using assms(2) by (auto simp: in_set_conv_decomp)
  have R: "ring (a_next s) (a_prev s) ?h (us @ x # vs)" "ring (next_free s) (prev_free s) ?h (as @ x # bs)"
    "blocks_ok ?h (a_type s) (a_size s) (us @ x # vs)" "set fs = free_in (a_type s) (us @ x # vs)"
    using assms(1) by (auto simp: chains_ok_def fs)
  have fx: "a_type s x = ARENA_TYPE_FREE"
    using assms(2) R(4) by (auto simp: free_in_def)
  have ok: "64 \<le> a_size s x - n" "32 dvd a_size s x - n" "a_size s x - n + 64 \<le> a_size s x"
    using assms(3-5) R(3) by (auto simp: blocks_ok_simps block_ok_def)
  have B: "blocks_ok ?h ((a_type s)(t := ARENA_TYPE_FREE, x := ARENA_TYPE_FREE))
      ((a_size s)(t := n, x := a_size s x - n)) (us @ x # t # vs)" "t \<notin> set (?h # us @ x # vs)"
    using blocks_ok_split [OF R(3) ok(3,1,2), of ARENA_TYPE_FREE ARENA_TYPE_FREE] assms(5) unfolding t_def by auto
  have tyx: "(a_type s)(t := ARENA_TYPE_FREE, x := ARENA_TYPE_FREE) = (a_type s)(t := ARENA_TYPE_FREE)"
    using fx B(2) by (auto simp: fun_eq_iff)
  have sub: "set fs \<subseteq> set (us @ x # vs)"
    using R(4) by (auto simp: free_in_def)
  then have tn: "t \<notin> set (?h # as @ x # bs)"
    using B(2) by (auto simp: fs)
  define z where "z = behind ?h vs"
  define p where "p = before ?h as"
  have l: "a_next s x = z" "prev_free s x = p"
    using ring_next [OF R(1)] ring_next [OF R(2)] by (auto simp: z_def p_def)
  have ne: "t \<noteq> z" "t \<noteq> p" "t \<noteq> x"
    using B(2) behind_in [of vs ?h] before_in [of ?h as] sub unfolding z_def p_def fs by auto
  have main: "ring ((a_next s)(t := z, x := t)) ((a_prev s)(t := x, z := t)) ?h (us @ x # t # vs)"
    using ring_insert [of "a_next s" "a_prev s" ?h "us @ [x]" vs t] R(1) B(2) by (simp add: z_def)
  have free: "ring ((next_free s)(t := x, p := t)) ((prev_free s)(t := p, x := t)) ?h (as @ t # x # bs)"
    using ring_insert [OF R(2) tn] by (simp only: p_def append_Cons list.sel)
  have com: "(a_prev s)(t := x, z := t) = (a_prev s)(z := t, t := x)"
    "(next_free s)(t := x, p := t) = (next_free s)(p := t, t := x)"
    using ne by (auto simp: fun_eq_iff)
  have "set (as @ t # x # bs) = free_in ((a_type s)(t := ARENA_TYPE_FREE)) (us @ x # t # vs)"
    using R(4) B(2) by (auto simp: fs free_in_def)
  then have "chains_ok ((cut_tail s x t n)\<lparr>a_size := (a_size (cut_tail s x t n))(x := a_size s x - n)\<rparr>) (us @ x # t # vs)
      (as @ t # x # bs)"
    using main free B(1) unfolding chains_ok_def cut_tail_eq l com tyx by simp
  then show ?thesis
    using B(2) by auto
qed

lemma chains_ok_size_outside:
  assumes "chains_ok (s\<lparr>a_size := (a_size s)(x := n)\<rparr>) as fs" "x \<notin> set as"
  shows "chains_ok s as fs"
proof -
  have "blocks_ok (malloc_head s) (a_type s) ((a_size s)(x := n)) as"
    using assms(1) by (simp add: chains_ok_def)
  then have "blocks_ok (malloc_head s) (a_type s) (a_size s) as"
    using assms(2) by (elim blocks_ok_cong) auto
  then show ?thesis
    using assms(1) by (simp add: chains_ok_def)
qed

lemma trim_chains:
  assumes R: "chains_ok s (us @ x # vs) fs" "x \<in> set fs"
    and ht: "head = 0 \<or> 64 \<le> head" "32 dvd head" "tail = 0 \<or> 64 \<le> tail" "32 dvd tail" "head + tail + 64 \<le> a_size s x"
  defines "t \<equiv> x + (a_size s x - tail)"
  defines "xs \<equiv> (if head \<noteq> 0 then [x] else [])" and "ts \<equiv> (if tail \<noteq> 0 then [t] else [])"
  shows "\<exists>fs'. chains_ok (trim_block s x head tail) (us @ xs @ ts @ vs) fs' \<and> (tail \<noteq> 0 \<longrightarrow> t \<notin> set (us @ x # vs))"
proof -
  define s1 where "s1 = (if tail \<noteq> 0 then cut_tail s x t tail else s)"
  define g where "g = s1\<lparr>a_size := (a_size s1)(x := a_size s x - tail)\<rparr>"
  have t: "x + head + (a_size s x - head - tail) = t"
    using ht(5) by (simp add: t_def)
  have e: "trim_block s x head tail = (if head \<noteq> 0 then s1\<lparr>a_size := (a_size s1)(x := head)\<rparr> else remove_from_chains s1 x)"
    by (simp only: trim_block_def s1_def t Let_def)
  obtain fs1 where g: "chains_ok g (us @ x # ts @ vs) fs1" "x \<in> set fs1" "tail \<noteq> 0 \<longrightarrow> t \<notin> set (us @ x # vs)"
  proof (cases "tail = 0")
    case True
    then have "g = s" by (simp add: g_def s1_def)
    with True R show ?thesis by (intro that) (simp_all add: ts_def)
  next
    case False
    with chains_ok_cut_tail [OF R, of tail] ht(3-5) show ?thesis
      by (auto simp: ts_def g_def s1_def t_def intro: that)
  qed
  show ?thesis
  proof (cases "head = 0")
    case True
    obtain fs2 where c: "chains_ok (remove_from_chains g x) (us @ ts @ vs) fs2"
      using chains_ok_remove [OF g(1,2)] by blast
    have x: "x \<notin> set (us @ ts @ vs)"
      using chains_ok_distinct [OF g(1)] by auto
    have "remove_from_chains g x = (remove_from_chains s1 x)\<lparr>a_size := (a_size (remove_from_chains s1 x))(x := a_size s x - tail)\<rparr>"
      by (simp add: g_def remove_from_chains_def remove_from_free_chain_def remove_from_main_chain_def Let_def)
    then have "chains_ok (remove_from_chains s1 x) (us @ ts @ vs) fs2"
      using c x chains_ok_size_outside by metis
    then show ?thesis
      using True e g(3) by (auto simp: xs_def)
  next
    case False
    have "chains_ok (g\<lparr>a_size := (a_size g)(x := head)\<rparr>) (us @ x # ts @ vs) fs1"
      by (rule chains_ok_resize [OF g(1)]) (use False ht in \<open>auto simp: g_def\<close>)
    moreover have "g\<lparr>a_size := (a_size g)(x := head)\<rparr> = trim_block s x head tail"
      using False by (simp add: e g_def)
    ultimately show ?thesis
      using False g(3) by (auto simp: xs_def)
  qed
qed

lemma trim_fields:
  "malloc_head (trim_block s x head tail) = malloc_head s"
  "a_type (trim_block s x head tail) = (if tail \<noteq> 0 then (a_type s)(x + head + (a_size s x - head - tail) := ARENA_TYPE_FREE) else a_type s)"
  "a_size (trim_block s x head tail) =
     (let sz = (if tail \<noteq> 0 then (a_size s)(x + head + (a_size s x - head - tail) := tail) else a_size s)
      in if head \<noteq> 0 then sz(x := head) else sz)"
  by (simp_all add: trim_block_def cut_tail_eq remove_from_chains_def remove_from_free_chain_def
    remove_from_main_chain_def Let_def)

lemma trim_rep:
  assumes R: "arena_rep s as fs" "x \<in> set fs"
    and ht: "head = 0 \<or> 64 \<le> head" "32 dvd head" "tail = 0 \<or> 64 \<le> tail" "32 dvd tail" "head + tail + 64 \<le> a_size s x"
  shows "\<exists>as' fs'. arena_rep (trim_block s x head tail) as' fs' \<and> used_in (trim_block s x head tail) as' = used_in s as \<and>
    (\<forall>a \<in> set as'. a + a_size (trim_block s x head tail) a \<le> x + head \<or> x + (a_size s x - tail) \<le> a)"
proof -
  have fx: "x \<in> set as" "a_type s x = ARENA_TYPE_FREE"
    using R by (auto simp: arena_rep_def free_in_def)
  then obtain us vs where as: "as = us @ x # vs" by (auto simp: in_set_conv_decomp)
  let ?s = "trim_block s x head tail" and ?sz = "a_size s x"
  define t where "t = x + (?sz - tail)"
  define xs where "xs = (if head \<noteq> 0 then [x] else [])"
  define ts where "ts = (if tail \<noteq> 0 then [t] else [])"
  have c: "chains_ok s (us @ x # vs) fs" and ap: "successively (apart (a_type s) (a_size s)) (us @ x # vs)"
    using R(1) by (auto simp: arena_rep_chains as)
  obtain fs' where c': "chains_ok ?s (us @ xs @ ts @ vs) fs'" and tn: "tail \<noteq> 0 \<longrightarrow> t \<notin> set (us @ x # vs)"
    using trim_chains [OF c R(2) ht] unfolding xs_def ts_def t_def by blast
  have d: "x \<notin> set us" "x \<notin> set vs"
    using chains_ok_distinct [OF c] by auto
  have lo: "\<forall>a \<in> set us. a + a_size s a \<le> x" and hi: "\<forall>a \<in> set vs. x + ?sz \<le> a"
    using c by (auto simp: chains_ok_def blocks_ok_simps)
  have tt: "x + head + (?sz - head - tail) = t" using ht(5) by (simp add: t_def)
  have ty: "a_type ?s = (if tail \<noteq> 0 then (a_type s)(t := ARENA_TYPE_FREE) else a_type s)"
    by (simp only: trim_fields tt)
  have sz: "a_size ?s a = a_size s a" "a_type ?s a = a_type s a" if "a \<in> set us \<union> set vs" for a
    using that d tn unfolding trim_fields tt Let_def by auto
  have szx: "head \<noteq> 0 \<Longrightarrow> a_size ?s x = head" "tail \<noteq> 0 \<Longrightarrow> a_size ?s t = tail"
    "tail \<noteq> 0 \<Longrightarrow> a_type ?s t = ARENA_TYPE_FREE" "a_type ?s x = ARENA_TYPE_FREE"
    using tn fx(2) unfolding trim_fields tt Let_def by auto
  have au: "successively (apart (a_type ?s) (a_size ?s)) us" "successively (apart (a_type ?s) (a_size ?s)) vs"
    using ap sz by (auto simp: successively_mid elim!: apart_cong)
  have A: "us \<noteq> [] \<Longrightarrow> apart (a_type ?s) (a_size ?s) (last us) x"
    using ap sz fx(2) szx(4) by (auto simp: successively_mid apart_def)
  have gt: "x < t" "x + head < t" "\<And>b. b \<in> set vs \<Longrightarrow> x < b"
    using ht(5) hi by (auto simp: t_def dest!: bspec)
  have J1: "apart (a_type ?s) (a_size ?s) a b" if "a \<in> set us" "x < b" for a b
    using lo that sz(1) [of a] by (auto simp: apart_def)
  have J2: "apart (a_type ?s) (a_size ?s) x b" if "head \<noteq> 0" "x + head < b" for b
    using szx(1) that by (simp add: apart_def)
  have J3: "apart (a_type ?s) (a_size ?s) t (hd vs)" if "tail \<noteq> 0" "vs \<noteq> []"
    using ap that szx sz(2) [of "hd vs"] fx(2) ht(5) by (auto simp: apart_def successively_mid t_def)
  have J4: "x + head < hd vs" if "vs \<noteq> []"
    using hi that ht(5) by (cases vs) auto
  have xt: "a \<in> set xs \<Longrightarrow> a = x \<and> head \<noteq> 0" "a \<in> set ts \<Longrightarrow> a = t \<and> tail \<noteq> 0" for a
    by (cases "head = 0"; simp add: xs_def) (cases "tail = 0"; simp add: ts_def)
  have J5: "us \<noteq> [] \<Longrightarrow> apart (a_type ?s) (a_size ?s) (last us) t"
    "us \<noteq> [] \<Longrightarrow> vs \<noteq> [] \<Longrightarrow> apart (a_type ?s) (a_size ?s) (last us) (hd vs)"
    using gt by (auto intro!: J1)
  have "successively (apart (a_type ?s) (a_size ?s)) (us @ xs @ ts @ vs)"
    unfolding xs_def ts_def using au A J2 J3 J4 J5 gt(2)
    by (cases "head = 0"; cases "tail = 0") (auto simp: successively_append_iff successively_Cons)
  moreover have "used_in ?s (us @ xs @ ts @ vs) = used_in s as"
  proof (rule used_in_eqI)
    fix a z
    have "a \<in> set xs \<union> set ts \<Longrightarrow> a_type ?s a = ARENA_TYPE_FREE"
      using szx(3,4) xt by blast
    then show "(a, z) \<in> used_in s as \<longleftrightarrow> a \<in> set (us @ xs @ ts @ vs) \<and> a_type ?s a = ARENA_TYPE_USED \<and> z = a_size ?s a"
      using sz [of a] fx(2) by (auto simp: used_in_iff as)
  qed
  moreover have "\<forall>a \<in> set (us @ xs @ ts @ vs). a + a_size ?s a \<le> x + head \<or> x + (?sz - tail) \<le> a"
  proof
    fix a assume "a \<in> set (us @ xs @ ts @ vs)"
    then consider "a \<in> set us" | "a = x \<and> head \<noteq> 0" | "a = t" | "a \<in> set vs"
      using xt by auto
    then show "a + a_size ?s a \<le> x + head \<or> x + (?sz - tail) \<le> a"
      using lo hi sz(1) [of a] szx(1) by cases (simp_all add: t_def, fastforce+)
  qed
  ultimately show ?thesis
    using c' unfolding arena_rep_chains by blast
qed

lemma head_of_aligned:
  assumes "64 \<le> page"
  shows "page dvd x + head_of page x" "head_of page x = 0 \<or> 64 \<le> head_of page x"
proof -
  let ?h = "nat ((- int x) mod int page)"
  have "int ?h = (- int x) mod int page"
    using assms by simp
  then have "int page dvd int x + int ?h"
    by (simp add: dvd_eq_mod_eq_0 mod_add_right_eq)
  then have "page dvd x + ?h"
    by (metis int_dvd_int_iff of_nat_add)
  then show "page dvd x + head_of page x"
    by (auto simp: head_of_def Let_def arena_header_size_def add.assoc [symmetric])
  show "head_of page x = 0 \<or> 64 \<le> head_of page x"
    using assms by (auto simp: head_of_def Let_def arena_header_size_def)
qed

lemma tail_of_aligned:
  assumes "64 \<le> page" "tail_of page e \<le> e"
  shows "page dvd e - tail_of page e" "tail_of page e = 0 \<or> 64 \<le> tail_of page e"
proof -
  have "page dvd e - e mod page" by (rule dvd_minus_mod)
  then have "page dvd e - e mod page - page"
    by (rule dvd_diff_nat) simp
  then show "page dvd e - tail_of page e"
    using \<open>page dvd e - e mod page\<close> by (auto simp: tail_of_def Let_def arena_header_size_def diff_diff_left)
  show "tail_of page e = 0 \<or> 64 \<le> tail_of page e"
    using assms by (auto simp: tail_of_def Let_def arena_header_size_def)
qed

lemma free_orig_rep:
  assumes R: "arena_rep s as fs" and u: "(a, z) \<in> used_in s as" and page: "64 \<le> page" "32 dvd page"
  shows "\<exists>r s' as' fs'. free_impl_orig page s (a + 32) = (r, s') \<and> malloc_head s' = malloc_head s \<and>
    arena_rep s' as' fs' \<and> used_in s' as' = used_in s as - {(a, z)} \<and>
    (\<forall>q n. r = Some (q, n) \<longrightarrow> page dvd q \<and> page dvd q + n \<and> 0 < n \<and>
      (\<forall>b \<in> set as'. b + a_size s' b \<le> q \<or> q + n \<le> b))"
proof -
  note R' = R [unfolded arena_rep_def]
  have a: "a \<in> set as" "a_type s a = ARENA_TYPE_USED" "z = a_size s a"
    using u by (auto simp: used_in_iff)
  obtain us vs where as: "as = us @ a # vs"
    using a(1) by (auto simp: in_set_conv_decomp)
  have d: "a \<notin> set us" "a \<notin> set vs"
    using ring_distinct [of "a_next s" "a_prev s" "malloc_head s" as] R' by (auto simp: as)
  have free: "set fs = free_in (a_type s) (us @ vs)"
    using R' a(2) by (auto simp: as free_in_def)
  have ap: "successively (apart (a_type s) (a_size s)) us" "successively (apart (a_type s) (a_size s)) vs"
    using R' by (auto simp: as successively_mid)
  have used: "used_in s (us @ vs) = used_in s as - {(a, z)}"
    using d a by (intro used_in_eqI) (auto simp: used_in_iff as)
  from free_block_rep [of s us a vs fs] R' free ap used obtain x s1 as1 fs1 where
    f: "free_block s a = (x, s1)" "malloc_head s1 = malloc_head s" "arena_rep s1 as1 fs1" "x \<in> set fs1"
      "used_in s1 as1 = used_in s as - {(a, z)}"
    by (auto simp: as)
  define h where "h = head_of page x"
  define t where "t = tail_of page (x + a_size s1 x)"
  show ?thesis
  proof (cases "h + t + 65536 \<le> a_size s1 x")
    case False
    then have "free_impl_orig page s (a + 32) = (None, s1)"
      using f(1) by (simp add: free_impl_orig_def Let_def h_def t_def arena_header_size_def chunk_size_def)
    then show ?thesis using f by blast
  next
    case True
    have e: "free_impl_orig page s (a + 32) = (Some (x + h, a_size s1 x - h - t), trim_block s1 x h t)"
      using f(1) True by (simp add: free_impl_orig_def Let_def h_def t_def arena_header_size_def chunk_size_def)
    have ok: "32 dvd x" "32 dvd a_size s1 x"
      using f(3,4) by (auto simp: arena_rep_def free_in_def blocks_ok_def block_ok_def)
    have H: "page dvd x + h" "h = 0 \<or> 64 \<le> h"
      using head_of_aligned [OF page(1)] unfolding h_def by auto
    have T: "page dvd x + a_size s1 x - t" "t = 0 \<or> 64 \<le> t"
      using tail_of_aligned [OF page(1), of "x + a_size s1 x"] True unfolding t_def by auto
    have h32: "32 dvd h"
      using dvd_trans [OF page(2) H(1)] ok(1) by (simp add: dvd_add_right_iff)
    have "32 dvd x + a_size s1 x - t"
      by (rule dvd_trans [OF page(2) T(1)])
    then have t32: "32 dvd t"
      using ok True by (metis dvd_add dvd_diffD1 le_add2 order.trans trans_le_add1 add_leD2)
    have "h + t + 64 \<le> a_size s1 x" using True by simp
    from trim_rep [OF f(3,4) H(2) h32 T(2) t32 this] obtain as' fs' where
      r: "arena_rep (trim_block s1 x h t) as' fs'" "used_in (trim_block s1 x h t) as' = used_in s1 as1"
        "\<forall>b \<in> set as'. b + a_size (trim_block s1 x h t) b \<le> x + h \<or> x + (a_size s1 x - t) \<le> b"
      by blast
    have n: "x + h + (a_size s1 x - h - t) = x + a_size s1 x - t" "x + (a_size s1 x - t) = x + a_size s1 x - t"
      using True by auto
    have "\<forall>q n. Some (x + h, a_size s1 x - h - t) = Some (q, n) \<longrightarrow> page dvd q \<and> page dvd q + n \<and> 0 < n \<and>
      (\<forall>b \<in> set as'. b + a_size (trim_block s1 x h t) b \<le> q \<or> q + n \<le> b)"
      using H(1) T(1) r(3) True unfolding n(2) by (auto simp only: n option.inject prod.inject)
    moreover have "malloc_head (trim_block s1 x h t) = malloc_head s"
      "used_in (trim_block s1 x h t) as' = used_in s as - {(a, z)}"
      using r(2) f(2,5) trim_fields(1) [of s1 x h t] by simp_all
    ultimately show ?thesis
      using e r(1) by blast
  qed
qed

section \<open>The allocator as a whole\<close>

text \<open>\<open>arena_inv s U\<close>: the arena is in order, and \<open>U\<close> is the set of the blocks in use, as header address and size.\<close>

definition arena_inv :: "arena \<Rightarrow> (addr \<times> nat) set \<Rightarrow> bool" where
  "arena_inv s U \<longleftrightarrow> (\<exists>as fs. arena_rep s as fs \<and> U = used_in s as)"

lemma blocks_ok_disjoint:
  "blocks_ok hp ty sz as \<Longrightarrow> a \<in> set as \<Longrightarrow> b \<in> set as \<Longrightarrow> a \<noteq> b \<Longrightarrow> a + sz a \<le> b \<or> b + sz b \<le> a"
  by (induction as) (auto simp: blocks_ok_Cons)

lemma arena_inv_disjoint:
  assumes "arena_inv s U" "(a, z) \<in> U" "(b, k) \<in> U" "a \<noteq> b"
  shows "a + z \<le> b \<or> b + k \<le> a"
proof -
  obtain as fs where r: "arena_rep s as fs" "U = used_in s as"
    using assms(1) by (auto simp: arena_inv_def)
  then have "blocks_ok (malloc_head s) (a_type s) (a_size s) as" by (simp add: arena_rep_def)
  from blocks_ok_disjoint [OF this, of a b] assms(2-4) show ?thesis
    by (auto simp: r(2) used_in_iff)
qed

lemma arena_inv_block: "arena_inv s U \<Longrightarrow> (a, z) \<in> U \<Longrightarrow> 0 < a \<and> 64 \<le> z"
  by (auto simp: arena_inv_def arena_rep_def blocks_ok_def block_ok_def used_in_iff)

lemma arena_inv_fun: "arena_inv s U \<Longrightarrow> (a, z) \<in> U \<Longrightarrow> (a, k) \<in> U \<Longrightarrow> z = k"
  by (auto simp: arena_inv_def used_in_iff)

lemma arena_inv_unique: "arena_inv s U \<Longrightarrow> arena_inv s V \<Longrightarrow> U = V"
  unfolding arena_inv_def arena_rep_def by (elim exE conjE) (frule (1) ring_unique, simp)

lemma initial_arena_inv: "arena_inv (initial_arena hp) {}"
proof -
  have "arena_rep (initial_arena hp) [] []"
    by (simp add: arena_rep_def initial_arena_def ring_def blocks_ok_def free_in_def)
  then show ?thesis
    by (auto simp: arena_inv_def used_in_def)
qed

lemma malloc_orig_inv:
  assumes "arena_inv s U" "arena_ok sz" "mmap_ok mmap"
  shows "\<exists>p s'. malloc_impl_orig mmap s sz = Some (p, s') \<and>
    (if p = NULL then s' = s \<and> (\<exists>n. unat sz + 32 \<le> n \<and> mmap s n = None)
     else \<exists>a z. p = a + 32 \<and> unat sz + 32 \<le> z \<and> a \<notin> fst ` U \<and> arena_inv s' (insert (a, z) U))"
proof -
  obtain as fs where r: "arena_rep s as fs" "U = used_in s as"
    using assms(1) by (auto simp: arena_inv_def)
  from malloc_orig_rep [OF r(1) assms(2,3)] obtain p s' as' fs' where
    m: "malloc_impl_orig mmap s sz = Some (p, s')" "arena_rep s' as' fs'"
      "if p = NULL then s' = s \<and> (\<exists>n. unat sz + 32 \<le> n \<and> mmap s n = None)
       else \<exists>a z. p = a + 32 \<and> unat sz + 32 \<le> z \<and> a \<notin> fst ` U \<and> used_in s' as' = insert (a, z) U"
    unfolding r(2) by (metis (no_types, lifting))
  have inv: "arena_inv s' (used_in s' as')"
    using m(2) by (auto simp: arena_inv_def)
  show ?thesis
  proof (cases "p = NULL")
    case True
    with m inv show ?thesis by auto
  next
    case False
    with m(3) obtain a z where "p = a + 32" "unat sz + 32 \<le> z" "a \<notin> fst ` U" "used_in s' as' = insert (a, z) U"
      by auto
    with m(1) inv False show ?thesis by (intro exI [of _ p] exI [of _ s']) auto
  qed
qed

lemma free_orig_inv:
  assumes "arena_inv s U" "(a, z) \<in> U" "64 \<le> page" "32 dvd page"
  shows "\<exists>r s'. free_impl_orig page s (a + 32) = (r, s') \<and> arena_inv s' (U - {(a, z)}) \<and>
    (\<forall>q n. r = Some (q, n) \<longrightarrow> page dvd q \<and> page dvd n \<and> 0 < n \<and>
      (\<forall>(b, k) \<in> U - {(a, z)}. b + k \<le> q \<or> q + n \<le> b))"
proof -
  obtain as fs where r: "arena_rep s as fs" "U = used_in s as"
    using assms(1) by (auto simp: arena_inv_def)
  note F = free_orig_rep [OF r(1) assms(2) [unfolded r(2)] assms(3,4), folded r(2)]
  from F obtain g s' as' fs' where
    f: "free_impl_orig page s (a + 32) = (g, s')" "arena_rep s' as' fs'" "used_in s' as' = U - {(a, z)}"
      "\<forall>q n. g = Some (q, n) \<longrightarrow> page dvd q \<and> page dvd q + n \<and> 0 < n \<and>
        (\<forall>b \<in> set as'. b + a_size s' b \<le> q \<or> q + n \<le> b)"
    by (elim exE conjE) (rule that)
  have "b + k \<le> q \<or> q + n \<le> b" if "g = Some (q, n)" "(b, k) \<in> U - {(a, z)}" for q n b k
  proof -
    have "(b, k) \<in> used_in s' as'" using that(2) f(3) by simp
    then have "b \<in> set as'" "k = a_size s' b" by (auto simp: used_in_iff)
    with f(4) that(1) show ?thesis by simp
  qed
  moreover have "page dvd n" if "g = Some (q, n)" for q n
    using f(4) that dvd_add_right_iff [of page q n] by simp
  moreover have "arena_inv s' (U - {(a, z)})"
    using f(2,3) by (auto simp: arena_inv_def)
  ultimately show ?thesis
    using f(1,4) by auto
qed

section \<open>The contract of an allocator, for the arena\<close>

text \<open>What \<open>malloc_impl_orig\<close> computes; it always returns on an arena that is in order.\<close>

definition arena_malloc :: "(arena \<Rightarrow> nat \<Rightarrow> addr option) \<Rightarrow> arena \<Rightarrow> 64 word \<Rightarrow> addr \<times> arena" where
  "arena_malloc mmap s sz = (case malloc_impl_orig mmap s sz of Some r \<Rightarrow> r | None \<Rightarrow> (NULL, s))"

definition arena_good :: "arena \<Rightarrow> bool" where
  "arena_good s \<longleftrightarrow> (\<exists>U. arena_inv s U)"

definition arena_used :: "arena \<Rightarrow> addr set" where
  "arena_used s = {i. \<exists>U a z. arena_inv s U \<and> (a, z) \<in> U \<and> a + 32 \<le> i \<and> i < a + z}"

lemma arena_used_inv:
  assumes "arena_inv s U"
  shows "arena_used s = (\<Union>(a, z) \<in> U. {a + 32 ..< a + z})"
proof -
  have "arena_inv s V \<longleftrightarrow> V = U" for V
    using assms arena_inv_unique by blast
  then show ?thesis unfolding arena_used_def by auto blast
qed

text \<open>The memory contains the bytes of every block the arena can hand out in its next step.\<close>

definition arena_covers :: "(arena \<Rightarrow> nat \<Rightarrow> addr option) \<Rightarrow> arena \<Rightarrow> mem \<Rightarrow> bool" where
  "arena_covers mmap s m \<longleftrightarrow> (\<forall>sz. \<forall>i \<in> arena_used (snd (arena_malloc mmap s sz)). i < length m)"

locale arena_env =
  fixes mmap :: "arena \<Rightarrow> nat \<Rightarrow> addr option"
  assumes mmap_fresh: "mmap_ok mmap"
begin

lemma arena_malloc_step:
  assumes "arena_good s" "arena_ok sz" "arena_malloc mmap s sz = (p, s')"
  shows "\<exists>U. arena_inv s U \<and> (if p = NULL then arena_inv s' U
     else \<exists>a z. p = a + 32 \<and> unat sz + 32 \<le> z \<and> a \<notin> fst ` U \<and> arena_inv s' (insert (a, z) U))"
proof -
  obtain U where U: "arena_inv s U" using assms(1) by (auto simp: arena_good_def)
  from malloc_orig_inv [OF U assms(2) mmap_fresh] assms(3) show ?thesis
    using U by (auto simp: arena_malloc_def)
qed



end

sublocale arena_env \<subseteq> allocator "arena_malloc mmap" arena_good "arena_covers mmap" arena_used "\<lambda>_. arena_ok"
proof
  fix s sz p s' and m :: mem
  assume a: "arena_good s" "arena_ok sz" "arena_malloc mmap s sz = (p, s')"
  obtain U where U: "arena_inv s U" "if p = NULL then arena_inv s' U
     else \<exists>a z. p = a + 32 \<and> unat sz + 32 \<le> z \<and> a \<notin> fst ` U \<and> arena_inv s' (insert (a, z) U)"
    using arena_malloc_step [OF a] by blast
  obtain V where V: "arena_inv s' V" "U \<subseteq> V"
    using U(2) by (auto split: if_splits)
  then show "arena_good s' \<and> arena_used s \<subseteq> arena_used s'"
    unfolding arena_used_inv [OF U(1)] arena_used_inv [OF V(1)] by (auto simp: arena_good_def)
  assume p: "p \<noteq> NULL"
  then obtain b z where b: "p = b + 32" "unat sz + 32 \<le> z" "b \<notin> fst ` U" "arena_inv s' (insert (b, z) U)"
    using U(2) by auto
  have new: "bytes_at p (unat sz) \<subseteq> arena_used s'"
    unfolding arena_used_inv [OF b(4)] using b(1,2) by (auto simp: bytes_at_def)
  have "b + z \<le> c \<or> c + k \<le> b" if "(c, k) \<in> U" for c k
    using arena_inv_disjoint [OF b(4), of b z c k] that b(3) by force
  then have "bytes_at p (unat sz) \<inter> arena_used s = {}"
    unfolding arena_used_inv [OF U(1)] using b(1,2) by (fastforce simp: bytes_at_def)
  with new show "bytes_at p (unat sz) \<inter> arena_used s = {} \<and> bytes_at p (unat sz) \<subseteq> arena_used s'" by simp
  assume "arena_covers mmap s m"
  then have "\<forall>i \<in> arena_used s'. i < length m"
    using a(3) by (metis arena_covers_def snd_conv)
  with new have "\<forall>i \<in> bytes_at p (unat sz). i < length m" by blast
  then have "unat sz \<noteq> 0 \<Longrightarrow> p + unat sz - 1 < length m"
    by (auto simp: bytes_at_def)
  then show "mapped m p (unat sz)"
    using p by (cases "unat sz") (auto simp: mapped_def)
qed

text \<open>A kernel that maps upwards: behind the last block of the arena and the head node, on a page boundary.\<close>

definition mmap_up :: "arena \<Rightarrow> nat \<Rightarrow> addr option" where
  "mmap_up s n = (let last = a_prev s (malloc_head s);
     top = max (malloc_head s + 1) (if a_type s last = ARENA_TYPE_HEAD then 1 else last + a_size s last)
     in Some ((top + 4095) div 4096 * 4096))"

lemma mmap_up_ok: "mmap_ok mmap_up"
  unfolding mmap_ok_def
proof (intro allI impI)
  fix s as fs n a
  assume h: "arena_rep s as fs \<and> 0 < n \<and> mmap_up s n = Some a"
  let ?h = "malloc_head s"
  have r: "ring (a_next s) (a_prev s) ?h as" "blocks_ok ?h (a_type s) (a_size s) as"
    using h by (auto simp: arena_rep_def)
  have last: "a_prev s ?h = before ?h as" by (rule ring_last [OF r(1)])
  have "?h < a"
    using h by (auto simp: mmap_up_def Let_def)
  moreover have "4096 dvd a"
    using h by (auto simp: mmap_up_def Let_def)
  moreover have "b + a_size s b \<le> a" if b: "b \<in> set as" for b
  proof -
    obtain us l where as: "as = us @ [l]" using b by (cases as rule: rev_cases) auto
    have "a_type s l \<noteq> ARENA_TYPE_HEAD" "b + a_size s b \<le> l + a_size s l"
      using r(2) b by (auto simp: as blocks_ok_simps block_ok_def)
    moreover have "a_prev s ?h = l" using last as by simp
    ultimately show ?thesis
      using h by (auto simp: mmap_up_def Let_def)
  qed
  ultimately show "0 < a \<and> 4096 dvd a \<and> (?h < a \<or> a + n \<le> ?h) \<and> (\<forall>b \<in> set as. a + n \<le> b \<or> b + a_size s b \<le> a)"
    by auto
qed

interpretation arn: arena_env mmap_up
  by unfold_locales (rule mmap_up_ok)

section \<open>Programs that allocate and free\<close>

text \<open>The states a program can reach: \<open>L\<close> holds the pointers it got from \<^verbatim>\<open>malloc\<close> and has not freed, with the sizes it
  asked for.\<close>

inductive arena_run :: "(arena \<Rightarrow> nat \<Rightarrow> addr option) \<Rightarrow> nat \<Rightarrow> arena \<Rightarrow> (addr \<times> nat) set \<Rightarrow> bool"
  for mmap page where
  run_init: "arena_run mmap page (initial_arena hp) {}"
| run_fail: "arena_run mmap page s L \<Longrightarrow> arena_ok sz \<Longrightarrow> malloc_impl_orig mmap s sz = Some (NULL, s') \<Longrightarrow>
    arena_run mmap page s' L"
| run_malloc: "arena_run mmap page s L \<Longrightarrow> arena_ok sz \<Longrightarrow> malloc_impl_orig mmap s sz = Some (p, s') \<Longrightarrow> p \<noteq> NULL \<Longrightarrow>
    arena_run mmap page s' (insert (p, unat sz) L)"
| run_free: "arena_run mmap page s L \<Longrightarrow> (p, n) \<in> L \<Longrightarrow> free_impl_orig page s p = (r, s') \<Longrightarrow>
    arena_run mmap page s' (L - {(p, n)})"

definition live_ok :: "(addr \<times> nat) set \<Rightarrow> (addr \<times> nat) set \<Rightarrow> bool" where
  "live_ok L U \<longleftrightarrow> (\<forall>(p, n) \<in> L. \<exists>a z. p = a + 32 \<and> (a, z) \<in> U \<and> n + 32 \<le> z) \<and>
     (\<forall>p n k. (p, n) \<in> L \<and> (p, k) \<in> L \<longrightarrow> n = k)"

lemma live_okE:
  assumes "live_ok L U" "(p, n) \<in> L"
  obtains a z where "p = a + 32" "(a, z) \<in> U" "n + 32 \<le> z"
  using assms by (auto simp: live_ok_def)

lemma live_ok_insert:
  assumes "live_ok L U" "a \<notin> fst ` U" "n + 32 \<le> z"
  shows "live_ok (insert (a + 32, n) L) (insert (a, z) U)"
proof -
  have "(a + 32, k) \<notin> L" for k
    using assms(2) by (auto elim!: live_okE [OF assms(1)] intro: rev_image_eqI)
  moreover have "\<forall>(p, n) \<in> L. \<exists>a z. p = a + 32 \<and> (a, z) \<in> U \<and> n + 32 \<le> z"
    "\<forall>p n k. (p, n) \<in> L \<and> (p, k) \<in> L \<longrightarrow> n = k"
    using assms(1) by (simp_all add: live_ok_def)
  ultimately show ?thesis
    using assms(3) unfolding live_ok_def by (intro conjI) (blast, auto)
qed

lemma arena_run_inv:
  assumes "arena_run mmap page s L" "mmap_ok mmap" "64 \<le> page" "32 dvd page"
  shows "\<exists>U. arena_inv s U \<and> live_ok L U"
  using assms(1)
proof (induction rule: arena_run.induct)
  case (run_init hp)
  then show ?case
    using initial_arena_inv by (auto simp: live_ok_def)
next
  case (run_fail s L sz s')
  then obtain U where U: "arena_inv s U" "live_ok L U" by blast
  from malloc_orig_inv [OF U(1) run_fail.hyps(2) assms(2)] run_fail.hyps(3) U show ?case by auto
next
  case (run_malloc s L sz p s')
  then obtain U where U: "arena_inv s U" "live_ok L U" by blast
  from malloc_orig_inv [OF U(1) run_malloc.hyps(2) assms(2)] run_malloc.hyps(3,4) obtain a z where
    a: "p = a + 32" "unat sz + 32 \<le> z" "a \<notin> fst ` U" "arena_inv s' (insert (a, z) U)"
    by auto
  have "live_ok (insert (p, unat sz) L) (insert (a, z) U)"
    unfolding a(1) by (rule live_ok_insert [OF U(2) a(3,2)])
  with a(4) show ?case by blast
next
  case (run_free s L p n r s')
  then obtain U where U: "arena_inv s U" "live_ok L U" by blast
  then obtain a z where a: "p = a + 32" "(a, z) \<in> U" "n + 32 \<le> z"
    using run_free.hyps(2) by (auto simp: live_ok_def)
  from free_orig_inv [OF U(1) a(2) assms(3,4)] run_free.hyps(3) a(1) have inv: "arena_inv s' (U - {(a, z)})"
    by auto
  have "\<exists>b k. q = b + 32 \<and> (b, k) \<in> U - {(a, z)} \<and> j + 32 \<le> k" if q: "(q, j) \<in> L - {(p, n)}" for q j
  proof -
    have "q \<noteq> p" using q U(2) run_free.hyps(2) unfolding live_ok_def by auto
    moreover obtain b k where "q = b + 32" "(b, k) \<in> U" "j + 32 \<le> k"
      using q U(2) by (auto simp: live_ok_def)
    ultimately show ?thesis using a(1) by auto
  qed
  then have "live_ok (L - {(p, n)}) (U - {(a, z)})"
    using U(2) unfolding live_ok_def by blast
  with inv show ?case by blast
qed

text \<open>A new block overlaps no block in use.\<close>

lemma malloc_orig_fresh:
  assumes "arena_inv s U" "arena_ok sz" "mmap_ok mmap"
  shows "\<exists>p s'. malloc_impl_orig mmap s sz = Some (p, s') \<and>
    (if p = NULL then s' = s \<and> (\<exists>n. unat sz + 32 \<le> n \<and> mmap s n = None)
     else \<exists>a z. p = a + 32 \<and> unat sz + 32 \<le> z \<and> (\<forall>(b, k) \<in> U. b + k \<le> a \<or> a + z \<le> b) \<and>
       arena_inv s' (insert (a, z) U))"
proof -
  from malloc_orig_inv [OF assms] obtain p s' where m: "malloc_impl_orig mmap s sz = Some (p, s')"
    "if p = NULL then s' = s \<and> (\<exists>n. unat sz + 32 \<le> n \<and> mmap s n = None)
     else \<exists>a z. p = a + 32 \<and> unat sz + 32 \<le> z \<and> a \<notin> fst ` U \<and> arena_inv s' (insert (a, z) U)"
    by blast
  have "\<forall>(b, k) \<in> U. b + k \<le> a \<or> a + z \<le> b" if n: "a \<notin> fst ` U" "arena_inv s' (insert (a, z) U)" for a z
  proof safe
    fix b k assume "(b, k) \<in> U" "\<not> a + z \<le> b"
    moreover from this n(1) have "a \<noteq> b" by force
    ultimately show "b + k \<le> a"
      using arena_inv_disjoint [OF n(2), of a z b k] by simp
  qed
  with m show ?thesis
    by (cases "p = NULL") (simp_all, blast)
qed

text \<open>The first request of a program, evaluated: the mapping is the page at 4096.\<close>

lemma arena_ok_small: "arena_ok 10" "arena_ok 20"
  by (simp_all add: arena_ok_def)

lemma first_malloc: "\<exists>s. malloc_impl_orig mmap_up (initial_arena 64) 10 = Some (4128, s)"
proof -
  let ?s = "initial_arena 64"
  have r: "arena_request 10 = 64" "(64 + (chunk_size - 1)) AND NOT (chunk_size - 1) = 65536"
    by (simp_all add: arena_request_def arena_header_size_def chunk_size_def)
  have i: "malloc_head ?s = 64" "next_free ?s 64 = 64" "a_prev ?s 64 = 64" "a_next ?s 64 = 64"
    by (simp_all add: initial_arena_def)
  have f: "arena_find ?s n 64 = Some None" for n
    by (subst arena_find.simps) (simp add: initial_arena_def)
  have m: "mmap_up ?s n = Some 4096" for n
    by (simp add: initial_arena_def mmap_up_def)
  show ?thesis
    unfolding malloc_impl_orig_def
    by (simp add: r i f m, subst arena_pred.simps)
      (simp add: initial_arena_def free_block_def malloc_from_block_def arena_header_size_def Let_def)
qed

lemma first_malloc_inv:
  "\<exists>s z. malloc_impl_orig mmap_up (initial_arena 64) 10 = Some (4128, s) \<and> 42 \<le> z \<and> arena_inv s {(4096, z)}"
  using malloc_orig_inv [OF initial_arena_inv arena_ok_small(1) mmap_up_ok, of 64] first_malloc by force

section \<open>Properties\<close>

text \<open>C1: For every program that calls \<^verbatim>\<open>malloc\<close> and \<^verbatim>\<open>free\<close> of the arena allocator in any order, starting from the
  empty arena, with requests that are not zero and stay \<open>2 ^ 17\<close> bytes below \<open>2 ^ 64\<close>: the next such \<^verbatim>\<open>malloc\<close> returns, and a
  pointer it returns overlaps none of the blocks the program holds, provided that \<^verbatim>\<open>mmap\<close> returns fresh page-aligned
  mappings; it returns null only when \<^verbatim>\<open>mmap\<close> has failed. A request closer to \<open>2 ^ 64\<close> wraps around, see
  \<open>arena_request_wraps\<close>.\<close>

theorem arena_blocks_disjoint:
  assumes "arena_run mmap page s L" "mmap_ok mmap" "64 \<le> page" "32 dvd page" "arena_ok sz"
  shows "\<exists>q s'. malloc_impl_orig mmap s sz = Some (q, s') \<and>
    (if q = NULL then s' = s \<and> (\<exists>n. unat sz + 32 \<le> n \<and> mmap s n = None)
     else \<forall>(p, n) \<in> L. p + n \<le> q \<or> q + unat sz \<le> p)"
proof -
  obtain U where U: "arena_inv s U" "live_ok L U"
    using arena_run_inv [OF assms(1-4)] by blast
  from malloc_orig_fresh [OF U(1) assms(5,2)] obtain q s' where m: "malloc_impl_orig mmap s sz = Some (q, s')"
    "q = NULL \<Longrightarrow> s' = s \<and> (\<exists>n. unat sz + 32 \<le> n \<and> mmap s n = None)"
    "q \<noteq> NULL \<Longrightarrow> \<exists>a z. q = a + 32 \<and> unat sz + 32 \<le> z \<and> (\<forall>(b, k) \<in> U. b + k \<le> a \<or> a + z \<le> b)"
    by (metis (no_types, lifting))
  have "p + n \<le> q \<or> q + unat sz \<le> p" if h: "q \<noteq> NULL" "(p, n) \<in> L" for p n
  proof -
    obtain a z where a: "q = a + 32" "unat sz + 32 \<le> z" "\<forall>(b, k) \<in> U. b + k \<le> a \<or> a + z \<le> b"
      using m(3) h(1) by blast
    obtain b k where b: "p = b + 32" "(b, k) \<in> U" "n + 32 \<le> k"
      using live_okE [OF U(2) h(2)] .
    show ?thesis using a b by auto
  qed
  with m(1,2) show ?thesis by auto
qed

theorem arena_blocks_disjoint_witness:
  "\<exists>s1 s2 q. malloc_impl_orig mmap_up (initial_arena 64) 10 = Some (4128, s1) \<and>
    malloc_impl_orig mmap_up s1 20 = Some (q, s2) \<and> q \<noteq> NULL \<and> (4138 \<le> q \<or> q + 20 \<le> 4128)"
proof -
  obtain s1 where 1: "malloc_impl_orig mmap_up (initial_arena 64) 10 = Some (4128, s1)"
    using first_malloc by blast
  have "arena_run mmap_up 4096 s1 (insert (4128, unat (10 :: 64 word)) {})"
    by (rule run_malloc [OF run_init arena_ok_small(1) 1]) simp
  from arena_blocks_disjoint [OF this mmap_up_ok _ _ arena_ok_small(2)] 1 show ?thesis
    by (auto simp: mmap_up_def Let_def split: if_splits)
qed

text \<open>C5: for a request that is not zero and stays \<open>2 ^ 17\<close> bytes below \<open>2 ^ 64\<close>, \<^verbatim>\<open>malloc_impl_orig\<close> always returns on an
  arena that is in order. The result is null and the arena is unchanged, which happens only when \<^verbatim>\<open>mmap\<close> fails, or it is the
  user part of a new block, large enough for the request and for its header, that overlaps no block in use; the order of
  the arena, including the merging of free neighbours, is kept.\<close>

theorem malloc_orig_contract:
  assumes "arena_inv s U" "arena_ok sz" "mmap_ok mmap"
  shows "\<exists>p s'. malloc_impl_orig mmap s sz = Some (p, s') \<and>
    (if p = NULL then s' = s \<and> (\<exists>n. unat sz + 32 \<le> n \<and> mmap s n = None)
     else \<exists>a z. p = a + 32 \<and> unat sz + 32 \<le> z \<and> (\<forall>(b, k) \<in> U. b + k \<le> a \<or> a + z \<le> b) \<and>
       arena_inv s' (insert (a, z) U))"
  by (rule malloc_orig_fresh [OF assms])

theorem malloc_orig_contract_witness:
  "\<exists>s z. malloc_impl_orig mmap_up (initial_arena 64) 10 = Some (4128, s) \<and> 42 \<le> z \<and> arena_inv s {(4096, z)}"
  using malloc_orig_contract [OF initial_arena_inv arena_ok_small(1) mmap_up_ok, of 64] first_malloc by force

text \<open>C6: \<^verbatim>\<open>free_impl_orig\<close> of a block in use takes exactly this block out of use and keeps the arena in order. Memory
  it gives back to the kernel is a non-empty range of whole pages that overlaps no block still in use.\<close>

theorem free_orig_contract:
  assumes "arena_inv s U" "(a, z) \<in> U" "64 \<le> page" "32 dvd page"
  shows "\<exists>r s'. free_impl_orig page s (a + 32) = (r, s') \<and> arena_inv s' (U - {(a, z)}) \<and>
    (\<forall>q n. r = Some (q, n) \<longrightarrow> page dvd q \<and> page dvd n \<and> 0 < n \<and>
      (\<forall>(b, k) \<in> U - {(a, z)}. b + k \<le> q \<or> q + n \<le> b))"
  by (rule free_orig_inv [OF assms])

theorem free_orig_contract_witness:
  "\<exists>s z r s'. malloc_impl_orig mmap_up (initial_arena 64) 10 = Some (4128, s) \<and> arena_inv s {(4096, z)} \<and>
    free_impl_orig 4096 s 4128 = (r, s') \<and> arena_inv s' {}"
proof -
  obtain s z where 1: "malloc_impl_orig mmap_up (initial_arena 64) 10 = Some (4128, s)" "arena_inv s {(4096, z)}"
    using first_malloc_inv by blast
  obtain r s' where "free_impl_orig 4096 s (4096 + 32) = (r, s')" "arena_inv s' ({(4096, z)} - {(4096, z)})"
    using free_orig_contract [OF 1(2), of 4096 z 4096] by auto
  with 1 show ?thesis by auto
qed

text \<open>A request close to the largest size wraps around when the header is added: \<^verbatim>\<open>malloc(-1)\<close> asks the arena for a block
  of 32 bytes, which is only the header.\<close>

lemma arena_request_wraps:
  "unat (arena_request (- 1)) = arena_header_size"
  by (simp add: arena_request_def arena_header_size_def)

end
