(* ===== verification/Adler.thy ===== *)
theory Adler
  imports MemFuns
begin

text \<open>
  The checksum of \<^verbatim>\<open>libc/src/zlib/adler32.c\<close>. \<open>unsigned long\<close> is a natural number below \<open>2 ^ w\<close> with the wrap-around
  written out; the width \<open>w\<close> is a parameter because the block length \<^verbatim>\<open>NMAX\<close> is chosen such that 32 bits are enough,
  and the theorem says so. The two versions of the macro \<^verbatim>\<open>MOD\<close>, with and without division, are both modelled. The
  reference reduces both sums after every byte.
\<close>

unbundle bit_operations_syntax

section \<open>Definitions\<close>

definition BASE :: nat where "BASE = 65521"

definition NMAX :: nat where "NMAX = 5552"

text \<open>The reduction for processors without a divider, and the short one.\<close>

fun mod_steps :: "nat \<Rightarrow> nat \<Rightarrow> nat" where
  "mod_steps a 0 = (if a \<ge> BASE then a - BASE else a)"
| "mod_steps a (Suc k) = mod_steps (if a \<ge> push_bit (Suc k) BASE then a - push_bit (Suc k) BASE else a) k"

definition MOD_NO_DIVIDE :: "nat \<Rightarrow> nat" where
  "MOD_NO_DIVIDE a = mod_steps a 16"

definition MOD4_NO_DIVIDE :: "nat \<Rightarrow> nat" where
  "MOD4_NO_DIVIDE a = mod_steps a 4"

definition MOD :: "nat \<Rightarrow> nat" where
  "MOD a = a mod BASE"

definition adler_do1 :: "nat \<Rightarrow> nat \<times> nat \<Rightarrow> byte \<Rightarrow> nat \<times> nat" where
  "adler_do1 w = (\<lambda>(adler, sum2) b. let adler = (adler + unat b) mod 2 ^ w in (adler, (sum2 + adler) mod 2 ^ w))"

fun adler_bytes :: "nat \<Rightarrow> mem \<Rightarrow> addr \<Rightarrow> nat \<Rightarrow> nat \<times> nat \<Rightarrow> (nat \<times> nat) option" where
  "adler_bytes w m buf 0 s = Some s"
| "adler_bytes w m buf (Suc n) s = do { b \<leftarrow> rd m buf; adler_bytes w m (buf + 1) n (adler_do1 w s b) }"

fun adler_do16s :: "nat \<Rightarrow> mem \<Rightarrow> addr \<Rightarrow> nat \<Rightarrow> nat \<times> nat \<Rightarrow> (nat \<times> nat) option" where
  "adler_do16s w m buf 0 s = Some s"
| "adler_do16s w m buf (Suc n) s = do { s \<leftarrow> adler_bytes w m buf 16 s; adler_do16s w m (buf + 16) n s }"

function adler_blocks :: "nat \<Rightarrow> mem \<Rightarrow> addr \<Rightarrow> nat \<Rightarrow> nat \<times> nat \<Rightarrow> (addr \<times> nat \<times> nat \<times> nat) option" where
  "adler_blocks w m buf len s =
     (if len \<ge> NMAX then do {
        (adler, sum2) \<leftarrow> adler_do16s w m buf (NMAX div 16) s;
        adler_blocks w m (buf + NMAX) (len - NMAX) (MOD adler, MOD sum2)
      }
      else Some (buf, len, s))"
  by pat_completeness auto
termination
  by (relation "measure (\<lambda>(w, m, buf, len, s). len)") (auto simp: NMAX_def)

declare adler_blocks.simps [simp del]

function adler_rest :: "nat \<Rightarrow> mem \<Rightarrow> addr \<Rightarrow> nat \<Rightarrow> nat \<times> nat \<Rightarrow> (nat \<times> nat) option" where
  "adler_rest w m buf len s =
     (if len \<ge> 16 then do { s \<leftarrow> adler_bytes w m buf 16 s; adler_rest w m (buf + 16) (len - 16) s }
      else adler_bytes w m buf len s)"
  by pat_completeness auto
termination
  by (relation "measure (\<lambda>(w, m, buf, len, s). len)") auto

declare adler_rest.simps [simp del]

definition adler_join :: "nat \<times> nat \<Rightarrow> nat" where
  "adler_join = (\<lambda>(adler, sum2). adler OR push_bit 16 sum2)"

definition adler32 :: "nat \<Rightarrow> mem \<Rightarrow> nat \<Rightarrow> addr \<Rightarrow> nat \<Rightarrow> nat option" where
  "adler32 w m adler buf len =
     (let sum2 = drop_bit 16 adler AND 0xffff; adler = adler AND 0xffff in
      if len = 1 then do {
        b \<leftarrow> rd m buf;
        let adler = adler + unat b;
        let adler = (if adler \<ge> BASE then adler - BASE else adler);
        let sum2 = sum2 + adler;
        let sum2 = (if sum2 \<ge> BASE then sum2 - BASE else sum2);
        Some (adler_join (adler, sum2))
      }
      else if buf = NULL then Some 1
      else if len < 16 then do {
        (adler, sum2) \<leftarrow> adler_bytes w m buf len (adler, sum2);
        let adler = (if adler \<ge> BASE then adler - BASE else adler);
        Some (adler_join (adler, MOD sum2))
      }
      else do {
        (buf, len, s) \<leftarrow> adler_blocks w m buf len (adler, sum2);
        s \<leftarrow> (if len \<noteq> 0 then do { (adler, sum2) \<leftarrow> adler_rest w m buf len s; Some (MOD adler, MOD sum2) } else Some s);
        Some (adler_join s)
      })"

definition adler32_combine :: "nat \<Rightarrow> nat \<Rightarrow> nat \<Rightarrow> nat" where
  "adler32_combine adler1 adler2 len2 =
     (let rem = len2 mod BASE;
          sum1 = adler1 AND 0xffff;
          sum2 = MOD (rem * sum1);
          sum1 = sum1 + (adler2 AND 0xffff) + BASE - 1;
          sum2 = sum2 + (drop_bit 16 adler1 AND 0xffff) + (drop_bit 16 adler2 AND 0xffff) + BASE - rem;
          sum1 = (if sum1 > BASE then sum1 - BASE else sum1);
          sum1 = (if sum1 > BASE then sum1 - BASE else sum1);
          sum2 = (if sum2 > push_bit 1 BASE then sum2 - push_bit 1 BASE else sum2);
          sum2 = (if sum2 > BASE then sum2 - BASE else sum2)
      in adler_join (sum1, sum2))"

section \<open>Reduction without division\<close>

lemma mod_steps_eq: "a < BASE * 2 ^ Suc k \<Longrightarrow> mod_steps a k = a mod BASE"
proof (induction k arbitrary: a)
  case 0
  then show ?case by (auto simp: mod_if BASE_def)
next
  case (Suc k)
  let ?b = "if a \<ge> push_bit (Suc k) BASE then a - push_bit (Suc k) BASE else a"
  have p: "push_bit (Suc k) BASE = BASE * 2 ^ Suc k" by (simp only: push_bit_eq_mult mult.commute)
  have "?b < BASE * 2 ^ Suc k" using Suc.prems unfolding p by auto
  moreover have "?b mod BASE = a mod BASE"
    unfolding p by (auto simp: le_iff_add)
  ultimately show ?case using Suc.IH [of ?b] by (simp only: mod_steps.simps)
qed

section \<open>The reference\<close>

definition adler_step :: "nat \<times> nat \<Rightarrow> byte \<Rightarrow> nat \<times> nat" where
  "adler_step = (\<lambda>(a, s) b. ((a + unat b) mod BASE, (s + a + unat b) mod BASE))"

definition adler_spec :: "nat \<times> nat \<Rightarrow> byte list \<Rightarrow> nat \<times> nat" where
  "adler_spec = foldl adler_step"

text \<open>The sums without any reduction: bounds and residues.\<close>

fun adler_raw :: "nat \<times> nat \<Rightarrow> byte list \<Rightarrow> nat \<times> nat" where
  "adler_raw (a, s) [] = (a, s)"
| "adler_raw (a, s) (b # bs) = adler_raw (a + unat b, s + (a + unat b)) bs"

definition reduce :: "nat \<times> nat \<Rightarrow> nat \<times> nat" where
  "reduce = (\<lambda>(a, s). (a mod BASE, s mod BASE))"

lemma adler_step_reduce: "adler_step (reduce (a, s)) b = reduce (a + unat b, s + (a + unat b))"
proof -
  have "(s mod BASE + a mod BASE + unat b) mod BASE = (s + a + unat b) mod BASE"
    by (intro mod_add_cong) (simp_all add: mod_simps)
  then show ?thesis by (simp add: adler_step_def reduce_def mod_simps add.assoc)
qed

lemma adler_raw_reduce: "reduce (adler_raw s bs) = adler_spec (reduce s) bs"
  by (induction s bs rule: adler_raw.induct) (simp_all add: adler_spec_def adler_step_reduce)

lemma adler_raw_bound:
  assumes "a \<le> A" "s \<le> S"
  shows "fst (adler_raw (a, s) bs) \<le> A + 255 * length bs \<and>
    2 * snd (adler_raw (a, s) bs) \<le> 2 * S + 2 * (length bs * A) + 255 * (length bs * (length bs + 1))"
  using assms
proof (induction bs arbitrary: a s A S)
  case (Cons b bs)
  have "unat b \<le> 255" using unat_byte [of b] by simp
  then have "a + unat b \<le> A + 255" "s + (a + unat b) \<le> S + (A + 255)" using Cons.prems by simp_all
  from Cons.IH [OF this] show ?case
    by (auto simp: algebra_simps)
qed simp

text \<open>As long as \<^verbatim>\<open>NMAX\<close> bytes are not exceeded, 32 bits hold the sums.\<close>

lemma adler_raw_fits:
  assumes "fst s < 65536" "snd s < 65536" "length bs \<le> NMAX" "32 \<le> w"
  shows "fst (adler_raw s bs) < 2 ^ w" "snd (adler_raw s bs) < 2 ^ w"
proof -
  obtain a c where s: "s = (a, c)" by fastforce
  have b: "fst (adler_raw s bs) \<le> 65535 + 255 * length bs"
    "2 * snd (adler_raw s bs) \<le> 2 * 65535 + 2 * (length bs * 65535) + 255 * (length bs * (length bs + 1))"
    using adler_raw_bound [of a 65535 c 65535 bs] assms(1,2) unfolding s by simp_all
  have "length bs * (length bs + 1) \<le> 5552 * 5553" using assms(3) by (intro mult_le_mono) (simp_all add: NMAX_def)
  then have "fst (adler_raw s bs) < 2 ^ 32" "snd (adler_raw s bs) < 2 ^ 32"
    using b assms(3) by (simp_all add: NMAX_def)
  moreover have "(2 :: nat) ^ 32 \<le> 2 ^ w" using assms(4) by (intro power_increasing) simp_all
  ultimately show "fst (adler_raw s bs) < 2 ^ w" "snd (adler_raw s bs) < 2 ^ w" by linarith+
qed

lemma adler_raw_Nil [simp]: "adler_raw s [] = s"
  by (cases s) simp

lemma adler_raw_append: "adler_raw s (xs @ ys) = adler_raw (adler_raw s xs) ys"
  by (induction s xs rule: adler_raw.induct) simp_all

lemma adler_raw_mono: "fst s \<le> fst (adler_raw s bs) \<and> snd s \<le> snd (adler_raw s bs)"
  by (induction s bs rule: adler_raw.induct) auto

lemma adler_bytes_raw:
  assumes "mapped m buf n" "fst (adler_raw s (block m buf n)) < 2 ^ w" "snd (adler_raw s (block m buf n)) < 2 ^ w"
  shows "adler_bytes w m buf n s = Some (adler_raw s (block m buf n))"
  using assms
proof (induction n arbitrary: buf s)
  case (Suc n)
  then have b: "0 < buf" "buf < length m" "mapped m (buf + 1) n" by (auto simp: mapped_def)
  obtain a c where s: "s = (a, c)" by fastforce
  let ?s = "(a + unat (m ! buf), c + (a + unat (m ! buf)))"
  have r: "adler_raw s (block m buf (Suc n)) = adler_raw ?s (block m (buf + 1) n)"
    using b by (simp add: block_Suc s)
  have "adler_do1 w s (m ! buf) = ?s"
    using adler_raw_mono [of ?s "block m (buf + 1) n"] Suc.prems(2,3) unfolding r
    by (simp add: adler_do1_def s Let_def)
  with Suc.IH [OF b(3), of ?s] Suc.prems(2,3) b show ?case
    unfolding r by (simp add: mem_simps)
qed simp

definition fits :: "nat \<Rightarrow> nat \<times> nat \<Rightarrow> byte list \<Rightarrow> bool" where
  "fits w s bs \<longleftrightarrow> fst (adler_raw s bs) < 2 ^ w \<and> snd (adler_raw s bs) < 2 ^ w"

lemma fits_append: "fits w s (xs @ ys) \<Longrightarrow> fits w s xs \<and> fits w (adler_raw s xs) ys"
  using adler_raw_mono [of "adler_raw s xs" ys] by (auto simp: fits_def adler_raw_append)

lemma adler_bytes_fits: "mapped m buf n \<Longrightarrow> fits w s (block m buf n) \<Longrightarrow> adler_bytes w m buf n s = Some (adler_raw s (block m buf n))"
  by (simp add: fits_def adler_bytes_raw)

lemma split_16:
  assumes "mapped m buf (16 + n)"
  shows "mapped m buf 16" "mapped m (buf + 16) n" "block m buf (16 + n) = block m buf 16 @ block m (buf + 16) n"
  using mapped_mono [OF assms, of 16] mapped_shift [OF assms, of 16 n] by (simp_all add: block_append)

lemma adler_do16s_raw:
  "mapped m buf (16 * n) \<Longrightarrow> fits w s (block m buf (16 * n)) \<Longrightarrow>
    adler_do16s w m buf n s = Some (adler_raw s (block m buf (16 * n)))"
proof (induction n arbitrary: buf s)
  case (Suc n)
  have e: "16 * Suc n = 16 + 16 * n" by simp
  note sp = split_16 [OF Suc.prems(1) [unfolded e]]
  from fits_append [OF Suc.prems(2) [unfolded e sp(3)]] Suc.IH [OF sp(2)] sp(1) show ?case
    unfolding e sp(3) by (simp add: adler_bytes_fits adler_raw_append)
qed simp

lemma adler_rest_raw:
  "mapped m buf n \<Longrightarrow> fits w s (block m buf n) \<Longrightarrow> adler_rest w m buf n s = Some (adler_raw s (block m buf n))"
proof (induction n arbitrary: buf s rule: less_induct)
  case (less n)
  show ?case
  proof (cases "16 \<le> n")
    case True
    then obtain k where n: "n = 16 + k" using le_iff_add by blast
    note sp = split_16 [OF less.prems(1) [unfolded n]]
    from fits_append [OF less.prems(2) [unfolded n sp(3)]] less.IH [OF _ sp(2)] sp(1) n show ?thesis
      unfolding n sp(3) by (subst adler_rest.simps) (simp add: adler_bytes_fits adler_raw_append)
  next
    case False
    then show ?thesis using less.prems by (subst adler_rest.simps) (simp add: adler_bytes_fits)
  qed
qed

lemma reduced: "reduce s = s \<longleftrightarrow> fst s < BASE \<and> snd s < BASE"
  by (cases s) (auto simp: reduce_def BASE_def mod_eq_self_iff_div_eq_0)

lemma fits_reduced: "reduce s = s \<Longrightarrow> length bs \<le> NMAX \<Longrightarrow> 32 \<le> w \<Longrightarrow> fits w s bs"
  using adler_raw_fits [of s bs w] by (simp add: fits_def reduced BASE_def)

lemma reduce_reduce [simp]: "reduce (reduce s) = reduce s"
  by (cases s) (simp add: reduce_def)

lemma adler_blocks_spec:
  assumes "mapped m buf len" "reduce s = s" "32 \<le> w"
  shows "\<exists>k s'. adler_blocks w m buf len s = Some (buf + k, len - k, s') \<and> k \<le> len \<and> len - k < NMAX \<and>
    reduce s' = s' \<and> s' = adler_spec s (block m buf k)"
  using assms(1,2)
proof (induction len arbitrary: buf s rule: less_induct)
  case (less len)
  show ?case
  proof (cases "NMAX \<le> len")
    case False
    then show ?thesis using less.prems(2)
      by (intro exI [of _ 0] exI [of _ s]) (subst adler_blocks.simps, simp add: adler_spec_def)
  next
    case True
    let ?s = "adler_raw s (block m buf NMAX)"
    have m: "mapped m buf NMAX" "mapped m (buf + NMAX) (len - NMAX)"
      using mapped_mono [OF less.prems(1) True] mapped_shift [OF less.prems(1), of NMAX "len - NMAX"] True by simp_all
    have "16 * (NMAX div 16) = NMAX" by (simp add: NMAX_def)
    then have d: "adler_do16s w m buf (NMAX div 16) s = Some ?s"
      using adler_do16s_raw [of m buf "NMAX div 16" w s] m(1) fits_reduced [OF less.prems(2) _ assms(3), of "block m buf NMAX"] by simp
    have "len - NMAX < len" using True by (simp add: NMAX_def)
    from less.IH [OF this m(2), of "reduce ?s"] obtain k s' where
      k: "adler_blocks w m (buf + NMAX) (len - NMAX) (reduce ?s) = Some (buf + NMAX + k, len - NMAX - k, s')" "k \<le> len - NMAX"
        "len - NMAX - k < NMAX" "reduce s' = s'" "s' = adler_spec (reduce ?s) (block m (buf + NMAX) k)"
      by auto
    have "adler_blocks w m buf len s = Some (buf + (NMAX + k), len - (NMAX + k), s')"
      using True k(1) by (subst adler_blocks.simps) (simp add: d reduce_def MOD_def case_prod_unfold add.assoc)
    moreover have "s' = adler_spec s (block m buf (NMAX + k))"
      using k(5) less.prems(2) by (simp add: adler_raw_reduce block_append adler_spec_def)
    ultimately show ?thesis
      using k True by (intro exI [of _ "NMAX + k"] exI [of _ s']) simp
  qed
qed

lemma and_ffff: "(a :: nat) AND 0xffff = a mod 65536"
  using take_bit_eq_mask [of 16 a] by (simp add: take_bit_eq_mod mask_eq_exp_minus_1)

lemma drop_16: "drop_bit 16 (a :: nat) = a div 65536"
  by (simp add: drop_bit_eq_div)

lemma adler_join_eq: "a < 65536 \<Longrightarrow> adler_join (a, s) = a + 65536 * s"
proof -
  assume a: "a < 65536"
  have "a AND push_bit 16 s = 0"
  proof (rule bit_eqI)
    fix n
    have "bit a n \<Longrightarrow> n < 16" using a bit_take_bit_iff [of 16 a n] by (simp add: take_bit_nat_eq_self)
    then show "bit (a AND push_bit 16 s) n = bit 0 n" by (auto simp: bit_and_iff bit_push_bit_iff)
  qed
  then have "a OR push_bit 16 s = a + push_bit 16 s" by (rule disjunctive_add_eq_or [symmetric])
  then show ?thesis by (simp add: adler_join_def push_bit_eq_mult)
qed

lemma adler_spec_reduced: "reduce s = s \<Longrightarrow> reduce (adler_spec s bs) = adler_spec s bs"
  using adler_raw_reduce [of s bs] reduce_reduce [of "adler_raw s bs"] by simp

lemma once: "a < 2 * BASE \<Longrightarrow> (if a \<ge> BASE then a - BASE else a) = a mod BASE"
  by (auto simp: mod_if BASE_def)

lemma adler32_spec:
  assumes "mapped m buf len" "0 < buf" "32 \<le> w" "a < BASE" "c < BASE"
  shows "adler32 w m (adler_join (a, c)) buf len = Some (adler_join (adler_spec (a, c) (block m buf len)))"
proof -
  have h: "drop_bit 16 (adler_join (a, c)) AND 0xffff = c" "adler_join (a, c) AND 0xffff = a"
    using assms(4,5) by (simp_all add: adler_join_eq and_ffff drop_16 BASE_def)
  have r: "reduce (a, c) = (a, c)" using assms(4,5) by (simp add: reduced)
  consider "len = 1" | "len \<noteq> 1" "len < 16" | "16 \<le> len" by linarith
  then show ?thesis
  proof cases
    case 1
    then have b: "buf < length m" "block m buf len = [m ! buf]" using assms(1) by (auto simp: mapped_def block_Suc)
    have "a + unat (m ! buf) < 2 * BASE" using assms(4) unat_byte [of "m ! buf"] by (simp add: BASE_def)
    note o1 = once [OF this]
    have "c + (a + unat (m ! buf)) mod BASE < 2 * BASE" using assms(5) by (simp add: BASE_def)
    note o2 = once [OF this]
    have "rd m buf = Some (m ! buf)" using assms(2) b(1) by simp
    then have "adler32 w m (adler_join (a, c)) buf len =
        Some (adler_join ((a + unat (m ! buf)) mod BASE, (c + (a + unat (m ! buf)) mod BASE) mod BASE))"
      unfolding adler32_def h Let_def 1 by (simp only: bind.bind_lunit o1 o2 if_True simp_thms)
    then show ?thesis
      by (simp add: b(2) adler_spec_def adler_step_def mod_simps add.assoc)
  next
    case 2
    let ?s = "adler_raw (a, c) (block m buf len)"
    have "fits w (a, c) (block m buf len)" using 2 assms(1,3) r by (intro fits_reduced) (simp_all add: NMAX_def)
    then have d: "adler_bytes w m buf len (a, c) = Some ?s" by (rule adler_bytes_fits [OF assms(1)])
    have "fst ?s \<le> 65520 + 255 * 15"
      using adler_raw_bound [of a 65520 c c "block m buf len"] assms(1,4) 2 by (simp add: BASE_def)
    then have "fst ?s < 2 * BASE" by (simp add: BASE_def)
    note o = once [OF this]
    have "reduce ?s = adler_spec (a, c) (block m buf len)" using adler_raw_reduce r by simp
    then show ?thesis
      unfolding adler32_def h Let_def using 2 assms(2) d o by (simp add: case_prod_unfold MOD_def reduce_def)
  next
    case 3
    from adler_blocks_spec [OF assms(1) r assms(3)] obtain k s' where
      k: "adler_blocks w m buf len (a, c) = Some (buf + k, len - k, s')" "k \<le> len" "len - k < NMAX" "reduce s' = s'"
        "s' = adler_spec (a, c) (block m buf k)"
      by blast
    have m: "mapped m (buf + k) (len - k)" using mapped_shift [OF assms(1), of k "len - k"] k(2) by simp
    have "fits w s' (block m (buf + k) (len - k))" using fits_reduced [OF k(4) _ assms(3)] k(3) m by simp
    note e = adler_rest_raw [OF m this]
    have "reduce (adler_raw s' (block m (buf + k) (len - k))) = adler_spec (a, c) (block m buf (k + (len - k)))"
      using k(4,5) by (simp add: adler_raw_reduce block_append adler_spec_def)
    moreover have "len = k \<Longrightarrow> s' = adler_spec (a, c) (block m buf len)" using k(5) by simp
    ultimately show ?thesis
      unfolding adler32_def h Let_def using 3 assms(2) k(1,2) e
      by (cases "len = k") (simp_all add: case_prod_unfold MOD_def reduce_def)
  qed
qed

section \<open>Combination\<close>

lemma adler_raw_linear:
  "adler_raw (a, s) bs = (a + fst (adler_raw (0, 0) bs), s + length bs * a + snd (adler_raw (0, 0) bs))"
proof (induction bs arbitrary: a s)
  case (Cons b bs)
  show ?case
    using Cons.IH [of "a + unat b" "s + (a + unat b)"] Cons.IH [of "unat b" "unat b"] by (simp add: algebra_simps)
qed simp

text \<open>The combination never gives a half that is zero: where the sum is zero, it gives the modulus.\<close>

definition nonzero :: "nat \<Rightarrow> nat" where
  "nonzero z = (if z = 0 then BASE else z)"

lemma adler_combine_halves:
  assumes "a1 < BASE" "a2 < BASE" "s1 < BASE" "s2 < BASE"
  shows "adler32_combine (adler_join (a1, s1)) (adler_join (a2, s2)) n =
    adler_join (nonzero ((a1 + a2 + BASE - 1) mod BASE), nonzero ((s1 + s2 + n * a1 + (BASE - n mod BASE)) mod BASE))"
proof -
  define r q where "r = n mod BASE" and "q = MOD (r * a1)"
  have b: "r < BASE" "q < BASE" by (simp_all add: r_def q_def MOD_def BASE_def)
  have h: "adler_join (a1, s1) AND 0xffff = a1" "drop_bit 16 (adler_join (a1, s1)) AND 0xffff = s1"
    "adler_join (a2, s2) AND 0xffff = a2" "drop_bit 16 (adler_join (a2, s2)) AND 0xffff = s2"
    using assms by (simp_all add: adler_join_eq and_ffff drop_16 BASE_def)
  have x: "(let sum1 = (if x > BASE then x - BASE else x) in if sum1 > BASE then sum1 - BASE else sum1) = nonzero (x mod BASE)"
    if "x = a1 + a2 + BASE - 1" for x
    using assms that by (auto simp: nonzero_def mod_if BASE_def Let_def)
  have y: "(let sum2 = (if y > 2 * BASE then y - 2 * BASE else y) in if sum2 > BASE then sum2 - BASE else sum2) = nonzero (y mod BASE)"
    if "0 < y" "y < 4 * BASE" for y
    using that by (auto simp: nonzero_def mod_if BASE_def Let_def)
  have yb: "0 < q + s1 + s2 + BASE - r" "q + s1 + s2 + BASE - r < 4 * BASE" using b assms by simp_all
  have e: "(q + s1 + s2 + BASE - r) mod BASE = (s1 + s2 + n * a1 + (BASE - r)) mod BASE"
  proof -
    have "q mod BASE = n * a1 mod BASE" by (simp add: q_def r_def MOD_def mod_simps)
    then have "(q + (s1 + s2 + (BASE - r))) mod BASE = (n * a1 + (s1 + s2 + (BASE - r))) mod BASE"
      by (rule mod_add_cong) simp
    then show ?thesis using b(1) by (simp add: algebra_simps)
  qed
  have p: "push_bit 1 BASE = 2 * BASE" by (simp add: push_bit_eq_mult)
  show ?thesis
    unfolding adler32_combine_def h p r_def [symmetric]
    using x [OF refl] y [OF yb] by (simp only: Let_def q_def [symmetric] e)
qed

lemma adler_spec_append_halves:
  assumes "adler_spec (1, 0) xs = (a1, s1)" "adler_spec (1, 0) ys = (a2, s2)"
  shows "adler_spec (1, 0) (xs @ ys) =
    ((a1 + a2 + BASE - 1) mod BASE, (s1 + s2 + length ys * a1 + (BASE - length ys mod BASE)) mod BASE)"
proof -
  obtain A S where r: "adler_raw (0, 0) ys = (A, S)" by fastforce
  have b: "reduce (1, 0) = (1, 0)" by (simp add: reduce_def BASE_def)
  have xs: "reduce (a1, s1) = (a1, s1)" using adler_spec_reduced [OF b, of xs] assms(1) by simp
  have ys: "a2 = (1 + A) mod BASE" "s2 = (length ys + S) mod BASE"
    using adler_raw_reduce [of "(1, 0)" ys] adler_raw_linear [of 1 0 ys] assms(2) b r by (simp_all add: reduce_def)
  have "adler_spec (1, 0) (xs @ ys) = adler_spec (a1, s1) ys" using assms(1) by (simp add: adler_spec_def)
  also have "\<dots> = reduce (adler_raw (a1, s1) ys)" using adler_raw_reduce [of "(a1, s1)" ys] xs by simp
  also have "\<dots> = ((a1 + A) mod BASE, (s1 + length ys * a1 + S) mod BASE)"
    using adler_raw_linear [of a1 s1 ys] r by (simp add: reduce_def)
  also have "(a1 + A) mod BASE = (a1 + a2 + BASE - 1) mod BASE"
  proof -
    have "(a2 + (a1 + BASE - 1)) mod BASE = (1 + A + (a1 + BASE - 1)) mod BASE"
      using ys(1) by (intro mod_add_cong) (simp_all add: mod_simps)
    moreover have "1 + A + (a1 + BASE - 1) = (a1 + A) + BASE" "a2 + (a1 + BASE - 1) = a1 + a2 + BASE - 1"
      by (simp_all add: BASE_def)
    ultimately show ?thesis by (simp only: mod_add_self2)
  qed
  also have "(s1 + length ys * a1 + S) mod BASE = (s1 + s2 + length ys * a1 + (BASE - length ys mod BASE)) mod BASE"
  proof -
    have le: "length ys mod BASE \<le> BASE" by (simp add: BASE_def)
    have "(s2 + (BASE - length ys mod BASE)) mod BASE = (length ys mod BASE + S + (BASE - length ys mod BASE)) mod BASE"
      using ys(2) by (intro mod_add_cong) (simp_all add: mod_simps)
    also have "\<dots> = S mod BASE" using le by simp
    finally have "(s1 + length ys * a1 + (s2 + (BASE - length ys mod BASE))) mod BASE = (s1 + length ys * a1 + S) mod BASE"
      by (intro mod_add_cong) simp_all
    then show ?thesis by (simp add: algebra_simps)
  qed
  finally show ?thesis .
qed

section \<open>Properties\<close>

text \<open>C13: \<open>adler32\<close> with its delayed reductions computes the two sums modulo 65521, for every block of any length, and 32 bits
  are enough for the sums: the block length \<^verbatim>\<open>NMAX\<close> keeps every addition below the wrap-around.\<close>

theorem adler32_correct:
  assumes "mapped m buf len" "0 < buf" "32 \<le> w" "a < BASE" "c < BASE"
  shows "adler32 w m (adler_join (a, c)) buf len = Some (adler_join (adler_spec (a, c) (block m buf len)))"
  by (rule adler32_spec [OF assms])

theorem adler32_correct_witness:
  "adler32 32 [0, 97, 98, 99] (adler_join (1, 0)) 1 3 = Some (adler_join (295, 589))"
proof -
  have "mapped [0, 97, 98, 99] 1 3" by (simp add: mapped_def)
  from adler32_correct [OF this, of 32 1 0] show ?thesis
    by (simp add: BASE_def block_def adler_spec_def adler_step_def)
qed

text \<open>\<open>adler32_combine\<close> of the checksums of two adjacent blocks is the checksum of both together, except that a half
  that should be 0 is given as 65521: the comparisons are strict.\<close>

theorem adler32_combine_halves:
  assumes "mapped m buf (n + k)" "0 < buf" "32 \<le> w"
  shows "\<exists>c1 c2 a s. adler32 w m 1 buf n = Some c1 \<and> adler32 w m 1 (buf + n) k = Some c2 \<and>
    adler32 w m 1 buf (n + k) = Some (adler_join (a, s)) \<and>
    adler32_combine c1 c2 k = adler_join (if a = 0 then BASE else a, if s = 0 then BASE else s)"
proof -
  let ?xs = "block m buf n" and ?ys = "block m (buf + n) k"
  have p: "mapped m buf n" "mapped m (buf + n) k"
    using mapped_mono [OF assms(1), of n] mapped_shift [OF assms(1), of n k] by simp_all
  have one: "1 = adler_join (1, 0)" by (simp add: adler_join_def)
  have b: "1 < BASE" "0 < BASE" by (simp_all add: BASE_def)
  obtain a1 s1 a2 s2 where h: "adler_spec (1, 0) ?xs = (a1, s1)" "adler_spec (1, 0) ?ys = (a2, s2)" by fastforce
  have "reduce (1, 0) = (1, 0)" by (simp add: reduce_def BASE_def)
  then have r: "a1 < BASE" "s1 < BASE" "a2 < BASE" "s2 < BASE"
    using adler_spec_reduced [of "(1, 0)" ?xs] adler_spec_reduced [of "(1, 0)" ?ys] h by (simp_all add: reduced)
  have "adler32 w m 1 buf n = Some (adler_join (a1, s1))" "adler32 w m 1 (buf + n) k = Some (adler_join (a2, s2))"
    "adler32 w m 1 buf (n + k) = Some (adler_join ((a1 + a2 + BASE - 1) mod BASE, (s1 + s2 + k * a1 + (BASE - k mod BASE)) mod BASE))"
    using adler32_spec [OF p(1) assms(2,3) b] adler32_spec [OF p(2) _ assms(3) b] adler32_spec [OF assms b] h p
      adler_spec_append_halves [OF h] assms(2) unfolding one [symmetric] by (simp_all add: block_append)
  then show ?thesis
    using adler_combine_halves [OF r(1,3,2,4), of k] unfolding nonzero_def by blast
qed

theorem adler32_combine_halves_witness:
  "\<exists>c1 c2 a s. adler32 32 [0, 97, 98] 1 1 1 = Some c1 \<and> adler32 32 [0, 97, 98] 1 2 1 = Some c2 \<and>
    adler32 32 [0, 97, 98] 1 1 2 = Some (adler_join (a, s)) \<and>
    adler32_combine c1 c2 1 = adler_join (if a = 0 then BASE else a, if s = 0 then BASE else s)"
proof -
  have "mapped [0, 97, 98] 1 (1 + 1)" by (simp add: mapped_def)
  from adler32_combine_halves [OF this zero_less_one, of 32] show ?thesis by (simp add: numeral_2_eq_2)
qed

text \<open>The reduction by conditional subtractions equals the remainder for every value that 32 bits can hold, and the short one
  for every value the short loop can reach.\<close>

theorem mod_no_divide:
  "(a < 2 ^ 32 \<longrightarrow> MOD_NO_DIVIDE a = MOD a) \<and> (a < 32 * BASE \<longrightarrow> MOD4_NO_DIVIDE a = MOD a)"
  using mod_steps_eq [of a 16] mod_steps_eq [of a 4] by (auto simp: MOD_NO_DIVIDE_def MOD4_NO_DIVIDE_def MOD_def BASE_def)

theorem mod_no_divide_witness: "MOD_NO_DIVIDE 4294967295 = 4294967295 mod 65521"
proof -
  have "MOD_NO_DIVIDE 4294967295 = MOD 4294967295" using mod_no_divide [of 4294967295] by simp
  then show ?thesis by (simp add: MOD_def BASE_def)
qed

end
