(* ===== verification/BitOutput.thy ===== *)
theory BitOutput
  imports CPrelude
begin

text \<open>
  The bit output of the compressor, \<^verbatim>\<open>libc/src/zlib/trees.c\<close>: \<^verbatim>\<open>send_bits\<close>, \<^verbatim>\<open>bi_flush\<close>, \<^verbatim>\<open>bi_windup\<close>, \<^verbatim>\<open>copy_block\<close>, \<^verbatim>\<open>_tr_stored_block\<close> and
  \<^verbatim>\<open>_tr_align\<close>. The state holds the bytes written to \<^verbatim>\<open>pending_buf\<close> and the 16-bit buffer \<^verbatim>\<open>bi_buf\<close> with its number of valid bits;
  writing beyond the pending buffer is a fault. The lemmas show that the output is the sequence of the bits sent.
\<close>

unbundle bit_operations_syntax

section \<open>Definitions\<close>

record bit_out =
  pending_buf :: "byte list"
  pending_buf_size :: nat
  bi_buf :: "16 word"
  bi_valid :: int
  last_eob_len :: int

definition Buf_size :: int where "Buf_size = 16"

definition put_byte :: "bit_out \<Rightarrow> byte \<Rightarrow> bit_out option" where
  "put_byte s c =
     (if length (pending_buf s) < pending_buf_size s then Some (s\<lparr>pending_buf := pending_buf s @ [c]\<rparr>) else None)"

definition put_short :: "bit_out \<Rightarrow> 16 word \<Rightarrow> bit_out option" where
  "put_short s w = do {
     s \<leftarrow> put_byte s (ucast (w AND 0xff));
     put_byte s (ucast (drop_bit 8 w))
   }"

text \<open>The value is an \<^verbatim>\<open>int\<close>; a shift by a negative or too large amount is undefined.\<close>

definition send_bits :: "bit_out \<Rightarrow> 32 word \<Rightarrow> int \<Rightarrow> bit_out option" where
  "send_bits s val len =
     (if bi_valid s < 0 \<or> bi_valid s > 31 then None
      else if bi_valid s > Buf_size - len then
        if bi_valid s > Buf_size then None
        else do {
          let s = s\<lparr>bi_buf := bi_buf s OR ucast (push_bit (nat (bi_valid s)) val)\<rparr>;
          s \<leftarrow> put_short s (bi_buf s);
          let s = s\<lparr>bi_buf := drop_bit (nat (Buf_size - bi_valid s)) (ucast val)\<rparr>;
          Some (s\<lparr>bi_valid := bi_valid s + (len - Buf_size)\<rparr>)
        }
      else Some (s\<lparr>bi_buf := bi_buf s OR ucast (push_bit (nat (bi_valid s)) val), bi_valid := bi_valid s + len\<rparr>))"

definition bi_flush :: "bit_out \<Rightarrow> bit_out option" where
  "bi_flush s =
     (if bi_valid s = 16 then do {
        s \<leftarrow> put_short s (bi_buf s);
        Some (s\<lparr>bi_buf := 0, bi_valid := 0\<rparr>)
      }
      else if bi_valid s \<ge> 8 then do {
        s \<leftarrow> put_byte s (ucast (bi_buf s));
        Some (s\<lparr>bi_buf := drop_bit 8 (bi_buf s), bi_valid := bi_valid s - 8\<rparr>)
      }
      else Some s)"

definition bi_windup :: "bit_out \<Rightarrow> bit_out option" where
  "bi_windup s = do {
     s \<leftarrow> (if bi_valid s > 8 then put_short s (bi_buf s)
           else if bi_valid s > 0 then put_byte s (ucast (bi_buf s))
           else Some s);
     Some (s\<lparr>bi_buf := 0, bi_valid := 0\<rparr>)
   }"

fun copy_loop :: "mem \<Rightarrow> bit_out \<Rightarrow> addr \<Rightarrow> nat \<Rightarrow> bit_out option" where
  "copy_loop m s buf 0 = Some s"
| "copy_loop m s buf (Suc len) = do {
     c \<leftarrow> rd m buf;
     s \<leftarrow> put_byte s c;
     copy_loop m s (buf + 1) len
   }"

definition copy_block :: "mem \<Rightarrow> bit_out \<Rightarrow> addr \<Rightarrow> 32 word \<Rightarrow> bool \<Rightarrow> bit_out option" where
  "copy_block m s buf len header = do {
     s \<leftarrow> bi_windup s;
     let s = s\<lparr>last_eob_len := 8\<rparr>;
     s \<leftarrow> (if header then do {
             s \<leftarrow> put_short s (ucast len);
             put_short s (ucast (NOT len))
           }
           else Some s);
     copy_loop m s buf (unat len)
   }"

definition STORED_BLOCK :: "32 word" where "STORED_BLOCK = 0"
definition STATIC_TREES :: "32 word" where "STATIC_TREES = 1"

definition tr_stored_block :: "mem \<Rightarrow> bit_out \<Rightarrow> addr \<Rightarrow> 64 word \<Rightarrow> 32 word \<Rightarrow> bit_out option" where
  "tr_stored_block m s buf stored_len eof = do {
     s \<leftarrow> send_bits s (push_bit 1 STORED_BLOCK + eof) 3;
     copy_block m s buf (ucast stored_len) True
   }"

text \<open>The code of the end of a block in the static tree.\<close>

definition static_end_block :: "16 word \<times> 16 word" where "static_end_block = (0, 7)"

definition tr_align :: "bit_out \<Rightarrow> bit_out option" where
  "tr_align s = do {
     s \<leftarrow> send_bits s (push_bit 1 STATIC_TREES) 3;
     s \<leftarrow> send_bits s (ucast (fst static_end_block)) (uint (snd static_end_block));
     s \<leftarrow> bi_flush s;
     s \<leftarrow> (if 1 + last_eob_len s + 10 - bi_valid s < 9 then do {
             s \<leftarrow> send_bits s (push_bit 1 STATIC_TREES) 3;
             s \<leftarrow> send_bits s (ucast (fst static_end_block)) (uint (snd static_end_block));
             bi_flush s
           }
           else Some s);
     Some (s\<lparr>last_eob_len := 7\<rparr>)
   }"

section \<open>The sequence of bits\<close>

definition word_bits :: "nat \<Rightarrow> 'a :: len word \<Rightarrow> bool list" where
  "word_bits n w = map (bit w) [0..<n]"

definition stream :: "bit_out \<Rightarrow> bool list" where
  "stream s = concat (map (word_bits 8) (pending_buf s)) @ word_bits (nat (bi_valid s)) (bi_buf s)"

definition out_inv :: "bit_out \<Rightarrow> bool" where
  "out_inv s \<longleftrightarrow> 0 \<le> bi_valid s \<and> bi_valid s \<le> 16 \<and> (\<forall>i. nat (bi_valid s) \<le> i \<longrightarrow> \<not> bit (bi_buf s) i)"

definition room :: "bit_out \<Rightarrow> nat \<Rightarrow> bool" where
  "room s n \<longleftrightarrow> length (pending_buf s) + n \<le> pending_buf_size s"

lemma length_word_bits [simp]: "length (word_bits n w) = n"
  by (simp add: word_bits_def)

lemma nth_word_bits [simp]: "i < n \<Longrightarrow> word_bits n w ! i = bit w i"
  by (simp add: word_bits_def)

lemma word_bits_0 [simp]: "word_bits 0 w = []"
  by (simp add: word_bits_def)

lemma high_bits: "unat w < 2 ^ n \<Longrightarrow> n \<le> i \<Longrightarrow> \<not> bit w i" for w :: "'a :: len word"
proof -
  assume "unat w < 2 ^ n" "n \<le> i"
  then have "unat w < 2 ^ i" using power_increasing [of n i "2 :: nat"] by linarith
  then have "unat w div 2 ^ i = 0" by simp
  then have "\<not> bit (unat w) i" by (simp add: bit_iff_odd)
  then show ?thesis by (simp add: bit_unsigned_iff)
qed

lemma word_bits_short: "word_bits 8 (ucast (w AND 0xff) :: byte) @ word_bits 8 (ucast (drop_bit 8 w) :: byte) = word_bits 16 w" for w :: "16 word"
proof (rule nth_equalityI)
  have "w AND 0xff = take_bit 8 w" by (simp add: take_bit_eq_mask mask_eq_exp_minus_1)
  then have m: "ucast (w AND 0xff) = (ucast w :: byte)"
    by (intro bit_word_eqI) (simp add: bit_unsigned_iff bit_take_bit_iff)
  fix i
  assume "i < length (word_bits 8 (ucast (w AND 0xff) :: byte) @ word_bits 8 (ucast (drop_bit 8 w) :: byte))"
  then show "(word_bits 8 (ucast (w AND 0xff) :: byte) @ word_bits 8 (ucast (drop_bit 8 w) :: byte)) ! i = word_bits 16 w ! i"
    unfolding m by (auto simp: nth_append bit_unsigned_iff bit_drop_bit_eq)
qed simp

lemma put_byte_stream:
  "room s (Suc n) \<Longrightarrow> \<exists>s'. put_byte s c = Some s' \<and> s' = s\<lparr>pending_buf := pending_buf s @ [c]\<rparr> \<and> room s' n"
  by (simp add: put_byte_def room_def)

lemma put_short_stream:
  assumes "room s (Suc (Suc n))"
  shows "put_short s w = Some (s\<lparr>pending_buf := pending_buf s @ [ucast (w AND 0xff), ucast (drop_bit 8 w)]\<rparr>)"
  using assms by (simp add: put_short_def put_byte_def room_def)

lemma merge_bits:
  fixes b :: "16 word" and val :: "32 word"
  assumes "\<forall>i. v \<le> i \<longrightarrow> \<not> bit b i" "v + n \<le> 16"
  shows "word_bits (v + n) (b OR ucast (push_bit v val)) = word_bits v b @ word_bits n val"
proof (rule nth_equalityI)
  fix i
  assume "i < length (word_bits (v + n) (b OR ucast (push_bit v val)))"
  then show "word_bits (v + n) (b OR ucast (push_bit v val)) ! i = (word_bits v b @ word_bits n val) ! i"
    using assms by (auto simp: nth_append bit_or_iff bit_unsigned_iff bit_push_bit_iff)
qed simp

lemma split_bits: "word_bits (k + n) val = word_bits k val @ word_bits n (drop_bit k val)"
  by (rule nth_equalityI) (auto simp: nth_append bit_drop_bit_eq)

lemma word_bits_ucast: "k + n \<le> 16 \<Longrightarrow> word_bits n (drop_bit k (ucast val :: 16 word)) = word_bits n (drop_bit k val)" for val :: "32 word"
  by (intro nth_equalityI) (auto simp: bit_drop_bit_eq bit_unsigned_iff)

lemma send_bits_stream:
  assumes inv: "out_inv s" and len: "0 < len" "len \<le> 15" "unat val < 2 ^ len" and room: "room s (Suc (Suc n))"
  shows "\<exists>s'. send_bits s val (int len) = Some s' \<and> stream s' = stream s @ word_bits len val \<and> out_inv s' \<and> room s' n \<and>
    length (pending_buf s') \<le> length (pending_buf s) + 2 \<and> pending_buf_size s' = pending_buf_size s \<and> last_eob_len s' = last_eob_len s"
proof -
  define v where "v = nat (bi_valid s)"
  have v: "bi_valid s = int v" "v \<le> 16" "\<forall>i. v \<le> i \<longrightarrow> \<not> bit (bi_buf s) i" using inv by (auto simp: out_inv_def v_def)
  let ?b = "bi_buf s OR ucast (push_bit v val)"
  show ?thesis
  proof (cases "16 < v + len")
    case True
    let ?s = "s\<lparr>pending_buf := pending_buf s @ [ucast (?b AND 0xff), ucast (drop_bit 8 ?b)],
      bi_buf := drop_bit (16 - v) (ucast val), bi_valid := int (v + len - 16)\<rparr>"
    have "send_bits s val (int len) = Some ?s"
      using True v len(2) put_short_stream [of "s\<lparr>bi_buf := ?b\<rparr>" n ?b] room
      by (simp add: send_bits_def Buf_size_def room_def nat_diff_distrib' Let_def)
    moreover have "stream ?s = stream s @ word_bits len val"
    proof -
      have "word_bits 16 ?b = word_bits v (bi_buf s) @ word_bits (16 - v) val"
        using merge_bits [OF v(3), of "16 - v" val] v(2) by simp
      moreover have "word_bits len val = word_bits (16 - v) val @ word_bits (v + len - 16) (drop_bit (16 - v) val)"
        using split_bits [of "16 - v" "v + len - 16" val] True v(2) by simp
      moreover have "word_bits (v + len - 16) (drop_bit (16 - v) (ucast val :: 16 word)) = word_bits (v + len - 16) (drop_bit (16 - v) val)"
        using len(2) v(2) by (intro word_bits_ucast) auto
      ultimately show ?thesis using word_bits_short [of ?b] v(1) by (simp add: stream_def)
    qed
    moreover have "out_inv ?s"
      using v len True high_bits [OF len(3)] by (auto simp: out_inv_def bit_drop_bit_eq bit_unsigned_iff)
    ultimately show ?thesis using room by (simp add: room_def)
  next
    case False
    let ?s = "s\<lparr>bi_buf := ?b, bi_valid := int (v + len)\<rparr>"
    have "send_bits s val (int len) = Some ?s"
      using False v len by (simp add: send_bits_def Buf_size_def)
    moreover have "stream ?s = stream s @ word_bits len val"
      using merge_bits [OF v(3), of len val] False v(1) by (simp add: stream_def nat_int_add)
    moreover have "out_inv ?s"
      using v len False high_bits [OF len(3)] by (auto simp: out_inv_def bit_or_iff bit_unsigned_iff bit_push_bit_iff)
    ultimately show ?thesis using room by (simp add: room_def)
  qed
qed

lemma bi_flush_stream:
  assumes "out_inv s" "room s (Suc (Suc n))"
  shows "\<exists>s'. bi_flush s = Some s' \<and> stream s' = stream s \<and> out_inv s' \<and> bi_valid s' < 8 \<and> room s' n"
proof -
  define v where "v = nat (bi_valid s)"
  have v: "bi_valid s = int v" "v \<le> 16" "\<forall>i. v \<le> i \<longrightarrow> \<not> bit (bi_buf s) i" using assms by (auto simp: out_inv_def v_def)
  consider (full) "v = 16" | (byte) "8 \<le> v" "v < 16" | (few) "v < 8" using v(2) by linarith
  then show ?thesis
  proof cases
    case full
    then show ?thesis
      using v put_short_stream [OF assms(2)] word_bits_short [of "bi_buf s"] assms(2)
      by (simp add: bi_flush_def stream_def out_inv_def room_def)
  next
    case byte
    have "word_bits 8 (ucast (bi_buf s) :: byte) = word_bits 8 (bi_buf s)"
      by (intro nth_equalityI) (auto simp: bit_unsigned_iff)
    moreover have "word_bits v (bi_buf s) = word_bits 8 (bi_buf s) @ word_bits (v - 8) (drop_bit 8 (bi_buf s))"
      using split_bits [of 8 "v - 8" "bi_buf s"] byte by simp
    ultimately show ?thesis
      using v byte assms(2) by (auto simp: bi_flush_def put_byte_def stream_def out_inv_def room_def bit_drop_bit_eq nat_diff_distrib')
  next
    case few
    then show ?thesis using v assms by (auto simp: bi_flush_def room_def)
  qed
qed

lemma pad_bits:
  assumes "\<forall>i. v \<le> i \<longrightarrow> \<not> bit w i"
  shows "word_bits (v + k) w = word_bits v w @ replicate k False"
  using assms by (intro nth_equalityI) (auto simp: nth_append)

text \<open>Winding up pads the stream with zeros to a whole number of bytes.\<close>

lemma bi_windup_stream:
  assumes "out_inv s" "room s (Suc (Suc n))"
  shows "\<exists>s' k. bi_windup s = Some s' \<and> k < 8 \<and> stream s' = stream s @ replicate k False \<and> 8 dvd length (stream s') \<and>
    bi_valid s' = 0 \<and> bi_buf s' = 0 \<and> room s' n"
proof -
  define v where "v = nat (bi_valid s)"
  have v: "bi_valid s = int v" "v \<le> 16" "\<forall>i. v \<le> i \<longrightarrow> \<not> bit (bi_buf s) i" using assms by (auto simp: out_inv_def v_def)
  have d: "8 dvd length (concat (map (word_bits 8) bs))" for bs :: "byte list" by (induction bs) auto
  consider (short) "8 < v" | (byte) "0 < v" "v \<le> 8" | (none) "v = 0" by linarith
  then show ?thesis
  proof cases
    case short
    let ?s = "s\<lparr>pending_buf := pending_buf s @ [ucast (bi_buf s AND 0xff), ucast (drop_bit 8 (bi_buf s))], bi_buf := 0, bi_valid := 0\<rparr>"
    have "bi_windup s = Some ?s" using short v put_short_stream [OF assms(2)] by (simp add: bi_windup_def)
    moreover have "stream ?s = stream s @ replicate (16 - v) False"
      using word_bits_short [of "bi_buf s"] pad_bits [OF v(3), of "16 - v"] v by (simp add: stream_def)
    ultimately show ?thesis using short v(1,2) assms(2) d by (intro exI [of _ ?s] exI [of _ "16 - v"]) (auto simp: stream_def room_def)
  next
    case byte
    let ?s = "s\<lparr>pending_buf := pending_buf s @ [ucast (bi_buf s)], bi_buf := 0, bi_valid := 0\<rparr>"
    have "word_bits 8 (ucast (bi_buf s) :: byte) = word_bits 8 (bi_buf s)"
      by (intro nth_equalityI) (auto simp: bit_unsigned_iff)
    then have "stream ?s = stream s @ replicate (8 - v) False"
      using pad_bits [OF v(3), of "8 - v"] v byte by (simp add: stream_def)
    moreover have "bi_windup s = Some ?s" using byte v assms(2) by (simp add: bi_windup_def put_byte_def room_def)
    ultimately show ?thesis using byte v(1) assms(2) d by (intro exI [of _ ?s] exI [of _ "8 - v"]) (auto simp: stream_def room_def)
  next
    case none
    then show ?thesis using v assms(2) d by (simp add: bi_windup_def stream_def room_def)
  qed
qed

lemma copy_loop_stream:
  "mapped m buf len \<Longrightarrow> room s len \<Longrightarrow> copy_loop m s buf len = Some (s\<lparr>pending_buf := pending_buf s @ block m buf len\<rparr>)"
proof (induction len arbitrary: s buf)
  case (Suc len)
  then have "copy_loop m (s\<lparr>pending_buf := pending_buf s @ [m ! buf]\<rparr>) (buf + 1) len =
      Some (s\<lparr>pending_buf := (pending_buf s @ [m ! buf]) @ block m (buf + 1) len\<rparr>)"
    by (subst Suc.IH) (auto simp: mapped_def room_def)
  with Suc.prems show ?case by (simp add: mapped_Suc mem_simps put_byte_def room_def block_Suc)
qed simp

lemma ucast_not16: "ucast (NOT w) = (NOT (ucast w) :: 16 word)" for w :: "32 word"
  by (rule bit_word_eqI) (simp add: bit_unsigned_iff bit_not_iff)

section \<open>Properties\<close>

text \<open>C18: a stored block: after the three bits of the block header and zeros up to a whole byte the output holds the length of the
  data, its complement, and the data, and the buffer is empty.\<close>

theorem stored_block_stream:
  assumes "out_inv s" "room s (8 + len)" "mapped m buf len" "len < 2 ^ 16" "eof \<in> {0, 1}"
  shows "\<exists>s' k. tr_stored_block m s buf (word_of_nat len) eof = Some s' \<and> k < 8 \<and>
    stream s' = stream s @ [eof = 1, False, False] @ replicate k False @ word_bits 16 (word_of_nat len :: 16 word) @
      word_bits 16 (NOT (word_of_nat len) :: 16 word) @ concat (map (word_bits 8) (block m buf len)) \<and>
    8 dvd length (stream s @ [eof = 1, False, False] @ replicate k False) \<and> out_inv s' \<and> bi_valid s' = 0"
proof -
  have e: "unat (push_bit 1 STORED_BLOCK + eof) < 2 ^ 3" "word_bits 3 (push_bit 1 STORED_BLOCK + eof) = [eof = 1, False, False]"
    using assms(5) by (auto simp: STORED_BLOCK_def word_bits_def numeral_3_eq_3)
  obtain s1 where s1: "send_bits s (push_bit 1 STORED_BLOCK + eof) 3 = Some s1" "stream s1 = stream s @ [eof = 1, False, False]"
    "out_inv s1" "room s1 (6 + len)"
    using send_bits_stream [OF assms(1), of 3 "push_bit 1 STORED_BLOCK + eof" "6 + len"] e assms(2) by (auto simp: numeral_eq_Suc)
  obtain s2 k where s2: "bi_windup s1 = Some s2" "k < 8" "stream s2 = stream s1 @ replicate k False" "8 dvd length (stream s2)"
    "bi_valid s2 = 0" "bi_buf s2 = 0" "room s2 (4 + len)"
    using bi_windup_stream [OF s1(3), of "4 + len"] s1(4) by (auto simp: numeral_eq_Suc)
  let ?l = "word_of_nat len :: 16 word"
  let ?s = "s2\<lparr>last_eob_len := 8, pending_buf := pending_buf s2 @ [ucast (?l AND 0xff), ucast (drop_bit 8 ?l),
    ucast (NOT ?l AND 0xff), ucast (drop_bit 8 (NOT ?l))] @ block m buf len\<rparr>"
  have n: "unat (ucast (word_of_nat len :: 64 word) :: 32 word) = len"
    using assms(4) by (simp add: unsigned_ucast_eq unsigned_of_nat take_bit_nat_eq_self)
  then have l: "ucast (ucast (word_of_nat len :: 64 word) :: 32 word) = ?l" by (simp add: word_unat_eq_iff unsigned_ucast_eq unsigned_of_nat)
  then have l': "ucast (NOT (ucast (word_of_nat len :: 64 word) :: 32 word)) = NOT ?l"
    by (metis ucast_not16)
  have "copy_block m s1 buf (ucast (word_of_nat len :: 64 word)) True = Some ?s"
    using s2(1,7) assms(3) n l l'
    by (simp add: copy_block_def put_short_def put_byte_def room_def copy_loop_stream)
  moreover have "stream ?s = stream s2 @ word_bits 16 ?l @ word_bits 16 (NOT ?l) @ concat (map (word_bits 8) (block m buf len))"
    using s2(5) word_bits_short [of ?l] word_bits_short [of "NOT ?l"] by (simp add: stream_def)
  ultimately show ?thesis
    using s1 s2 by (intro exI [of _ ?s] exI [of _ k]) (auto simp: tr_stored_block_def out_inv_def)
qed

theorem stored_block_stream_witness:
  "\<exists>s' k. tr_stored_block [7, 65] \<lparr>pending_buf = [], pending_buf_size = 9, bi_buf = 1, bi_valid = 2, last_eob_len = 8\<rparr> 1 1 1 = Some s' \<and>
    k < 8 \<and> length (stream s') = 5 + k + 40"
proof -
  let ?s = "\<lparr>pending_buf = [], pending_buf_size = 9, bi_buf = 1, bi_valid = 2, last_eob_len = 8\<rparr> :: bit_out"
  have "out_inv ?s" "room ?s (8 + 1)" "mapped [7, 65] 1 1" by (auto simp: out_inv_def room_def mapped_def bit_1_iff)
  then obtain s' k where s': "tr_stored_block [7, 65] ?s 1 (word_of_nat 1) 1 = Some s'" "k < 8"
    "stream s' = stream ?s @ [True, False, False] @ replicate k False @ word_bits 16 (word_of_nat 1 :: 16 word) @
      word_bits 16 (NOT (word_of_nat 1) :: 16 word) @ concat (map (word_bits 8) (block [7, 65] 1 1))"
    using stored_block_stream [of ?s 1 "[7, 65]" 1 1] by auto
  have "block [7, 65 :: byte] 1 1 = [65]" "length (stream ?s) = 2" by (simp_all add: block_def stream_def)
  with s' show ?thesis by (intro exI [of _ s'] exI [of _ k]) simp
qed

end
