(* ===== verification/HuffCodes.thy ===== *)
theory HuffCodes
  imports BitOutput "HOL-Library.Sublist"
begin

text \<open>
  The assignment of Huffman codes, \<^verbatim>\<open>bi_reverse\<close> and \<^verbatim>\<open>gen_codes\<close> of \<^verbatim>\<open>libc/src/zlib/trees.c\<close>. Codes are numbered in the order of their lengths
  and stored with their bits reversed, so that the bit output sends the most significant bit first. The lemmas show that
  the codes are prefix free whenever the lengths allow it, and that a sequence of codes sent determines its symbols.
\<close>

unbundle bit_operations_syntax

section \<open>Definitions\<close>

text \<open>A tree element: \<^verbatim>\<open>Freq\<close> or \<^verbatim>\<open>Code\<close> in the first field, \<^verbatim>\<open>Dad\<close> or \<^verbatim>\<open>Len\<close> in the second.\<close>

record ct_data =
  fc :: "16 word"
  dl :: "16 word"

definition MAX_BITS :: nat where "MAX_BITS = 15"

fun bi_reverse_loop :: "32 word \<Rightarrow> 32 word \<Rightarrow> nat \<Rightarrow> 32 word" where
  "bi_reverse_loop res code len =
     (let res = res OR (code AND 1);
          code = drop_bit 1 code;
          res = push_bit 1 res
      in case len of Suc (Suc l) \<Rightarrow> bi_reverse_loop res code (Suc l) | _ \<Rightarrow> res)"

definition bi_reverse :: "32 word \<Rightarrow> nat \<Rightarrow> 32 word" where
  "bi_reverse code len = drop_bit 1 (bi_reverse_loop 0 code len)"

declare bi_reverse_loop.simps [simp del]

text \<open>The entries \<^verbatim>\<open>next_code[1]\<close> to \<^verbatim>\<open>next_code[MAX_BITS]\<close>, from the counts of the lengths from 0.\<close>

fun next_codes :: "16 word \<Rightarrow> 16 word list \<Rightarrow> 16 word list" where
  "next_codes code [] = []"
| "next_codes code (c # cs) = (let code = push_bit 1 (code + c) in code # next_codes code cs)"

fun code_loop :: "ct_data list \<Rightarrow> 16 word list \<Rightarrow> ct_data list option" where
  "code_loop [] next_code = Some []"
| "code_loop (t # ts) next_code =
     (let len = unat (dl t) in
      if len = 0 then do { ts \<leftarrow> code_loop ts next_code; Some (t # ts) }
      else if len < length next_code then do {
        let t = t\<lparr>fc := ucast (bi_reverse (ucast (next_code ! len)) len)\<rparr>;
        ts \<leftarrow> code_loop ts (next_code[len := next_code ! len + 1]);
        Some (t # ts)
      }
      else None)"

text \<open>Entry 0 of \<^verbatim>\<open>next_code\<close> is never used.\<close>

definition gen_codes :: "ct_data list \<Rightarrow> int \<Rightarrow> 16 word list \<Rightarrow> ct_data list option" where
  "gen_codes tree max_code bl_count =
     (if nat (max_code + 1) \<le> length tree \<and> MAX_BITS < length bl_count then do {
        ts \<leftarrow> code_loop (take (nat (max_code + 1)) tree) (0 # next_codes 0 (take MAX_BITS bl_count));
        Some (ts @ drop (nat (max_code + 1)) tree)
      }
      else None)"

section \<open>Specification\<close>

text \<open>The first code of every length.\<close>

fun first_code :: "(nat \<Rightarrow> nat) \<Rightarrow> nat \<Rightarrow> nat" where
  "first_code c 0 = 0"
| "first_code c (Suc k) = 2 * (first_code c k + c k)"

definition count_len :: "ct_data list \<Rightarrow> nat \<Rightarrow> nat" where
  "count_len ts k = length (filter (\<lambda>t. unat (dl t) = k) ts)"

definition rank_in :: "ct_data list \<Rightarrow> nat \<Rightarrow> nat" where
  "rank_in ts i = count_len (take i ts) (unat (dl (ts ! i)))"

text \<open>The bits of a code in the order they are sent.\<close>

definition code_bits :: "ct_data \<Rightarrow> bool list" where
  "code_bits t = word_bits (unat (dl t)) (fc t)"

definition msb_bits :: "nat \<Rightarrow> nat \<Rightarrow> bool list" where
  "msb_bits k n = map (\<lambda>j. bit n (k - 1 - j)) [0..<k]"

text \<open>The lengths of a tree are usable: at most 15, and not oversubscribed.\<close>

definition kraft :: "ct_data list \<Rightarrow> bool" where
  "kraft ts \<longleftrightarrow> (\<forall>t \<in> set ts. unat (dl t) \<le> MAX_BITS) \<and> (\<Sum>k \<in> {1..MAX_BITS}. count_len ts k * 2 ^ (MAX_BITS - k)) \<le> 2 ^ MAX_BITS"

definition counts :: "ct_data list \<Rightarrow> 16 word list" where
  "counts ts = 0 # map (\<lambda>k. word_of_nat (count_len ts k)) [1..<Suc MAX_BITS]"

section \<open>Reversal of bits\<close>

lemma bit_reverse_loop:
  "0 < len \<Longrightarrow> len \<le> 16 \<Longrightarrow> \<not> bit res 0 \<Longrightarrow> i < 32 \<Longrightarrow>
   bit (bi_reverse_loop res code len) i \<longleftrightarrow> (if i = 0 then False else if i \<le> len then bit code (len - i) else bit res (i - len))"
proof (induction res code len arbitrary: i rule: bi_reverse_loop.induct)
  case (1 res code len)
  let ?r = "push_bit 1 (res OR (code AND 1))" and ?c = "drop_bit 1 code"
  have r: "bit ?r j \<longleftrightarrow> 0 < j \<and> (if j = 1 then bit code 0 else bit res (j - 1))" if "j < 32" for j
    using that 1(4) unfolding bit_push_bit_iff by (cases j) (auto simp: bit_or_iff bit_and_iff bit_1_iff)
  show ?case
  proof (cases "len = 1")
    case True
    have "bi_reverse_loop res code 1 = ?r" by (subst bi_reverse_loop.simps) (simp only: Let_def One_nat_def nat.case)
    then show ?thesis unfolding True using r [OF 1(5)] by auto
  next
    case False
    define l where "l = len - 2"
    with False 1(2) have l: "len = Suc (Suc l)" by simp
    have "bit (bi_reverse_loop ?r ?c (Suc l)) i \<longleftrightarrow>
        (if i = 0 then False else if i \<le> Suc l then bit ?c (Suc l - i) else bit ?r (i - Suc l))"
      using 1(3,5) l r [of 0] by (intro 1(1) [OF refl refl refl l]) auto
    moreover have "bi_reverse_loop res code len = bi_reverse_loop ?r ?c (Suc l)"
      by (subst bi_reverse_loop.simps) (simp only: l Let_def nat.case)
    ultimately show ?thesis using r [of "i - Suc l"] 1(5) l by (auto simp: bit_drop_bit_eq Suc_diff_le)
  qed
qed

lemma bit_bi_reverse: "0 < len \<Longrightarrow> len \<le> 16 \<Longrightarrow> j < len \<Longrightarrow> bit (bi_reverse code len) j \<longleftrightarrow> bit code (len - 1 - j)"
  using bit_reverse_loop [of len 0 "Suc j" code] by (simp add: bi_reverse_def bit_drop_bit_eq)

lemma reversed_bits:
  assumes "0 < k" "k \<le> 15" "n < 2 ^ 16"
  shows "word_bits k (ucast (bi_reverse (ucast (word_of_nat n :: 16 word)) k) :: 16 word) = msb_bits k n"
proof (rule nth_equalityI)
  fix j
  assume "j < length (word_bits k (ucast (bi_reverse (ucast (word_of_nat n :: 16 word)) k) :: 16 word))"
  then show "word_bits k (ucast (bi_reverse (ucast (word_of_nat n :: 16 word)) k) :: 16 word) ! j = msb_bits k n ! j"
    using assms bit_bi_reverse [of k j] by (auto simp: msb_bits_def bit_unsigned_iff bit_of_nat_iff)
qed (simp add: msb_bits_def)

lemma bi_reverse_less:
  assumes "0 < len" "len \<le> 16"
  shows "unat (bi_reverse code len) < 2 ^ len"
proof -
  have "take_bit len (bi_reverse code len) = bi_reverse code len"
  proof (rule bit_word_eqI)
    fix j
    assume "j < LENGTH(32)"
    then show "bit (take_bit len (bi_reverse code len)) j = bit (bi_reverse code len) j"
      using bit_reverse_loop [OF assms, of 0 "Suc j" code] bit_imp_le_length [of "bi_reverse_loop 0 code len" "Suc j"]
      by (auto simp: bit_take_bit_iff bi_reverse_def bit_drop_bit_eq split: if_splits)
  qed
  then have "unat (bi_reverse code len) = take_bit len (unat (bi_reverse code len))" by (metis unsigned_take_bit_eq)
  also have "\<dots> < 2 ^ len" by simp
  finally show ?thesis .
qed

section \<open>Numbers of codes\<close>

lemma msb_prefix:
  assumes "prefix (msb_bits k a) (msb_bits k' b)" "a < 2 ^ k" "b < 2 ^ k'"
  shows "k \<le> k' \<and> a = b div 2 ^ (k' - k)"
proof -
  have k: "k \<le> k'" using prefix_length_le [OF assms(1)] by (simp add: msb_bits_def)
  have "bit a i \<longleftrightarrow> bit (b div 2 ^ (k' - k)) i" for i
  proof (cases "i < k")
    case True
    have "msb_bits k a ! (k - 1 - i) = msb_bits k' b ! (k - 1 - i)"
      using assms(1) True by (auto simp: prefix_def msb_bits_def nth_append)
    moreover have "k' - 1 - (k - 1 - i) = i + (k' - k)" using True k by simp
    ultimately have "bit a i \<longleftrightarrow> bit b (i + (k' - k))" using True k by (simp add: msb_bits_def)
    then show ?thesis by (simp add: bit_drop_bit_eq add.commute flip: drop_bit_eq_div)
  next
    case False
    have "a < 2 ^ i" using assms(2) False power_increasing [of k i "2 :: nat"] by linarith
    moreover have "b div 2 ^ (k' - k) < 2 ^ i"
    proof -
      have "b < 2 ^ k * 2 ^ (k' - k)" using assms(3) k by (simp flip: power_add)
      then have "b div 2 ^ (k' - k) < 2 ^ k" by (simp add: less_mult_imp_div_less)
      then show ?thesis using False power_increasing [of k i "2 :: nat"] by linarith
    qed
    ultimately show ?thesis by (simp add: bit_iff_odd)
  qed
  then show ?thesis using k by (simp add: bit_eq_iff)
qed

lemma first_code_sum: "first_code c k + c k = (\<Sum>j \<le> k. c j * 2 ^ (k - j))"
proof (induction k)
  case (Suc k)
  have "(\<Sum>j \<le> k. c j * 2 ^ (Suc k - j)) = 2 * (\<Sum>j \<le> k. c j * 2 ^ (k - j))"
    unfolding sum_distrib_left by (intro sum.cong) (auto simp: Suc_diff_le)
  with Suc show ?case by simp
qed simp

lemma first_code_le:
  assumes "(\<Sum>j \<le> K. c j * 2 ^ (K - j)) \<le> 2 ^ K" "k \<le> K"
  shows "first_code c k + c k \<le> 2 ^ k"
proof -
  have "(\<Sum>j \<le> k. c j * 2 ^ (k - j)) * 2 ^ (K - k) = (\<Sum>j \<le> k. c j * 2 ^ (K - j))"
    unfolding sum_distrib_right using assms(2) by (intro sum.cong) (auto simp: mult.assoc simp flip: power_add)
  also have "\<dots> \<le> (\<Sum>j \<le> K. c j * 2 ^ (K - j))" using assms(2) by (intro sum_mono2) auto
  also have "\<dots> \<le> 2 ^ k * 2 ^ (K - k)" using assms by (simp flip: power_add)
  finally show ?thesis by (simp add: first_code_sum)
qed

lemma first_code_mono: "k < k' \<Longrightarrow> (first_code c k + c k) * 2 ^ (k' - k) \<le> first_code c k'"
proof (induction k')
  case (Suc k')
  then show ?case by (cases "k = k'") (auto simp: Suc_diff_le)
qed simp

section \<open>The loops\<close>

lemma next_codes_first:
  assumes "\<forall>k < length cs. cs ! k = word_of_nat (c (j + k))" "code = word_of_nat (first_code c j)" "i < length cs"
  shows "next_codes code cs ! i = word_of_nat (first_code c (Suc (j + i)))"
  using assms
proof (induction cs arbitrary: code j i)
  case (Cons x cs)
  let ?code = "push_bit 1 (code + x)"
  have x: "x = word_of_nat (c j)" using Cons.prems(1) by force
  then have c: "?code = word_of_nat (first_code c (Suc j))" using Cons.prems(2) by (simp add: push_bit_eq_mult algebra_simps)
  have h: "\<forall>k < length cs. cs ! k = word_of_nat (c (Suc j + k))" using Cons.prems(1) by force
  show ?case
  proof (cases i)
    case 0
    then show ?thesis by (simp only: next_codes.simps Let_def c nth_Cons_0 add_0_right)
  next
    case (Suc i')
    with Cons.prems(3) have "next_codes ?code cs ! i' = word_of_nat (first_code c (Suc (Suc j + i')))" by (intro Cons.IH [OF h c]) simp
    then show ?thesis unfolding Suc next_codes.simps Let_def nth_Cons_Suc add_Suc_right add_Suc .
  qed
qed simp

lemma length_next_codes [simp]: "length (next_codes code cs) = length cs"
  by (induction cs arbitrary: code) (auto simp: Let_def)

lemma count_len_Cons: "count_len (t # ts) k = (if unat (dl t) = k then 1 else 0) + count_len ts k"
  by (simp add: count_len_def)

text \<open>Element \<open>i\<close> with a length gets the first code of its length plus its rank.\<close>

lemma code_loop_ranks:
  "(\<forall>t \<in> set ts. unat (dl t) < length nc) \<Longrightarrow>
   \<exists>ts'. code_loop ts nc = Some ts' \<and> length ts' = length ts \<and> (\<forall>i < length ts. ts' ! i =
     (if unat (dl (ts ! i)) = 0 then ts ! i
      else (ts ! i)\<lparr>fc := ucast (bi_reverse (ucast (nc ! unat (dl (ts ! i)) + word_of_nat (rank_in ts i))) (unat (dl (ts ! i))))\<rparr>))"
proof (induction ts arbitrary: nc)
  case (Cons t ts)
  let ?k = "unat (dl t)"
  let ?nc = "if ?k = 0 then nc else nc[?k := nc ! ?k + 1]"
  have "\<forall>t \<in> set ts. unat (dl t) < length ?nc" using Cons.prems by simp
  from Cons.IH [OF this] obtain ts' where ts': "code_loop ts ?nc = Some ts'" "length ts' = length ts"
    "\<And>i. i < length ts \<Longrightarrow> ts' ! i = (if unat (dl (ts ! i)) = 0 then ts ! i
      else (ts ! i)\<lparr>fc := ucast (bi_reverse (ucast (?nc ! unat (dl (ts ! i)) + word_of_nat (rank_in ts i))) (unat (dl (ts ! i))))\<rparr>)"
    by blast
  let ?t = "if ?k = 0 then t else t\<lparr>fc := ucast (bi_reverse (ucast (nc ! ?k)) ?k)\<rparr>"
  have "code_loop (t # ts) nc = Some (?t # ts')" using ts'(1) Cons.prems by (auto simp: Let_def)
  moreover have "?nc ! unat (dl (ts ! i)) + word_of_nat (rank_in ts i) = nc ! unat (dl (ts ! i)) + word_of_nat (rank_in (t # ts) (Suc i))"
    if "i < length ts" "unat (dl (ts ! i)) \<noteq> 0" for i
    using that Cons.prems by (auto simp: rank_in_def count_len_Cons)
  ultimately show ?case
    using ts'(2,3) by (auto simp: less_Suc_eq_0_disj nth_Cons' rank_in_def count_len_def)
qed simp

section \<open>Prefix freedom\<close>

definition leaf_count :: "ct_data list \<Rightarrow> nat \<Rightarrow> nat" where
  "leaf_count ts k = (if k = 0 then 0 else count_len ts k)"

definition code_number :: "ct_data list \<Rightarrow> nat \<Rightarrow> nat" where
  "code_number ts i = first_code (leaf_count ts) (unat (dl (ts ! i))) + rank_in ts i"

lemma rank_less:
  assumes "i < length ts"
  shows "rank_in ts i < count_len ts (unat (dl (ts ! i)))"
proof -
  let ?P = "\<lambda>t. unat (dl t) = unat (dl (ts ! i))"
  have "filter ?P ts = filter ?P (take i ts) @ ts ! i # filter ?P (drop (Suc i) ts)"
    using id_take_nth_drop [OF assms] by (metis (mono_tags, lifting) filter.simps(2) filter_append)
  then show ?thesis by (simp add: rank_in_def count_len_def)
qed

lemma rank_mono:
  assumes "i < j" "j < length ts" "dl (ts ! i) = dl (ts ! j)"
  shows "rank_in ts i < rank_in ts j"
proof -
  have "rank_in (take j ts) i = rank_in ts i" using assms by (simp add: rank_in_def min.absorb1)
  moreover have "count_len (take j ts) (unat (dl (take j ts ! i))) = rank_in ts j" using assms by (simp add: rank_in_def)
  ultimately show ?thesis using rank_less [of i "take j ts"] assms by simp
qed

lemma kraft_first:
  assumes "kraft ts" "k \<le> 15"
  shows "first_code (leaf_count ts) k + leaf_count ts k \<le> 2 ^ k"
proof -
  have "(\<Sum>j \<le> 15. leaf_count ts j * 2 ^ (15 - j)) = (\<Sum>j \<in> {1..15}. count_len ts j * 2 ^ (15 - j))"
    by (intro sum.mono_neutral_cong_right) (auto simp: leaf_count_def)
  then have "(\<Sum>j \<le> 15. leaf_count ts j * 2 ^ (15 - j)) \<le> 2 ^ 15" using assms(1) by (simp add: kraft_def MAX_BITS_def)
  then show ?thesis using assms(2) by (rule first_code_le)
qed

lemma code_number_less:
  assumes "kraft ts" "i < length ts" "dl (ts ! i) \<noteq> 0"
  shows "code_number ts i < first_code (leaf_count ts) (unat (dl (ts ! i))) + leaf_count ts (unat (dl (ts ! i)))"
    and "code_number ts i < 2 ^ unat (dl (ts ! i))" "unat (dl (ts ! i)) \<le> 15" "0 < unat (dl (ts ! i))"
proof -
  show k: "unat (dl (ts ! i)) \<le> 15" "0 < unat (dl (ts ! i))" using assms by (auto simp: kraft_def MAX_BITS_def unat_gt_0)
  then show l: "code_number ts i < first_code (leaf_count ts) (unat (dl (ts ! i))) + leaf_count ts (unat (dl (ts ! i)))"
    using rank_less [OF assms(2)] by (simp add: code_number_def leaf_count_def)
  show "code_number ts i < 2 ^ unat (dl (ts ! i))" using l kraft_first [OF assms(1) k(1)] by linarith
qed

lemma gen_codes_bits:
  assumes "kraft ts"
  shows "\<exists>ts'. gen_codes ts (int (length ts) - 1) (counts ts) = Some ts' \<and> length ts' = length ts \<and>
    (\<forall>i < length ts. dl (ts' ! i) = dl (ts ! i) \<and> (dl (ts ! i) \<noteq> 0 \<longrightarrow>
      code_bits (ts' ! i) = msb_bits (unat (dl (ts ! i))) (code_number ts i) \<and> unat (fc (ts' ! i)) < 2 ^ unat (dl (ts ! i))))"
proof -
  let ?nc = "0 # next_codes 0 (take MAX_BITS (counts ts))"
  have len: "length (counts ts) = 16" "length ?nc = 16" by (simp_all add: counts_def MAX_BITS_def)
  have c: "take MAX_BITS (counts ts) ! k = word_of_nat (leaf_count ts (0 + k))" if "k < 15" for k
    using that by (cases k) (auto simp: counts_def leaf_count_def MAX_BITS_def simp del: upt_Suc)
  have nc: "?nc ! k = word_of_nat (first_code (leaf_count ts) k)" if k: "0 < k" "k \<le> 15" for k
    using next_codes_first [of "take MAX_BITS (counts ts)" "leaf_count ts" 0 0 "k - 1"] c k len(1) by (simp add: MAX_BITS_def nth_Cons')
  have "\<forall>t \<in> set ts. unat (dl t) < length ?nc" using assms len(2) by (auto simp: kraft_def MAX_BITS_def)
  from code_loop_ranks [OF this] obtain ts' where ts': "code_loop ts ?nc = Some ts'" "length ts' = length ts"
    "\<And>i. i < length ts \<Longrightarrow> ts' ! i = (if unat (dl (ts ! i)) = 0 then ts ! i
      else (ts ! i)\<lparr>fc := ucast (bi_reverse (ucast (?nc ! unat (dl (ts ! i)) + word_of_nat (rank_in ts i))) (unat (dl (ts ! i))))\<rparr>)"
    by blast
  have "code_bits (ts' ! i) = msb_bits (unat (dl (ts ! i))) (code_number ts i) \<and> unat (fc (ts' ! i)) < 2 ^ unat (dl (ts ! i))"
    if i: "i < length ts" "dl (ts ! i) \<noteq> 0" for i
  proof -
    note n = code_number_less [OF assms i]
    have "code_number ts i < 2 ^ 16" using n(2,3) power_increasing [of "unat (dl (ts ! i))" 16 "2 :: nat"] by linarith
    note r = reversed_bits [OF n(4,3) this]
    have w: "?nc ! unat (dl (ts ! i)) + word_of_nat (rank_in ts i) = word_of_nat (code_number ts i)"
      unfolding nc [OF n(4,3)] by (simp add: code_number_def)
    have "ts' ! i = (ts ! i)\<lparr>fc := ucast (bi_reverse (ucast (word_of_nat (code_number ts i) :: 16 word)) (unat (dl (ts ! i))))\<rparr>"
      unfolding ts'(3) [OF i(1)] w using n(4) by simp
    moreover have "unat (ucast w :: 16 word) \<le> unat w" for w :: "32 word" by (simp add: unsigned_ucast_eq)
    moreover have "unat (bi_reverse (ucast (word_of_nat (code_number ts i) :: 16 word)) (unat (dl (ts ! i)))) < 2 ^ unat (dl (ts ! i))"
      using n(3) by (intro bi_reverse_less [OF n(4)]) simp
    ultimately show ?thesis using r le_less_trans by (auto simp: code_bits_def)
  qed
  moreover have "gen_codes ts (int (length ts) - 1) (counts ts) = Some ts'"
    using ts'(1) len(1) by (simp add: gen_codes_def MAX_BITS_def)
  moreover have "dl (ts' ! i) = dl (ts ! i)" if "i < length ts" for i using ts'(3) [OF that] by simp
  ultimately show ?thesis using ts'(2) by blast
qed

lemma numbers_prefix_free:
  assumes "kraft ts" "i < length ts" "j < length ts" "dl (ts ! i) \<noteq> 0" "dl (ts ! j) \<noteq> 0"
    and pre: "prefix (msb_bits (unat (dl (ts ! i))) (code_number ts i)) (msb_bits (unat (dl (ts ! j))) (code_number ts j))"
  shows "i = j"
proof -
  let ?k = "unat (dl (ts ! i))" and ?l = "unat (dl (ts ! j))" and ?f = "first_code (leaf_count ts)"
  note a = code_number_less [OF assms(1,2,4)] and b = code_number_less [OF assms(1,3,5)]
  from msb_prefix [OF pre a(2) b(2)] have kl: "?k \<le> ?l" "code_number ts i = code_number ts j div 2 ^ (?l - ?k)" by auto
  show ?thesis
  proof (cases "?k = ?l")
    case True
    then have "dl (ts ! i) = dl (ts ! j)" by (simp add: word_unat_eq_iff)
    moreover have "rank_in ts i = rank_in ts j" using True kl(2) by (simp add: code_number_def)
    ultimately show ?thesis using rank_mono [of i j ts] rank_mono [of j i ts] assms(2,3) by (metis less_irrefl linorder_neqE_nat)
  next
    case False
    with kl(1) have "(?f ?k + leaf_count ts ?k) * 2 ^ (?l - ?k) \<le> ?f ?l" by (intro first_code_mono) simp
    also have "\<dots> \<le> code_number ts j" by (simp add: code_number_def)
    finally have "?f ?k + leaf_count ts ?k \<le> code_number ts j div 2 ^ (?l - ?k)" by (simp add: less_eq_div_iff_mult_less_eq)
    with kl(2) a(1) show ?thesis by simp
  qed
qed

lemma gen_codes_prefix:
  assumes "kraft ts" "gen_codes ts (int (length ts) - 1) (counts ts) = Some ts'" "i < length ts" "j < length ts"
    "dl (ts ! i) \<noteq> 0" "dl (ts ! j) \<noteq> 0" "prefix (code_bits (ts' ! i)) (code_bits (ts' ! j))"
  shows "i = j"
  using gen_codes_bits [OF assms(1)] assms(2-7) numbers_prefix_free [OF assms(1,3-6)] by auto

section \<open>Sending symbols\<close>

text \<open>\<^verbatim>\<open>send_code\<close> for a list of symbols.\<close>

definition send_code :: "bit_out \<Rightarrow> ct_data list \<Rightarrow> nat \<Rightarrow> bit_out option" where
  "send_code s tree c =
     (if c < length tree then send_bits s (ucast (fc (tree ! c))) (uint (dl (tree ! c))) else None)"

fun send_symbols :: "bit_out \<Rightarrow> ct_data list \<Rightarrow> nat list \<Rightarrow> bit_out option" where
  "send_symbols s tree [] = Some s"
| "send_symbols s tree (c # cs) = do { s \<leftarrow> send_code s tree c; send_symbols s tree cs }"

lemma send_symbols_stream:
  "out_inv s \<Longrightarrow> room s (2 * length cs) \<Longrightarrow> \<forall>c \<in> set cs. c < length tree \<and> 0 < unat (dl (tree ! c)) \<and> unat (dl (tree ! c)) \<le> 15 \<and> unat (fc (tree ! c)) < 2 ^ unat (dl (tree ! c)) \<Longrightarrow>
   \<exists>s'. send_symbols s tree cs = Some s' \<and> stream s' = stream s @ concat (map (\<lambda>c. code_bits (tree ! c)) cs) \<and> out_inv s'"
proof (induction cs arbitrary: s)
  case (Cons c cs)
  let ?t = "tree ! c"
  have u: "unat (ucast (fc ?t) :: 32 word) = unat (fc ?t)"
    using unsigned_less [of "fc ?t", where ?'a = nat] by (simp add: unsigned_ucast_eq take_bit_nat_eq_self)
  have "word_bits (unat (dl ?t)) (ucast (fc ?t) :: 32 word) = code_bits ?t"
    using Cons.prems(3) by (intro nth_equalityI) (auto simp: code_bits_def bit_unsigned_iff)
  moreover obtain s1 where "send_bits s (ucast (fc ?t)) (int (unat (dl ?t))) = Some s1"
    "stream s1 = stream s @ word_bits (unat (dl ?t)) (ucast (fc ?t) :: 32 word)" "out_inv s1" "room s1 (2 * length cs)"
    using send_bits_stream [OF Cons.prems(1), of "unat (dl ?t)" "ucast (fc ?t)" "2 * length cs"] Cons.prems(2,3) u by auto
  ultimately show ?case using Cons.IH [of s1] Cons.prems(3) by (auto simp: send_code_def)
qed simp

lemma prefix_free_unique:
  assumes "\<And>a b. a \<in> S \<Longrightarrow> b \<in> S \<Longrightarrow> prefix (f a) (f b) \<Longrightarrow> a = b" "\<And>a. a \<in> S \<Longrightarrow> f a \<noteq> []"
  shows "set xs \<subseteq> S \<Longrightarrow> set ys \<subseteq> S \<Longrightarrow> concat (map f xs) = concat (map f ys) \<Longrightarrow> xs = ys"
proof (induction xs arbitrary: ys)
  case Nil
  then show ?case using assms(2) by (cases ys) auto
next
  case (Cons x xs)
  then obtain y ys' where ys: "ys = y # ys'" using assms(2) by (cases ys) auto
  have "f y @ concat (map f ys') = f x @ concat (map f xs)" using Cons.prems(3) ys by simp
  then have "prefix (f x) (f y @ concat (map f ys'))" by (rule prefixI)
  moreover have "prefix (f y) (f y @ concat (map f ys'))" by simp
  ultimately have "prefix (f x) (f y) \<or> prefix (f y) (f x)" by (rule prefix_same_cases)
  then have "x = y" using assms(1) Cons.prems(1,2) ys by auto
  with Cons ys show ?case by auto
qed

text \<open>A small tree: one code of one bit and two codes of two bits.\<close>

definition sample_tree :: "ct_data list" where
  "sample_tree = [\<lparr>fc = 0, dl = 1\<rparr>, \<lparr>fc = 0, dl = 2\<rparr>, \<lparr>fc = 0, dl = 2\<rparr>]"

lemma kraft_sample: "kraft sample_tree"
proof -
  have "{1..15 :: nat} = {1, 2} \<union> {3..15}" by auto
  then show ?thesis by (simp add: kraft_def count_len_def MAX_BITS_def sample_tree_def)
qed

section \<open>Properties\<close>

text \<open>C17: \<open>gen_codes\<close> gives a prefix free code: for every set of lengths up to 15 bits that satisfies the inequality of Kraft it
  ends without a fault, keeps the lengths, and no code is the beginning of the code of another symbol.\<close>

theorem gen_codes_prefix_free:
  assumes "kraft ts"
  shows "\<exists>ts'. gen_codes ts (int (length ts) - 1) (counts ts) = Some ts' \<and> map dl ts' = map dl ts \<and>
    (\<forall>i < length ts. \<forall>j < length ts. dl (ts ! i) \<noteq> 0 \<longrightarrow> dl (ts ! j) \<noteq> 0 \<longrightarrow>
       prefix (code_bits (ts' ! i)) (code_bits (ts' ! j)) \<longrightarrow> i = j)"
proof -
  obtain ts' where "gen_codes ts (int (length ts) - 1) (counts ts) = Some ts'" "length ts' = length ts" "\<forall>i < length ts. dl (ts' ! i) = dl (ts ! i)"
    using gen_codes_bits [OF assms] by blast
  then show ?thesis using gen_codes_prefix [OF assms] by (auto intro!: exI [of _ ts'] nth_equalityI)
qed

theorem gen_codes_prefix_free_witness:
  "\<exists>ts'. gen_codes sample_tree 2 (counts sample_tree) = Some ts' \<and> \<not> prefix (code_bits (ts' ! 0)) (code_bits (ts' ! 2))"
proof -
  have len: "length sample_tree = 3" "dl (sample_tree ! 0) \<noteq> 0" "dl (sample_tree ! 2) \<noteq> 0" by (simp_all add: sample_tree_def)
  then obtain ts' where "gen_codes sample_tree 2 (counts sample_tree) = Some ts'"
    "\<forall>i < 3. \<forall>j < 3. dl (sample_tree ! i) \<noteq> 0 \<longrightarrow> dl (sample_tree ! j) \<noteq> 0 \<longrightarrow> prefix (code_bits (ts' ! i)) (code_bits (ts' ! j)) \<longrightarrow> i = j"
    using gen_codes_prefix_free [OF kraft_sample] by auto
  from this(2) [rule_format, of 0 2] this(1) len show ?thesis by auto
qed

text \<open>C16: what is sent can be decoded: with the codes of \<open>gen_codes\<close> the symbols sent determine the output and the output determines
  the symbols, wherever the bit buffer stands.\<close>

theorem codes_decodable:
  fixes ts cs
  defines "valid \<equiv> \<lambda>cs. \<forall>c \<in> set cs. c < length ts \<and> dl (ts ! c) \<noteq> 0"
  assumes "kraft ts" "gen_codes ts (int (length ts) - 1) (counts ts) = Some tree" "out_inv s" "room s (2 * length cs)" "valid cs"
  shows "\<exists>s'. send_symbols s tree cs = Some s' \<and> stream s' = stream s @ concat (map (\<lambda>c. code_bits (tree ! c)) cs) \<and> out_inv s' \<and>
    (\<forall>cs' s''. valid cs' \<and> room s (2 * length cs') \<and> send_symbols s tree cs' = Some s'' \<and> stream s'' = stream s' \<longrightarrow> cs' = cs)"
proof -
  have len: "length tree = length ts" using gen_codes_bits [OF assms(2)] assms(3) by auto
  have t: "dl (tree ! i) = dl (ts ! i) \<and> (dl (ts ! i) \<noteq> 0 \<longrightarrow> unat (fc (tree ! i)) < 2 ^ unat (dl (ts ! i)))" if "i < length ts" for i
    using gen_codes_bits [OF assms(2)] assms(3) that by auto
  have ok: "\<forall>c \<in> set cs. c < length tree \<and> 0 < unat (dl (tree ! c)) \<and> unat (dl (tree ! c)) \<le> 15 \<and> unat (fc (tree ! c)) < 2 ^ unat (dl (tree ! c))"
    if "valid cs" for cs
    using that t len code_number_less(3,4) [OF assms(2)] by (auto simp: valid_def)
  have ne: "code_bits (tree ! c) \<noteq> []" if "valid [c]" for c using ok [OF that] by (auto simp: code_bits_def word_bits_def)
  have u: "cs' = cs" if "valid cs'" "concat (map (\<lambda>c. code_bits (tree ! c)) cs') = concat (map (\<lambda>c. code_bits (tree ! c)) cs)" for cs'
  proof (rule prefix_free_unique [of "{c. valid [c]}" "\<lambda>c. code_bits (tree ! c)"])
    show "set cs' \<subseteq> {c. valid [c]}" "set cs \<subseteq> {c. valid [c]}" using that(1) assms(6) by (auto simp: valid_def)
    show "a = b" if "a \<in> {c. valid [c]}" "b \<in> {c. valid [c]}" "prefix (code_bits (tree ! a)) (code_bits (tree ! b))" for a b
      using that by (intro gen_codes_prefix [OF assms(2,3)]) (auto simp: valid_def)
  qed (use ne that(2) in auto)
  obtain s' where s': "send_symbols s tree cs = Some s'" "stream s' = stream s @ concat (map (\<lambda>c. code_bits (tree ! c)) cs)" "out_inv s'"
    using send_symbols_stream [OF assms(4,5) ok [OF assms(6)]] by blast
  moreover have "cs' = cs" if "valid cs'" "room s (2 * length cs')" "send_symbols s tree cs' = Some s''" "stream s'' = stream s'" for cs' s''
    using send_symbols_stream [OF assms(4) that(2) ok [OF that(1)]] that(3,4) s'(2) u [OF that(1)] by auto
  ultimately show ?thesis by blast
qed

theorem codes_decodable_witness:
  "\<exists>tree s'. gen_codes sample_tree 2 (counts sample_tree) = Some tree \<and>
    send_symbols \<lparr>pending_buf = [], pending_buf_size = 4, bi_buf = 1, bi_valid = 2, last_eob_len = 8\<rparr> tree [2, 0] = Some s' \<and>
    (\<forall>s''. send_symbols \<lparr>pending_buf = [], pending_buf_size = 4, bi_buf = 1, bi_valid = 2, last_eob_len = 8\<rparr> tree [0, 2] = Some s'' \<longrightarrow> stream s'' \<noteq> stream s')"
proof -
  let ?s = "\<lparr>pending_buf = [], pending_buf_size = 4, bi_buf = 1, bi_valid = 2, last_eob_len = 8\<rparr> :: bit_out"
  have len: "length sample_tree = 3" "dl (sample_tree ! 0) \<noteq> 0" "dl (sample_tree ! 2) \<noteq> 0" by (simp_all add: sample_tree_def)
  then obtain tree where t: "gen_codes sample_tree 2 (counts sample_tree) = Some tree" using gen_codes_bits [OF kraft_sample] by auto
  have "out_inv ?s" "room ?s (2 * length [2, 0 :: nat])" by (auto simp: out_inv_def room_def bit_1_iff)
  then obtain s' where "send_symbols ?s tree [2, 0] = Some s'"
    "\<forall>cs' s''. (\<forall>c \<in> set cs'. c < 3 \<and> dl (sample_tree ! c) \<noteq> 0) \<and> room ?s (2 * length cs') \<and> send_symbols ?s tree cs' = Some s'' \<and>
      stream s'' = stream s' \<longrightarrow> cs' = [2, 0]"
    using codes_decodable [OF kraft_sample, of tree ?s "[2, 0]"] t len by auto
  from this(2) [rule_format, of "[0, 2]"] this(1) t len show ?thesis by (auto simp: room_def)
qed

end
