(* ===== verification/CodeLens.thy ===== *)
theory CodeLens
  imports HuffCodes
begin

text \<open>
  The code lengths of a block: \<^verbatim>\<open>scan_tree\<close> and \<^verbatim>\<open>send_tree\<close> of \<^verbatim>\<open>libc/src/zlib/trees.c\<close>, which count and send them as runs, and the loop
  of \<^verbatim>\<open>inflate\<close> (\<^verbatim>\<open>libc/src/zlib/inflate.c\<close>, state \<^verbatim>\<open>CODELENS\<close>) that expands the runs again. A run is sent as symbols with a few extra bits;
  the specification \<open>tree_items\<close> is the list of these items.
\<close>

section \<open>Definitions\<close>

definition REP_3_6 :: nat where "REP_3_6 = 16"
definition REPZ_3_10 :: nat where "REPZ_3_10 = 17"
definition REPZ_11_138 :: nat where "REPZ_11_138 = 18"

text \<open>The limits for the next run.\<close>

definition run_limits :: "nat \<Rightarrow> nat \<Rightarrow> nat \<times> nat" where
  "run_limits curlen nextlen =
     (if nextlen = 0 then (138, 3) else if curlen = nextlen then (6, 3) else (7, 4))"

subsection \<open>scan\_tree\<close>

definition add_freq :: "16 word list \<Rightarrow> nat \<Rightarrow> nat \<Rightarrow> 16 word list option" where
  "add_freq bl i k = (if i < length bl then Some (bl[i := bl ! i + word_of_nat k]) else None)"

definition scan_run :: "16 word list \<Rightarrow> int \<Rightarrow> nat \<Rightarrow> nat \<Rightarrow> nat \<Rightarrow> 16 word list option" where
  "scan_run bl prevlen curlen count min_count =
     (if count < min_count then add_freq bl curlen count
      else if curlen \<noteq> 0 then do {
        bl \<leftarrow> (if int curlen \<noteq> prevlen then add_freq bl curlen 1 else Some bl);
        add_freq bl REP_3_6 1
      }
      else if count \<le> 10 then add_freq bl REPZ_3_10 1
      else add_freq bl REPZ_11_138 1)"

text \<open>The list holds the lengths behind the current one, up to the guard.\<close>

fun scan_tree_loop :: "16 word list \<Rightarrow> int \<Rightarrow> nat \<Rightarrow> nat \<times> nat \<Rightarrow> nat \<Rightarrow> nat list \<Rightarrow> 16 word list option" where
  "scan_tree_loop bl prevlen count limits curlen [] = Some bl"
| "scan_tree_loop bl prevlen count (max_count, min_count) curlen (nextlen # rest) =
     (if count + 1 < max_count \<and> curlen = nextlen then scan_tree_loop bl prevlen (count + 1) (max_count, min_count) nextlen rest
      else do {
        bl \<leftarrow> scan_run bl prevlen curlen (count + 1) min_count;
        scan_tree_loop bl (int curlen) 0 (run_limits curlen nextlen) nextlen rest
      })"

definition scan_tree :: "16 word list \<Rightarrow> ct_data list \<Rightarrow> nat \<Rightarrow> (16 word list \<times> ct_data list) option" where
  "scan_tree bl tree max_code =
     (if max_code + 1 < length tree then do {
        let nextlen = unat (dl (tree ! 0));
        let tree = tree[max_code + 1 := (tree ! (max_code + 1))\<lparr>dl := 0xffff\<rparr>];
        bl \<leftarrow> scan_tree_loop bl (- 1) 0 (if nextlen = 0 then (138, 3) else (7, 4)) nextlen
                (map (\<lambda>t. unat (dl t)) (take (max_code + 1) (tl tree)));
        Some (bl, tree)
      }
      else None)"

subsection \<open>send\_tree\<close>

fun send_repeat :: "bit_out \<Rightarrow> ct_data list \<Rightarrow> nat \<Rightarrow> nat \<Rightarrow> bit_out option" where
  "send_repeat s bl curlen 0 = Some s"
| "send_repeat s bl curlen (Suc count) = do { s \<leftarrow> send_code s bl curlen; send_repeat s bl curlen count }"

definition send_run :: "bit_out \<Rightarrow> ct_data list \<Rightarrow> int \<Rightarrow> nat \<Rightarrow> nat \<Rightarrow> nat \<Rightarrow> bit_out option" where
  "send_run s bl prevlen curlen count min_count =
     (if count < min_count then send_repeat s bl curlen count
      else if curlen \<noteq> 0 then do {
        s \<leftarrow> (if int curlen \<noteq> prevlen then send_code s bl curlen else Some s);
        let count = (if int curlen \<noteq> prevlen then count - 1 else count);
        s \<leftarrow> send_code s bl REP_3_6;
        send_bits s (word_of_nat count - 3) 2
      }
      else if count \<le> 10 then do {
        s \<leftarrow> send_code s bl REPZ_3_10;
        send_bits s (word_of_nat count - 3) 3
      }
      else do {
        s \<leftarrow> send_code s bl REPZ_11_138;
        send_bits s (word_of_nat count - 11) 7
      })"

fun send_tree_loop :: "bit_out \<Rightarrow> ct_data list \<Rightarrow> int \<Rightarrow> nat \<Rightarrow> nat \<times> nat \<Rightarrow> nat \<Rightarrow> nat list \<Rightarrow> bit_out option" where
  "send_tree_loop s bl prevlen count limits curlen [] = Some s"
| "send_tree_loop s bl prevlen count (max_count, min_count) curlen (nextlen # rest) =
     (if count + 1 < max_count \<and> curlen = nextlen then send_tree_loop s bl prevlen (count + 1) (max_count, min_count) nextlen rest
      else do {
        s \<leftarrow> send_run s bl prevlen curlen (count + 1) min_count;
        send_tree_loop s bl (int curlen) 0 (run_limits curlen nextlen) nextlen rest
      })"

definition send_tree :: "bit_out \<Rightarrow> ct_data list \<Rightarrow> ct_data list \<Rightarrow> nat \<Rightarrow> bit_out option" where
  "send_tree s bl tree max_code =
     (if max_code + 1 < length tree then
        let nextlen = unat (dl (tree ! 0))
        in send_tree_loop s bl (- 1) 0 (if nextlen = 0 then (138, 3) else (7, 4)) nextlen
             (map (\<lambda>t. unat (dl t)) (take (max_code + 1) (tl tree)))
      else None)"

subsection \<open>inflate\<close>

text \<open>One round of the loop of \<^verbatim>\<open>inflate\<close>: a symbol with the value of its extra bits, and the lengths so far; \<open>None\<close> is the state \<^verbatim>\<open>BAD\<close>.
  How the symbol is found in the bits is left to the decoding table.\<close>

definition codelens_step :: "nat \<Rightarrow> nat list \<Rightarrow> nat \<times> nat \<Rightarrow> nat list option" where
  "codelens_step lim lens item = (let (val, extra) = item in
     if val < 16 then Some (lens @ [val])
     else do {
       (len, copy) \<leftarrow>
         (if val = 16 then if lens = [] then None else Some (last lens, 3 + extra)
          else if val = 17 then Some (0, 3 + extra)
          else Some (0, 11 + extra));
       if length lens + copy > lim then None else Some (lens @ replicate copy len)
     })"

fun codelens_loop :: "nat \<Rightarrow> nat list \<Rightarrow> (nat \<times> nat) list \<Rightarrow> nat list option" where
  "codelens_loop lim lens [] = Some lens"
| "codelens_loop lim lens (i # is) =
     (if length lens < lim then do { lens \<leftarrow> codelens_step lim lens i; codelens_loop lim lens is } else Some lens)"

section \<open>Specification\<close>

text \<open>An item is a symbol, the value of its extra bits, and their number.\<close>

type_synonym rle_item = "nat \<times> nat \<times> nat"

definition run_items :: "int \<Rightarrow> nat \<Rightarrow> nat \<Rightarrow> nat \<Rightarrow> rle_item list" where
  "run_items prevlen curlen count min_count =
     (if count < min_count then replicate count (curlen, 0, 0)
      else if curlen \<noteq> 0 then
        if int curlen \<noteq> prevlen then [(curlen, 0, 0), (16, count - 4, 2)] else [(16, count - 3, 2)]
      else if count \<le> 10 then [(17, count - 3, 3)]
      else [(18, count - 11, 7)])"

fun loop_items :: "int \<Rightarrow> nat \<Rightarrow> nat \<times> nat \<Rightarrow> nat \<Rightarrow> nat list \<Rightarrow> rle_item list" where
  "loop_items prevlen count limits curlen [] = []"
| "loop_items prevlen count (max_count, min_count) curlen (nextlen # rest) =
     (if count + 1 < max_count \<and> curlen = nextlen then loop_items prevlen (count + 1) (max_count, min_count) nextlen rest
      else run_items prevlen curlen (count + 1) min_count @ loop_items (int curlen) 0 (run_limits curlen nextlen) nextlen rest)"

definition tree_items :: "nat list \<Rightarrow> rle_item list" where
  "tree_items lens = loop_items (- 1) 0 (if hd lens = 0 then (138, 3) else (7, 4)) (hd lens) (tl lens @ [0xffff])"

text \<open>Sending items: the code of the symbol, then the extra bits.\<close>

definition send_item :: "bit_out \<Rightarrow> ct_data list \<Rightarrow> rle_item \<Rightarrow> bit_out option" where
  "send_item s bl item = (case item of (c, extra, n) \<Rightarrow> do {
     s \<leftarrow> send_code s bl c;
     if n = 0 then Some s else send_bits s (word_of_nat extra) (int n)
   })"

fun send_items :: "bit_out \<Rightarrow> ct_data list \<Rightarrow> rle_item list \<Rightarrow> bit_out option" where
  "send_items s bl [] = Some s"
| "send_items s bl (i # is) = do { s \<leftarrow> send_item s bl i; send_items s bl is }"

section \<open>Sending is sending the items\<close>

lemma send_items_append: "send_items s bl (xs @ ys) = do { s \<leftarrow> send_items s bl xs; send_items s bl ys }"
  by (induction xs arbitrary: s) (auto simp: Option.bind_assoc)

lemma send_repeat_items: "send_repeat s bl c n = send_items s bl (replicate n (c, 0, 0))"
  by (induction n arbitrary: s) (auto simp: send_item_def)

text \<open>A run is as long as the limits allow.\<close>

definition limits_ok :: "int \<Rightarrow> nat \<Rightarrow> nat \<times> nat \<Rightarrow> bool" where
  "limits_ok prevlen curlen limits \<longleftrightarrow> limits =
     (if curlen = 0 then (138, 3) else if prevlen = int curlen then (6, 3) else (7, 4))"

lemma limits_ok_next [simp]: "limits_ok (int curlen) nextlen (run_limits curlen nextlen)"
  by (auto simp: limits_ok_def run_limits_def)

lemma word_of_nat_minus: "k \<le> n \<Longrightarrow> word_of_nat n - word_of_nat k = (word_of_nat (n - k) :: 32 word)"
  by (simp add: of_nat_diff)

lemma send_run_items:
  assumes "limits_ok prevlen curlen (max_count, min_count)" "0 < count" "count \<le> max_count"
  shows "send_run s bl prevlen curlen count min_count = send_items s bl (run_items prevlen curlen count min_count)"
proof -
  have w: "word_of_nat count - 3 = (word_of_nat (count - 3) :: 32 word)" if "3 \<le> count"
    using word_of_nat_minus [OF that] by simp
  have w1: "word_of_nat (count - 1) - 3 = (word_of_nat (count - 4) :: 32 word)" if "4 \<le> count"
    using word_of_nat_minus [of 3 "count - 1"] that by simp
  have w2: "word_of_nat count - 11 = (word_of_nat (count - 11) :: 32 word)" if "11 \<le> count"
    using word_of_nat_minus [OF that] by simp
  show ?thesis
    using assms w w1 w2
    by (auto simp: send_run_def run_items_def send_repeat_items send_item_def limits_ok_def REP_3_6_def REPZ_3_10_def REPZ_11_138_def
        Let_def Option.bind_assoc split: if_splits)
qed

lemma send_tree_loop_items:
  "limits_ok prevlen curlen limits \<Longrightarrow> count < fst limits \<Longrightarrow>
   send_tree_loop s bl prevlen count limits curlen rest = send_items s bl (loop_items prevlen count limits curlen rest)"
proof (induction s bl prevlen count limits curlen rest rule: send_tree_loop.induct)
  case (2 s bl prevlen count max_count min_count curlen nextlen rest)
  show ?case
  proof (cases "count + 1 < max_count \<and> curlen = nextlen")
    case True
    then show ?thesis using 2(1,3) by simp
  next
    case False
    have "0 < fst (run_limits curlen nextlen)" by (simp add: run_limits_def)
    then show ?thesis
      using False 2 send_run_items [OF 2(3), of "count + 1"] by (auto simp: send_items_append split: bind_splits)
  qed
qed simp

section \<open>Expanding the items gives the lengths\<close>

abbreviation symbol_extra :: "rle_item list \<Rightarrow> (nat \<times> nat) list" where
  "symbol_extra items \<equiv> map (\<lambda>(c, e, n). (c, e)) items"

lemma codelens_append:
  "codelens_loop lim lens (xs @ ys) = do { lens \<leftarrow> codelens_loop lim lens xs; codelens_loop lim lens ys }"
proof (induction xs arbitrary: lens)
  case (Cons x xs)
  then show ?case by (cases ys) (auto split: bind_splits)
qed simp

lemma codelens_replicate:
  "c < 16 \<Longrightarrow> length lens + n \<le> lim \<Longrightarrow> codelens_loop lim lens (replicate n (c, 0)) = Some (lens @ replicate n c)"
  by (induction n arbitrary: lens) (auto simp: codelens_step_def)

lemma expand_run:
  assumes "limits_ok prevlen curlen (max_count, min_count)" "0 < count" "count \<le> max_count" "curlen < 16"
    and "length lens + count \<le> lim" "prevlen = int curlen \<longrightarrow> lens \<noteq> [] \<and> last lens = curlen"
  shows "codelens_loop lim lens (symbol_extra (run_items prevlen curlen count min_count)) = Some (lens @ replicate count curlen)"
proof (cases "count < min_count")
  case True
  then show ?thesis using assms codelens_replicate [of curlen lens count lim] by (simp add: run_items_def)
next
  case False
  show ?thesis
  proof (cases "curlen \<noteq> 0 \<and> int curlen \<noteq> prevlen")
    case True
    have "replicate count curlen = curlen # replicate (count - 1) curlen" using assms(2) by (cases count) auto
    with True False assms show ?thesis by (auto simp: run_items_def codelens_step_def limits_ok_def Let_def split: if_splits)
  next
    case n: False
    with False assms show ?thesis by (auto simp: run_items_def codelens_step_def limits_ok_def Let_def split: if_splits)
  qed
qed

lemma expand_loop:
  "limits_ok prevlen curlen limits \<Longrightarrow> count < fst limits \<Longrightarrow> \<forall>l \<in> set (curlen # ls). l < 16 \<Longrightarrow> 16 \<le> guard \<Longrightarrow>
   length lens + count + Suc (length ls) \<le> lim \<Longrightarrow> prevlen = int curlen \<longrightarrow> lens \<noteq> [] \<and> last lens = curlen \<Longrightarrow>
   codelens_loop lim lens (symbol_extra (loop_items prevlen count limits curlen (ls @ [guard])))
     = Some (lens @ replicate count curlen @ curlen # ls)"
proof (induction ls arbitrary: prevlen count limits curlen lens)
  case Nil
  obtain a b where lim: "limits = (a, b)" by (cases limits)
  then show ?case
    using Nil expand_run [of prevlen curlen a b "Suc count" lens lim] by (auto simp: replicate_append_same)
next
  case (Cons l ls)
  obtain a b where lim: "limits = (a, b)" by (cases limits)
  show ?case
  proof (cases "count + 1 < a \<and> curlen = l")
    case True
    then show ?thesis
      using Cons.IH [of prevlen l limits "Suc count" lens] Cons.prems lim by (simp add: replicate_app_Cons_same)
  next
    case False
    have e: "codelens_loop lim lens (symbol_extra (run_items prevlen curlen (Suc count) b)) = Some (lens @ replicate (Suc count) curlen)"
      using Cons.prems lim by (intro expand_run [of prevlen curlen a b]) auto
    have "0 < fst (run_limits curlen l)" by (simp add: run_limits_def)
    then have "codelens_loop lim (lens @ replicate (Suc count) curlen)
        (symbol_extra (loop_items (int curlen) 0 (run_limits curlen l) l (ls @ [guard])))
      = Some ((lens @ replicate (Suc count) curlen) @ replicate 0 l @ l # ls)"
      using Cons.prems by (intro Cons.IH) auto
    then show ?thesis using False e lim by (auto simp: codelens_append replicate_app_Cons_same)
  qed
qed

section \<open>The extra bits hold the counts\<close>

text \<open>The number of extra bits of a symbol is the one \<^verbatim>\<open>inflate\<close> takes for it, and the value sent fits in them.\<close>

definition item_fits :: "rle_item \<Rightarrow> bool" where
  "item_fits item = (case item of (c, extra, n) \<Rightarrow>
     c < 19 \<and> n = (if c = 16 then 2 else if c = 17 then 3 else if c = 18 then 7 else 0) \<and> extra < 2 ^ n)"

lemma run_items_fit:
  assumes "limits_ok prevlen curlen (max_count, min_count)" "count \<le> max_count" "curlen < 16"
  shows "list_all item_fits (run_items prevlen curlen count min_count)"
  using assms by (auto simp: run_items_def item_fits_def limits_ok_def list_all_iff split: if_splits)

lemma loop_items_fit:
  "limits_ok prevlen curlen limits \<Longrightarrow> count < fst limits \<Longrightarrow> \<forall>l \<in> set (curlen # ls). l < 16 \<Longrightarrow>
   list_all item_fits (loop_items prevlen count limits curlen (ls @ [guard]))"
proof (induction ls arbitrary: prevlen count limits curlen)
  case Nil
  obtain a b where "limits = (a, b)" by (cases limits)
  then show ?case using Nil run_items_fit [of prevlen curlen a b "Suc count"] by auto
next
  case (Cons l ls)
  obtain a b where lim: "limits = (a, b)" by (cases limits)
  have "0 < fst (run_limits curlen l)" by (simp add: run_limits_def)
  then have "list_all item_fits (loop_items (int curlen) 0 (run_limits curlen l) l (ls @ [guard]))"
    using Cons.prems by (intro Cons.IH) auto
  moreover have "list_all item_fits (run_items prevlen curlen (Suc count) b)"
    using run_items_fit [of prevlen curlen a b "Suc count"] Cons.prems lim by auto
  ultimately show ?case using Cons.IH [of prevlen l limits "Suc count"] Cons.prems lim by auto
qed

section \<open>Counting is counting the items\<close>

definition item_count :: "rle_item list \<Rightarrow> nat \<Rightarrow> nat" where
  "item_count items c = length (filter (\<lambda>i. fst i = c) items)"

definition add_counts :: "16 word list \<Rightarrow> rle_item list \<Rightarrow> 16 word list" where
  "add_counts bl items = map (\<lambda>c. bl ! c + word_of_nat (item_count items c)) [0..<length bl]"

lemma add_counts_append: "add_counts bl (xs @ ys) = add_counts (add_counts bl xs) ys"
  by (auto simp: add_counts_def item_count_def add.assoc intro!: nth_equalityI)

lemma add_freq_counts: "c < length bl \<Longrightarrow> add_freq bl c n = Some (add_counts bl (replicate n (c, e, k)))"
  by (auto simp: add_freq_def add_counts_def item_count_def nth_list_update filter_replicate intro!: nth_equalityI)

lemma length_add_counts [simp]: "length (add_counts bl items) = length bl"
  by (simp add: add_counts_def)

lemma scan_run_counts:
  assumes "curlen < 16" "19 \<le> length bl"
  shows "scan_run bl prevlen curlen count min_count = Some (add_counts bl (run_items prevlen curlen count min_count))"
proof -
  have one: "add_counts bl [(c, e, k)] = bl[c := bl ! c + 1]" for bl c e k
    by (auto simp: add_counts_def item_count_def nth_list_update intro!: nth_equalityI)
  have two: "add_counts bl [x, y] = add_counts (add_counts bl [x]) [y]" for bl x y
    using add_counts_append [of bl "[x]" "[y]"] by simp
  show ?thesis
    using assms by (simp add: scan_run_def run_items_def REP_3_6_def REPZ_3_10_def REPZ_11_138_def
      add_freq_counts [where n = count and e = 0 and k = 0] add_freq_def [of _ _ "Suc 0"] two one)
qed

lemma scan_tree_loop_counts:
  "\<forall>l \<in> set (curlen # ls). l < 16 \<Longrightarrow> 19 \<le> length bl \<Longrightarrow>
   scan_tree_loop bl prevlen count limits curlen (ls @ [guard]) = Some (add_counts bl (loop_items prevlen count limits curlen (ls @ [guard])))"
proof (induction ls arbitrary: bl prevlen count limits curlen)
  case Nil
  obtain a b where lim: "limits = (a, b)" by (cases limits)
  have e: "add_counts bl [] = bl" by (auto simp: add_counts_def item_count_def intro!: nth_equalityI)
  show ?case using Nil e scan_run_counts [of curlen bl prevlen "Suc count" b] lim by auto
next
  case (Cons l ls)
  obtain a b where lim: "limits = (a, b)" by (cases limits)
  show ?case using Cons scan_run_counts [of curlen bl prevlen "Suc count" b] lim by (auto simp: add_counts_append)
qed

section \<open>Trees\<close>

definition tree_lens :: "ct_data list \<Rightarrow> nat list" where
  "tree_lens ts = map (\<lambda>t. unat (dl t)) ts"

lemma guarded_lens:
  assumes "max_code + 1 < length tree" "unat (dl (tree ! (max_code + 1))) = 0xffff"
  shows "map (\<lambda>t. unat (dl t)) (take (max_code + 1) (tl tree)) = tl (tree_lens (take (max_code + 1) tree)) @ [0xffff]"
    and "unat (dl (tree ! 0)) = hd (tree_lens (take (max_code + 1) tree))"
proof -
  obtain t ts where tree: "tree = t # ts" using assms(1) by (cases tree) auto
  have "take (Suc max_code) ts = take max_code ts @ [ts ! max_code]" using assms(1) tree by (simp add: take_Suc_conv_app_nth)
  then show "map (\<lambda>t. unat (dl t)) (take (max_code + 1) (tl tree)) = tl (tree_lens (take (max_code + 1) tree)) @ [0xffff]"
    "unat (dl (tree ! 0)) = hd (tree_lens (take (max_code + 1) tree))"
    using assms(2) tree by (simp_all add: tree_lens_def)
qed

section \<open>Properties\<close>

text \<open>C15: the code lengths survive the run length coding: \<open>scan_tree\<close> counts exactly the symbols that \<open>send_tree\<close> sends, each symbol
  comes with the number of extra bits \<open>inflate\<close> takes for it (two, three and seven for 16, 17 and 18, none for a length) and a
  value that fits in them, and the loop of \<open>inflate\<close> expands the symbols, with these values, to the lengths of the tree,
  whatever lengths were read before.\<close>

theorem send_tree_roundtrip:
  fixes tree max_code
  defines "lens \<equiv> tree_lens (take (max_code + 1) tree)"
  defines "tree' \<equiv> tree[max_code + 1 := (tree ! (max_code + 1))\<lparr>dl := 0xffff\<rparr>]"
  assumes "max_code + 1 < length tree" "\<forall>l \<in> set lens. l < 16" "19 \<le> length bl"
  shows "scan_tree bl tree max_code = Some (add_counts bl (tree_items lens), tree') \<and>
    send_tree s bl_tree tree' max_code = send_items s bl_tree (tree_items lens) \<and>
    list_all item_fits (tree_items lens) \<and>
    (length before + length lens \<le> lim \<longrightarrow> codelens_loop lim before (symbol_extra (tree_items lens)) = Some (before @ lens))"
proof -
  have g: "max_code + 1 < length tree'" "unat (dl (tree' ! (max_code + 1))) = 0xffff" "take (max_code + 1) tree' = take (max_code + 1) tree"
    "tree ! 0 = tree' ! 0"
    using assms(3) by (simp_all add: tree'_def)
  note l = guarded_lens [OF g(1,2), unfolded g(3), folded lens_def]
  have ne: "hd lens # tl lens = lens" using assms(3) by (cases tree) (auto simp: lens_def tree_lens_def)
  have lim: "limits_ok (- 1) (hd lens) (if hd lens = 0 then (138, 3) else (7, 4))" by (auto simp: limits_ok_def)
  have "scan_tree bl tree max_code = Some (add_counts bl (tree_items lens), tree')"
    using scan_tree_loop_counts [of "hd lens" "tl lens" bl "- 1" 0 _ "0xffff"] assms(3-5) ne
    unfolding scan_tree_def Let_def tree'_def [symmetric] g(4) l tree_items_def by simp
  moreover have "send_tree s bl_tree tree' max_code = send_items s bl_tree (tree_items lens)"
    using send_tree_loop_items [OF lim, of 0 s bl_tree "tl lens @ [0xffff]"] g(1) l by (simp add: send_tree_def tree_items_def)
  moreover have "list_all item_fits (tree_items lens)"
    using loop_items_fit [OF lim, of 0 "tl lens" "0xffff"] assms(4) ne by (simp add: tree_items_def)
  moreover have "codelens_loop lim before (symbol_extra (tree_items lens)) = Some (before @ lens)" if "length before + length lens \<le> lim"
  proof -
    have "length lens = Suc (length (tl lens))" using ne by (metis length_Cons)
    then show ?thesis
      using expand_loop [OF lim, of 0 "tl lens" "0xffff" before lim] assms(4) that ne by (simp add: tree_items_def)
  qed
  ultimately show ?thesis by blast
qed

theorem send_tree_roundtrip_witness:
  "\<exists>bl' tree'. scan_tree (replicate 19 0) (map (\<lambda>l. \<lparr>fc = 0, dl = l\<rparr>) [3, 3, 3, 3, 3, 0, 0, 0, 0, 7]) 8 = Some (bl', tree') \<and>
    codelens_loop 9 [] [(3, 0), (16, 1), (17, 1)] = Some [3, 3, 3, 3, 3, 0, 0, 0, 0] \<and> bl' ! 16 = 1"
proof -
  let ?tree = "map (\<lambda>l. \<lparr>fc = 0, dl = l\<rparr>) [3, 3, 3, 3, 3, 0, 0, 0, 0, 7] :: ct_data list" and ?bl = "replicate 19 0 :: 16 word list"
  let ?lens = "[3, 3, 3, 3, 3, 0, 0, 0, 0] :: nat list"
  have l: "tree_lens (take (8 + 1) ?tree) = ?lens" by (simp add: tree_lens_def)
  have i: "tree_items ?lens = [(3, 0, 0), (16, 1, 2), (17, 1, 3)]" by (simp add: tree_items_def run_items_def run_limits_def)
  have "scan_tree ?bl ?tree 8 = Some (add_counts ?bl (tree_items ?lens), ?tree[8 + 1 := (?tree ! (8 + 1))\<lparr>dl := 0xffff\<rparr>])"
    "codelens_loop 9 [] (symbol_extra (tree_items ?lens)) = Some ?lens"
    using send_tree_roundtrip [of 8 ?tree ?bl _ _ "[]" 9] unfolding l by simp_all
  moreover have "add_counts ?bl (tree_items ?lens) ! 16 = 1" unfolding i by (simp add: add_counts_def item_count_def)
  ultimately show ?thesis unfolding i by simp
qed

end
