(* ===== verification/Crc32.thy ===== *)
theory Crc32
  imports MemFuns CrcTables
begin

text \<open>
  The checksum of \<^verbatim>\<open>libc/src/zlib/crc32.c\<close>: the generator of the tables, the byte-wise loop, the two loops that take four
  bytes at a time (for little and for big endian machines) and the combination of two checksums. The
  reference is the shift register that takes one bit at a time, \<open>crc_bit\<close>. \<open>unsigned long\<close> has 64 bits and \<open>u4\<close>
  has 32; the assignments to a \<open>u4\<close> truncate. The test for the byte order of the machine is a parameter of \<open>crc32\<close>,
  as is the comparison of two type sizes in front of it. The flags that keep two threads from making the tables at the
  same time are not modelled. The loop of \<^verbatim>\<open>crc32_combine\<close> is a \<open>partial_function\<close>: it does not end for a
  negative length.
\<close>

unbundle bit_operations_syntax

section \<open>Definitions\<close>

definition REV :: "'a::len word \<Rightarrow> 'a word" where
  "REV w = drop_bit 24 w + (drop_bit 8 w AND 0xff00) + push_bit 8 (w AND 0xff00) + push_bit 24 (w AND 0xff)"

subsection \<open>Generating the tables\<close>

definition crc_poly :: "64 word" where
  "crc_poly = foldl (\<lambda>poly e. poly OR push_bit (31 - e) 1) 0 [0, 1, 2, 4, 5, 7, 8, 10, 11, 12, 16, 22, 23, 26]"

definition crc_shift :: "64 word \<Rightarrow> 64 word" where
  "crc_shift c = (if c AND 1 \<noteq> 0 then crc_poly XOR drop_bit 1 c else drop_bit 1 c)"

definition crc_next :: "64 word list \<Rightarrow> 64 word \<Rightarrow> 64 word" where
  "crc_next t c = t ! unat (c AND 0xff) XOR drop_bit 8 c"

definition make_crc_table :: "64 word list list" where
  "make_crc_table =
     (let t0 = map (\<lambda>n. (crc_shift ^^ 8) (word_of_nat n)) [0..<256];
          ts = map (\<lambda>k. map (\<lambda>n. (crc_next t0 ^^ k) (t0 ! n)) [0..<256]) [0..<4]
      in ts @ map (map REV) ts)"

subsection \<open>One byte at a time\<close>

definition crc_do1 :: "64 word \<Rightarrow> byte \<Rightarrow> 64 word" where
  "crc_do1 crc b = crc_table ! 0 ! unat ((ucast crc XOR ucast b :: 32 word) AND 0xff) XOR drop_bit 8 crc"

fun crc_do8 :: "mem \<Rightarrow> 64 word \<Rightarrow> addr \<Rightarrow> nat \<Rightarrow> 64 word option" where
  "crc_do8 m crc buf 0 = Some crc"
| "crc_do8 m crc buf (Suc n) = do { b \<leftarrow> rd m buf; crc_do8 m (crc_do1 crc b) (buf + 1) n }"

function crc_plain :: "mem \<Rightarrow> 64 word \<Rightarrow> addr \<Rightarrow> nat \<Rightarrow> 64 word option" where
  "crc_plain m crc buf len =
     (if len \<ge> 8 then do { crc \<leftarrow> crc_do8 m crc buf 8; crc_plain m crc (buf + 8) (len - 8) }
      else crc_do8 m crc buf len)"
  by pat_completeness auto
termination
  by (relation "measure (\<lambda>(m, crc, buf, len). len)") auto

declare crc_plain.simps [simp del]

subsection \<open>Four bytes at a time\<close>

text \<open>Reading a \<open>u4\<close> on the two kinds of machine.\<close>

definition rd4_little :: "mem \<Rightarrow> addr \<Rightarrow> 32 word option" where
  "rd4_little m p = do {
     b0 \<leftarrow> rd m p; b1 \<leftarrow> rd m (p + 1); b2 \<leftarrow> rd m (p + 2); b3 \<leftarrow> rd m (p + 3);
     Some (ucast b0 XOR push_bit 8 (ucast b1) XOR push_bit 16 (ucast b2) XOR push_bit 24 (ucast b3))
   }"

definition rd4_big :: "mem \<Rightarrow> addr \<Rightarrow> 32 word option" where
  "rd4_big m p = do {
     b0 \<leftarrow> rd m p; b1 \<leftarrow> rd m (p + 1); b2 \<leftarrow> rd m (p + 2); b3 \<leftarrow> rd m (p + 3);
     Some (ucast b3 XOR push_bit 8 (ucast b2) XOR push_bit 16 (ucast b1) XOR push_bit 24 (ucast b0))
   }"

text \<open>The loops that \<^verbatim>\<open>crc32_little\<close> and \<^verbatim>\<open>crc32_big\<close> share: bytes up to an aligned address, groups of \<open>k\<close> bytes, and the
  bytes that are left.\<close>

function crc_align :: "('c \<Rightarrow> byte \<Rightarrow> 'c) \<Rightarrow> mem \<Rightarrow> 'c \<Rightarrow> addr \<Rightarrow> nat \<Rightarrow> ('c \<times> addr \<times> nat) option" where
  "crc_align step m c buf len =
     (if len \<noteq> 0 \<and> buf mod 4 \<noteq> 0 then do { b \<leftarrow> rd m buf; crc_align step m (step c b) (buf + 1) (len - 1) }
      else Some (c, buf, len))"
  by pat_completeness auto
termination
  by (relation "measure (\<lambda>(step, m, c, buf, len). len)") auto

declare crc_align.simps [simp del]

function crc_groups :: "nat \<Rightarrow> (mem \<Rightarrow> 'c \<Rightarrow> addr \<Rightarrow> 'c option) \<Rightarrow> mem \<Rightarrow> 'c \<Rightarrow> addr \<Rightarrow> nat \<Rightarrow> ('c \<times> addr \<times> nat) option" where
  "crc_groups k step m c buf len =
     (if 0 < k \<and> len \<ge> k then do { c \<leftarrow> step m c buf; crc_groups k step m c (buf + k) (len - k) }
      else Some (c, buf, len))"
  by pat_completeness auto
termination
  by (relation "measure (\<lambda>(k, step, m, c, buf, len). len)") auto

declare crc_groups.simps [simp del]

fun crc_tail :: "('c \<Rightarrow> byte \<Rightarrow> 'c) \<Rightarrow> mem \<Rightarrow> 'c \<Rightarrow> addr \<Rightarrow> nat \<Rightarrow> 'c option" where
  "crc_tail step m c buf 0 = Some c"
| "crc_tail step m c buf (Suc len) = do { b \<leftarrow> rd m buf; crc_tail step m (step c b) (buf + 1) len }"

fun crc_times :: "nat \<Rightarrow> (mem \<Rightarrow> 'c \<Rightarrow> addr \<Rightarrow> 'c option) \<Rightarrow> mem \<Rightarrow> 'c \<Rightarrow> addr \<Rightarrow> 'c option" where
  "crc_times 0 step m c buf = Some c"
| "crc_times (Suc n) step m c buf = do { c \<leftarrow> step m c buf; crc_times n step m c (buf + 4) }"

definition lit_byte :: "32 word \<Rightarrow> byte \<Rightarrow> 32 word" where
  "lit_byte c b = ucast (crc_table ! 0 ! unat ((c XOR ucast b) AND 0xff) XOR ucast (drop_bit 8 c))"

definition DOLIT4 :: "mem \<Rightarrow> 32 word \<Rightarrow> addr \<Rightarrow> 32 word option" where
  "DOLIT4 m c buf4 = do {
     w \<leftarrow> rd4_little m buf4;
     let c = c XOR w;
     Some (ucast (crc_table ! 3 ! unat (c AND 0xff) XOR crc_table ! 2 ! unat (drop_bit 8 c AND 0xff) XOR
       crc_table ! 1 ! unat (drop_bit 16 c AND 0xff) XOR crc_table ! 0 ! unat (drop_bit 24 c)))
   }"

definition DOLIT32 :: "mem \<Rightarrow> 32 word \<Rightarrow> addr \<Rightarrow> 32 word option" where
  "DOLIT32 = crc_times 8 DOLIT4"

definition crc32_little :: "mem \<Rightarrow> 64 word \<Rightarrow> addr \<Rightarrow> nat \<Rightarrow> 64 word option" where
  "crc32_little m crc buf len = do {
     let c = NOT (ucast crc);
     (c, buf, len) \<leftarrow> crc_align lit_byte m c buf len;
     (c, buf4, len) \<leftarrow> crc_groups 32 DOLIT32 m c buf len;
     (c, buf4, len) \<leftarrow> crc_groups 4 DOLIT4 m c buf4 len;
     c \<leftarrow> crc_tail lit_byte m c buf4 len;
     Some (ucast (NOT c))
   }"

definition big_byte :: "32 word \<Rightarrow> byte \<Rightarrow> 32 word" where
  "big_byte c b = ucast (crc_table ! 4 ! unat (drop_bit 24 c XOR ucast b) XOR ucast (push_bit 8 c))"

text \<open>\<^verbatim>\<open>buf4\<close> points to the word before the one that is read.\<close>

definition DOBIG4 :: "mem \<Rightarrow> 32 word \<Rightarrow> addr \<Rightarrow> 32 word option" where
  "DOBIG4 m c buf4 = do {
     w \<leftarrow> rd4_big m (buf4 + 4);
     let c = c XOR w;
     Some (ucast (crc_table ! 4 ! unat (c AND 0xff) XOR crc_table ! 5 ! unat (drop_bit 8 c AND 0xff) XOR
       crc_table ! 6 ! unat (drop_bit 16 c AND 0xff) XOR crc_table ! 7 ! unat (drop_bit 24 c)))
   }"

definition DOBIG32 :: "mem \<Rightarrow> 32 word \<Rightarrow> addr \<Rightarrow> 32 word option" where
  "DOBIG32 = crc_times 8 DOBIG4"

definition crc32_big :: "mem \<Rightarrow> 64 word \<Rightarrow> addr \<Rightarrow> nat \<Rightarrow> 64 word option" where
  "crc32_big m crc buf len = do {
     let c = NOT (REV (ucast crc));
     (c, buf, len) \<leftarrow> crc_align big_byte m c buf len;
     let buf4 = buf - 4;
     (c, buf4, len) \<leftarrow> crc_groups 32 DOBIG32 m c buf4 len;
     (c, buf4, len) \<leftarrow> crc_groups 4 DOBIG4 m c buf4 len;
     c \<leftarrow> crc_tail big_byte m c (buf4 + 4) len;
     Some (ucast (REV (NOT c)))
   }"

text \<open>\<open>byfour\<close> is the comparison of the sizes of \<^verbatim>\<open>void *\<close> and \<^verbatim>\<open>ptrdiff_t\<close>, \<open>little\<close> the first byte of an integer that is 1.\<close>

definition crc32 :: "bool \<Rightarrow> bool \<Rightarrow> mem \<Rightarrow> 64 word \<Rightarrow> addr \<Rightarrow> nat \<Rightarrow> 64 word option" where
  "crc32 byfour little m crc buf len =
     (if buf = NULL then Some 0
      else if byfour then (if little then crc32_little m crc buf len else crc32_big m crc buf len)
      else map_option (\<lambda>crc. crc XOR 0xffffffff) (crc_plain m (crc XOR 0xffffffff) buf len))"

subsection \<open>Combination\<close>

function gf2_times_loop :: "64 word list \<Rightarrow> 64 word \<Rightarrow> 64 word \<Rightarrow> 64 word option" where
  "gf2_times_loop mat vec sm =
     (if vec \<noteq> 0 then case mat of
        [] \<Rightarrow> None
      | row # mat' \<Rightarrow> gf2_times_loop mat' (drop_bit 1 vec) (if vec AND 1 \<noteq> 0 then sm XOR row else sm)
      else Some sm)"
  by pat_completeness auto
termination
  by (relation "measure (\<lambda>(mat, vec, sm). length mat)") auto

declare gf2_times_loop.simps [simp del]

definition gf2_matrix_times :: "64 word list \<Rightarrow> 64 word \<Rightarrow> 64 word option" where
  "gf2_matrix_times mat vec = gf2_times_loop mat vec 0"

definition gf2_matrix_square :: "64 word list \<Rightarrow> 64 word list option" where
  "gf2_matrix_square mat = those (map (\<lambda>n. gf2_matrix_times mat (mat ! n)) [0..<32])"

text \<open>The length is a signed integer, so that \<^verbatim>\<open>>>=\<close> rounds towards minus infinity.\<close>

partial_function (option) combine_loop :: "64 word list \<Rightarrow> 64 word \<Rightarrow> int \<Rightarrow> 64 word option" where
  [code]: "combine_loop od crc1 len2 = do {
     ev \<leftarrow> gf2_matrix_square od;
     crc1 \<leftarrow> (if len2 mod 2 = 1 then gf2_matrix_times ev crc1 else Some crc1);
     let len2 = len2 div 2;
     if len2 = 0 then Some crc1
     else do {
       od \<leftarrow> gf2_matrix_square ev;
       crc1 \<leftarrow> (if len2 mod 2 = 1 then gf2_matrix_times od crc1 else Some crc1);
       let len2 = len2 div 2;
       if len2 \<noteq> 0 then combine_loop od crc1 len2 else Some crc1
     }
   }"

definition crc32_combine :: "64 word \<Rightarrow> 64 word \<Rightarrow> int \<Rightarrow> 64 word option" where
  "crc32_combine crc1 crc2 len2 =
     (if len2 = 0 then Some crc1
      else do {
        let od = 0xedb88320 # map (\<lambda>n. push_bit n 1) [0..<31];
        ev \<leftarrow> gf2_matrix_square od;
        od \<leftarrow> gf2_matrix_square ev;
        crc1 \<leftarrow> combine_loop od crc1 len2;
        Some (crc1 XOR crc2)
      })"

section \<open>The shift register\<close>

definition crc_bit :: "32 word \<Rightarrow> 32 word" where
  "crc_bit c = (if bit c 0 then 0xedb88320 XOR drop_bit 1 c else drop_bit 1 c)"

text \<open>The reference: eight shifts for every byte, starting from the complement of the previous checksum.\<close>

definition crc_upd :: "32 word \<Rightarrow> byte \<Rightarrow> 32 word" where
  "crc_upd c b = (crc_bit ^^ 8) (c XOR ucast b)"

definition crc_spec :: "32 word \<Rightarrow> byte list \<Rightarrow> 32 word" where
  "crc_spec crc bs = NOT (foldl crc_upd (NOT crc) bs)"

lemma crc_bit_xor: "crc_bit (a XOR b) = crc_bit a XOR crc_bit b"
  by (rule bit_word_eqI) (auto simp: crc_bit_def bit_xor_iff bit_drop_bit_eq)

lemma crc_bits_xor: "(crc_bit ^^ k) (a XOR b) = (crc_bit ^^ k) a XOR (crc_bit ^^ k) b"
  by (induction k) (simp_all add: crc_bit_xor)

lemma crc_bits_0 [simp]: "(crc_bit ^^ k) 0 = 0"
  by (induction k) (simp_all add: crc_bit_def)

lemma crc_bits_add: "(crc_bit ^^ j) ((crc_bit ^^ k) c) = (crc_bit ^^ (j + k)) c"
  by (simp add: funpow_add)

lemma crc_bit_push:
  assumes "0 < k" "\<And>i. bit x i \<Longrightarrow> i + k < 32"
  shows "crc_bit (push_bit k x) = push_bit (k - 1) x"
proof (rule bit_word_eqI)
  fix n assume n: "n < LENGTH(32)"
  with assms(1) assms(2) [of "Suc n - k"] show "bit (crc_bit (push_bit k x)) n = bit (push_bit (k - 1) x) n"
    by (auto simp: crc_bit_def bit_push_bit_iff bit_drop_bit_eq)
qed

lemma crc_bits_push:
  assumes "\<And>i. bit x i \<Longrightarrow> i + k < 32"
  shows "(crc_bit ^^ (j + k)) (push_bit k x) = (crc_bit ^^ j) x"
  using assms
proof (induction k)
  case (Suc k)
  have "(crc_bit ^^ (j + Suc k)) (push_bit (Suc k) x) = (crc_bit ^^ (j + k)) (crc_bit (push_bit (Suc k) x))"
    by (simp only: add_Suc_right funpow_Suc_right o_apply)
  also have "crc_bit (push_bit (Suc k) x) = push_bit k x"
    using crc_bit_push [of "Suc k" x] Suc.prems by (simp only: diff_Suc_1 zero_less_Suc)
  also have "(crc_bit ^^ (j + k)) (push_bit k x) = (crc_bit ^^ j) x"
    using Suc.prems by (intro Suc.IH) force
  finally show ?case .
qed simp

lemma crc_bits_push_byte:
  "k \<le> 24 \<Longrightarrow> (crc_bit ^^ (j + k)) (push_bit k (ucast (b :: byte))) = (crc_bit ^^ j) (ucast b)"
  by (rule crc_bits_push) (auto simp: bit_ucast_iff dest: bit_imp_le_length)

text \<open>The bytes of a word.\<close>

definition byte_of :: "nat \<Rightarrow> 32 word \<Rightarrow> byte" where
  "byte_of k c = ucast (drop_bit (8 * k) c)"

lemma word_of_bytes:
  "c = ucast (byte_of 0 c) XOR push_bit 8 (ucast (byte_of 1 c)) XOR push_bit 16 (ucast (byte_of 2 c)) XOR
     push_bit 24 (ucast (byte_of 3 c))"
proof (rule bit_word_eqI)
  fix n assume n: "n < LENGTH(32)"
  consider "n < 8" | "8 \<le> n" "n < 16" | "16 \<le> n" "n < 24" | "24 \<le> n" by linarith
  then show "bit c n = bit (ucast (byte_of 0 c) XOR push_bit 8 (ucast (byte_of 1 c)) XOR push_bit 16 (ucast (byte_of 2 c)) XOR
     push_bit 24 (ucast (byte_of 3 c)) :: 32 word) n"
    by cases (use n in \<open>simp_all add: byte_of_def bit_xor_iff bit_push_bit_iff bit_ucast_iff bit_drop_bit_eq less_diff_conv2\<close>)
qed

text \<open>Four bytes at once: the shifts of the bytes of a word can be taken apart and put together.\<close>

lemma crc_upd_push: "k \<le> 24 \<Longrightarrow> (crc_bit ^^ k) c XOR ucast (b :: byte) = (crc_bit ^^ k) (c XOR push_bit k (ucast b))"
  using crc_bits_push_byte [of k 0 b] by (simp add: crc_bits_xor)

lemma crc_upd_4:
  "foldl crc_upd c [b0, b1, b2, b3] =
     (crc_bit ^^ 32) (c XOR (ucast b0 XOR push_bit 8 (ucast b1) XOR push_bit 16 (ucast b2) XOR push_bit 24 (ucast b3)))"
proof -
  have "foldl crc_upd c [b0, b1, b2, b3] = (crc_bit ^^ 8) ((crc_bit ^^ 8) ((crc_bit ^^ 8) (
      (crc_bit ^^ 8) (c XOR ucast b0) XOR ucast b1) XOR ucast b2) XOR ucast b3)"
    by (simp add: crc_upd_def)
  also have "\<dots> = (crc_bit ^^ 32) (c XOR ucast b0 XOR push_bit 8 (ucast b1) XOR push_bit 16 (ucast b2) XOR push_bit 24 (ucast b3))"
    by (simp add: crc_upd_push crc_bits_add xor.assoc)
  finally show ?thesis by (simp add: xor.assoc)
qed

lemma crc_bits_bytes:
  "(crc_bit ^^ 32) c = (crc_bit ^^ 32) (ucast (byte_of 0 c)) XOR (crc_bit ^^ 24) (ucast (byte_of 1 c)) XOR
     (crc_bit ^^ 16) (ucast (byte_of 2 c)) XOR (crc_bit ^^ 8) (ucast (byte_of 3 c))"
  by (subst word_of_bytes [of c])
    (use crc_bits_push_byte [of 8 24] crc_bits_push_byte [of 16 16] crc_bits_push_byte [of 24 8] in \<open>simp add: crc_bits_xor\<close>)

lemma crc_bits_byte: "(crc_bit ^^ 8) c = (crc_bit ^^ 8) (ucast (byte_of 0 c)) XOR drop_bit 8 c"
proof -
  have "c = ucast (byte_of 0 c) XOR push_bit 8 (drop_bit 8 c)"
    by (rule bit_word_eqI) (auto simp: byte_of_def bit_xor_iff bit_push_bit_iff bit_ucast_iff bit_drop_bit_eq)
  then have "(crc_bit ^^ 8) c = (crc_bit ^^ 8) (ucast (byte_of 0 c) XOR push_bit 8 (drop_bit 8 c))" by simp
  also have "(crc_bit ^^ (0 + 8)) (push_bit 8 (drop_bit 8 c)) = (crc_bit ^^ 0) (drop_bit 8 c)"
    by (rule crc_bits_push) (auto simp: bit_drop_bit_eq dest: bit_imp_le_length)
  then have "(crc_bit ^^ 8) (ucast (byte_of 0 c) XOR push_bit 8 (drop_bit 8 c)) =
      (crc_bit ^^ 8) (ucast (byte_of 0 c)) XOR drop_bit 8 c"
    by (simp add: crc_bits_xor)
  finally show ?thesis .
qed

text \<open>Tables of linear functions.\<close>

lemma bit_nat_less: "n < 2 ^ k \<Longrightarrow> bit (n :: nat) i \<Longrightarrow> i < k"
  by (metis bit_take_bit_iff take_bit_nat_eq_self)

lemma word_of_nat_top:
  assumes "n < 2 ^ k" "k < LENGTH('a::len)"
  shows "(word_of_nat (2 ^ k + n) :: 'a word) = push_bit k 1 XOR word_of_nat n"
proof -
  have "push_bit k 1 AND (word_of_nat n :: 'a word) = 0"
    by (rule bit_word_eqI) (auto simp: bit_and_iff bit_push_bit_iff bit_of_nat_iff bit_1_iff bit_exp_iff dest: bit_nat_less [OF assms(1)])
  then show ?thesis
    by (simp add: disjunctive_add_eq_xor [symmetric] push_bit_of_1)
qed

lemma nth_xor_table:
  fixes f :: "32 word \<Rightarrow> 32 word"
  assumes "\<And>a b. f (a XOR b) = f a XOR f b" "f 0 = 0" "k \<le> 32" "n < 2 ^ k"
  shows "xor_table (map (\<lambda>j. ucast (f (push_bit j 1))) (rev [0..<k])) ! n = (ucast (f (word_of_nat n)) :: 64 word)"
  using assms(3,4)
proof (induction k arbitrary: n)
  case (Suc k)
  show ?case
  proof (cases "n < 2 ^ k")
    case True
    then show ?thesis using Suc by (simp add: nth_append)
  next
    case False
    then obtain r where r: "n = 2 ^ k + r" "r < 2 ^ k" using Suc.prems(2) by (auto simp: not_less le_iff_add)
    have "(word_of_nat n :: 32 word) = push_bit k 1 XOR word_of_nat r"
      unfolding r(1) using r(2) Suc.prems(1) by (intro word_of_nat_top) auto
    moreover have "ucast (a XOR b) = (ucast a XOR ucast b :: 64 word)" for a b :: "32 word"
      by (rule bit_word_eqI) (auto simp: bit_xor_iff bit_ucast_iff)
    ultimately show ?thesis
      using Suc.IH [OF _ r(2)] Suc.prems(1) by (simp add: nth_append r assms(1))
  qed
qed (simp add: assms(2))

section \<open>The tables\<close>

text \<open>The states of the register after a single bit, 32 of them.\<close>

fun crc_orbit :: "nat \<Rightarrow> 32 word \<Rightarrow> 32 word list" where
  "crc_orbit 0 c = []"
| "crc_orbit (Suc n) c = c # crc_orbit n (crc_bit c)"

lemma nth_crc_orbit: "i < n \<Longrightarrow> crc_orbit n c ! i = (crc_bit ^^ i) c"
proof (induction n arbitrary: i c)
  case (Suc n)
  then show ?case by (cases i) (simp_all add: funpow_Suc_right del: funpow.simps)
qed simp

lemma length_crc_orbit [simp]: "length (crc_orbit n c) = n"
  by (induction n arbitrary: c) auto

lemma crc_orbit_4: "crc_orbit (n + 4) c = c # crc_bit c # crc_bit (crc_bit c) # crc_bit (crc_bit (crc_bit c)) #
    crc_orbit n (crc_bit (crc_bit (crc_bit (crc_bit c))))"
  by (simp add: numeral_eq_Suc)

lemma crc_orbit_32: "crc_orbit 32 c = crc_orbit (0 + 4 + 4 + 4 + 4 + 4 + 4 + 4 + 4) c"
  by simp

definition crc_powers :: "32 word list" where
  "crc_powers = crc_orbit 32 0xedb88320"

lemma crc_bit_steps:
  "crc_bit 0xedb88320 = 0x76dc4190" "crc_bit 0x76dc4190 = 0x3b6e20c8" "crc_bit 0x3b6e20c8 = 0x1db71064" "crc_bit 0x1db71064 = 0x0edb8832"
  "crc_bit 0x0edb8832 = 0x076dc419" "crc_bit 0x076dc419 = 0xee0e612c" "crc_bit 0xee0e612c = 0x77073096" "crc_bit 0x77073096 = 0x3b83984b"
  "crc_bit 0x3b83984b = 0xf0794f05" "crc_bit 0xf0794f05 = 0x958424a2" "crc_bit 0x958424a2 = 0x4ac21251" "crc_bit 0x4ac21251 = 0xc8d98a08"
  "crc_bit 0xc8d98a08 = 0x646cc504" "crc_bit 0x646cc504 = 0x32366282" "crc_bit 0x32366282 = 0x191b3141" "crc_bit 0x191b3141 = 0xe1351b80"
  "crc_bit 0xe1351b80 = 0x709a8dc0" "crc_bit 0x709a8dc0 = 0x384d46e0" "crc_bit 0x384d46e0 = 0x1c26a370" "crc_bit 0x1c26a370 = 0x0e1351b8"
  "crc_bit 0x0e1351b8 = 0x0709a8dc" "crc_bit 0x0709a8dc = 0x0384d46e" "crc_bit 0x0384d46e = 0x01c26a37" "crc_bit 0x01c26a37 = 0xed59b63b"
  "crc_bit 0xed59b63b = 0x9b14583d" "crc_bit 0x9b14583d = 0xa032af3e" "crc_bit 0xa032af3e = 0x5019579f" "crc_bit 0x5019579f = 0xc5b428ef"
  "crc_bit 0xc5b428ef = 0x8f629757" "crc_bit 0x8f629757 = 0xaa09c88b" "crc_bit 0xaa09c88b = 0xb8bc6765"
  by (simp_all add: crc_bit_def bit_0)

lemma crc_powers_eq: "crc_powers = [
     0xedb88320, 0x76dc4190, 0x3b6e20c8, 0x1db71064, 0x0edb8832, 0x076dc419, 0xee0e612c, 0x77073096,
     0x3b83984b, 0xf0794f05, 0x958424a2, 0x4ac21251, 0xc8d98a08, 0x646cc504, 0x32366282, 0x191b3141,
     0xe1351b80, 0x709a8dc0, 0x384d46e0, 0x1c26a370, 0x0e1351b8, 0x0709a8dc, 0x0384d46e, 0x01c26a37,
     0xed59b63b, 0x9b14583d, 0xa032af3e, 0x5019579f, 0xc5b428ef, 0x8f629757, 0xaa09c88b, 0xb8bc6765]"
  unfolding crc_powers_def crc_orbit_32 crc_orbit_4 crc_bit_steps crc_orbit.simps ..

lemma length_crc_powers [simp]: "length crc_powers = 32"
  by (simp add: crc_powers_def)

lemma crc_bits_power:
  assumes "j < 8" "k < 4"
  shows "(crc_bit ^^ (8 * Suc k)) (push_bit j 1) = crc_powers ! (8 * k + (7 - j))"
proof -
  have "(crc_bit ^^ (Suc (8 * k + (7 - j)) + j)) (push_bit j 1) = (crc_bit ^^ Suc (8 * k + (7 - j))) 1"
    using assms(1) by (intro crc_bits_push) (auto simp: bit_1_iff)
  also have "Suc (8 * k + (7 - j)) + j = 8 * Suc k" using assms(1) by simp
  also have "(crc_bit ^^ Suc (8 * k + (7 - j))) 1 = (crc_bit ^^ (8 * k + (7 - j))) (crc_bit 1)"
    by (simp only: funpow_Suc_right o_apply)
  also have "crc_bit 1 = 0xedb88320" by (simp add: crc_bit_def)
  finally show ?thesis
    using assms by (simp add: crc_powers_def nth_crc_orbit)
qed

lemma rev_upt_8: "rev [0..<8] = [7, 6, 5, 4, 3, 2, 1, 0]"
  by (simp add: upt_rec)

lemma crc_powers_map:
  assumes "k < 4"
  shows "map (\<lambda>j. g ((crc_bit ^^ (8 * Suc k)) (push_bit j 1))) (rev [0..<8]) = map g (take 8 (drop (8 * k) crc_powers))"
proof (rule nth_equalityI)
  fix i assume "i < length (map (\<lambda>j. g ((crc_bit ^^ (8 * Suc k)) (push_bit j 1))) (rev [0..<8]))"
  then have i: "i < 8" by simp
  then have "rev [0..<8] ! i = 7 - i" by (simp add: rev_nth)
  moreover have "take 8 (drop (8 * k) crc_powers) ! i = crc_powers ! (8 * k + (7 - (7 - i)))" using i assms by simp
  ultimately show "map (\<lambda>j. g ((crc_bit ^^ (8 * Suc k)) (push_bit j 1))) (rev [0..<8]) ! i =
      map g (take 8 (drop (8 * k) crc_powers)) ! i"
    using crc_bits_power [of "7 - i" k] assms i by (simp del: push_bit_of_1 mult_Suc_right)
qed (use assms in simp)

lemma less_4: "k < 4 \<longleftrightarrow> k = 0 \<or> k = 1 \<or> k = 2 \<or> k = (3 :: nat)"
  by auto

lemma crc_table_powers:
  "k < 4 \<Longrightarrow> crc_table ! k = xor_table (map ucast (take 8 (drop (8 * k) crc_powers)))"
  unfolding less_4 crc_powers_eq
  by (elim disjE) (simp_all add: crc_table_def crc_table_0_xor crc_table_1_xor crc_table_2_xor crc_table_3_xor del: xor_table.simps)

lemma crc_table_low:
  assumes "k < 4" "n < 256"
  shows "crc_table ! k ! n = ucast ((crc_bit ^^ (8 * Suc k)) (word_of_nat n))"
  unfolding crc_table_powers [OF assms(1)] crc_powers_map [OF assms(1), symmetric]
  by (rule nth_xor_table) (use assms(2) in \<open>simp_all add: crc_bits_xor\<close>)

section \<open>Byte reversal\<close>

lemma word_ff: "(0xff :: 'a::len word) = mask 8" "(0xff00 :: 'a::len word) = push_bit 8 (mask 8)"
  by (simp_all add: mask_eq_exp_minus_1)

lemma add_xor: "(\<And>n. \<not> (bit a n \<and> bit b n)) \<Longrightarrow> a + b = a XOR (b :: 'a::len word)"
  by (rule disjunctive_add_eq_xor, rule bit_word_eqI) (auto simp: bit_and_iff)

lemma bit_REV:
  assumes "\<And>i. bit (w :: 'a::len word) i \<Longrightarrow> i < 32" "32 \<le> LENGTH('a)"
  shows "bit (REV w) n \<longleftrightarrow> n < 32 \<and> bit w (if n < 8 then n + 24 else if n < 16 then n + 8 else if n < 24 then n - 8 else n - 24)"
proof -
  define a b c d where "a = drop_bit 24 w" and "b = drop_bit 8 w AND 0xff00" and "c = push_bit 8 (w AND 0xff00)"
    and "d = push_bit 24 (w AND 0xff)"
  note defs = this
  have a: "bit a n \<longleftrightarrow> n < 8 \<and> bit w (n + 24)" for n
    using assms(1) [of "n + 24"] unfolding defs by (auto simp: bit_drop_bit_eq add.commute)
  have b: "bit b n \<longleftrightarrow> 8 \<le> n \<and> n < 16 \<and> bit w (n + 8)" for n
    using assms(2) unfolding defs by (auto simp: bit_drop_bit_eq bit_and_iff word_ff bit_push_bit_iff bit_mask_iff add.commute)
  have c: "bit c n \<longleftrightarrow> 16 \<le> n \<and> n < 24 \<and> bit w (n - 8)" for n
    using assms(2) unfolding defs by (auto simp: bit_and_iff word_ff bit_push_bit_iff bit_mask_iff)
  have d: "bit d n \<longleftrightarrow> 24 \<le> n \<and> n < 32 \<and> bit w (n - 24)" for n
    using assms(2) unfolding defs by (auto simp: bit_and_iff word_ff bit_push_bit_iff bit_mask_iff)
  have 1: "a + b = a XOR b" by (rule add_xor) (simp add: a b)
  have 2: "(a XOR b) + c = (a XOR b) XOR c" by (rule add_xor) (auto simp: a b c bit_xor_iff)
  have 3: "((a XOR b) XOR c) + d = ((a XOR b) XOR c) XOR d" by (rule add_xor) (auto simp: a b c d bit_xor_iff)
  show ?thesis
    unfolding REV_def defs [symmetric] 1 2 3 by (auto simp: bit_xor_iff a b c d)
qed

lemma bit_ucast_byte: "bit (ucast (b :: byte) :: 32 word) i \<longleftrightarrow> i < 8 \<and> bit b i"
  by (auto simp: bit_ucast_iff dest: bit_imp_le_length)

lemma bit_REV32: "bit (REV (w :: 32 word)) n \<longleftrightarrow>
    n < 32 \<and> bit w (if n < 8 then n + 24 else if n < 16 then n + 8 else if n < 24 then n - 8 else n - 24)"
  by (rule bit_REV) (auto dest: bit_imp_le_length)

lemma REV_xor: "REV (a XOR b) = REV a XOR REV (b :: 32 word)"
  by (rule bit_word_eqI) (auto simp: bit_REV32 bit_xor_iff)

lemma REV_not: "REV (NOT a) = NOT (REV (a :: 32 word))"
  by (rule bit_word_eqI) (auto simp: bit_REV32 bit_not_iff)

lemma REV_REV [simp]: "REV (REV a) = (a :: 32 word)"
  by (rule bit_word_eqI) (auto simp: bit_REV32)

lemma REV_ucast: "REV (ucast (a :: 32 word) :: 64 word) = ucast (REV a)"
  by (rule bit_word_eqI, subst bit_REV) (auto simp: bit_REV32 bit_ucast_iff dest: bit_imp_le_length)

lemma REV_push: "push_bit 8 (REV c) = REV (drop_bit 8 (c :: 32 word))"
  by (rule bit_word_eqI) (auto simp: bit_REV32 bit_push_bit_iff bit_drop_bit_eq add.commute dest: bit_imp_le_length)

lemma REV_bytes:
  "REV (ucast (b0 :: byte) XOR push_bit 8 (ucast b1) XOR push_bit 16 (ucast b2) XOR push_bit 24 (ucast b3)) =
     (ucast (b3 :: byte) XOR push_bit 8 (ucast (b2 :: byte)) XOR push_bit 16 (ucast (b1 :: byte)) XOR push_bit 24 (ucast b0) :: 32 word)"
  (is "REV ?x = ?y")
proof (rule bit_word_eqI)
  fix n assume n: "n < LENGTH(32)"
  consider "n < 8" | "8 \<le> n" "n < 16" | "16 \<le> n" "n < 24" | "24 \<le> n" by linarith
  then show "bit (REV ?x) n = bit ?y n"
    by cases (use n in \<open>simp_all add: bit_REV32 bit_xor_iff bit_push_bit_iff bit_ucast_byte less_diff_conv2 le_diff_conv2\<close>)
qed

lemma crc_table_rev_powers:
  "k < 4 \<Longrightarrow> crc_table ! (k + 4) = xor_table (map (\<lambda>c. ucast (REV c)) (take 8 (drop (8 * k) crc_powers)))"
  unfolding less_4 crc_powers_eq
  by (elim disjE) (simp_all add: crc_table_def crc_table_4_xor crc_table_5_xor crc_table_6_xor crc_table_7_xor REV_def
      del: xor_table.simps)

lemma crc_table_high:
  assumes "k < 4" "n < 256"
  shows "crc_table ! (k + 4) ! n = ucast (REV ((crc_bit ^^ (8 * Suc k)) (word_of_nat n)))"
proof -
  have "(REV (0 :: 32 word)) = 0" by (simp add: REV_def)
  then show ?thesis
    unfolding crc_table_rev_powers [OF assms(1)] crc_powers_map [OF assms(1), symmetric]
    by (intro nth_xor_table) (use assms(2) in \<open>simp_all add: crc_bits_xor REV_xor\<close>)
qed

section \<open>The loops over a block\<close>

lemma crc_groups_0: "crc_groups k step m c p 0 = Some (c, p, 0)"
  by (subst crc_groups.simps) auto

text \<open>An engine keeps the register in some form, takes a byte or four bytes at a time, and reads the four bytes \<open>off\<close> bytes
  behind the address it gets.\<close>

locale crc_engine =
  fixes step1 :: "'c \<Rightarrow> byte \<Rightarrow> 'c" and step4 :: "mem \<Rightarrow> 'c \<Rightarrow> addr \<Rightarrow> 'c option" and off :: nat and reg :: "'c \<Rightarrow> 32 word"
  assumes one: "reg (step1 c b) = crc_upd (reg c) b"
    and four: "mapped m (p + off) 4 \<Longrightarrow>
      \<exists>c'. step4 m c p = Some c' \<and> reg c' = foldl crc_upd (reg c) (block m (p + off) 4)"
    and off: "off \<le> 4"
begin

lemma align:
  assumes "mapped m buf len"
  shows "\<exists>c' k. crc_align step1 m c buf len = Some (c', buf + k, len - k) \<and> k \<le> len \<and>
    reg c' = foldl crc_upd (reg c) (block m buf k) \<and> (len = k \<or> (buf + k) mod 4 = 0)"
  using assms
proof (induction len arbitrary: c buf)
  case 0
  then show ?case by (subst crc_align.simps) simp
next
  case (Suc len)
  show ?case
  proof (cases "buf mod 4 = 0")
    case True
    then show ?thesis
      by (intro exI [of _ c] exI [of _ 0]) (subst crc_align.simps, simp)
  next
    case False
    from Suc.prems have b: "0 < buf" "buf < length m" "mapped m (buf + 1) len" by (auto simp: mapped_def)
    from Suc.IH [OF b(3), of "step1 c (m ! buf)"] obtain c' k where
      k: "crc_align step1 m (step1 c (m ! buf)) (buf + 1) len = Some (c', buf + 1 + k, len - k)" "k \<le> len"
        "reg c' = foldl crc_upd (reg (step1 c (m ! buf))) (block m (buf + 1) k)" "len = k \<or> (buf + 1 + k) mod 4 = 0"
      by metis
    have "crc_align step1 m c buf (Suc len) = Some (c', buf + Suc k, Suc len - Suc k)"
      using False b k(1) by (subst crc_align.simps) (simp add: mem_simps)
    then show ?thesis
      using k(2-4) b by (intro exI [of _ c'] exI [of _ "Suc k"]) (simp add: block_Suc one)
  qed
qed

lemma tail: "mapped m p len \<Longrightarrow> \<exists>c'. crc_tail step1 m c p len = Some c' \<and> reg c' = foldl crc_upd (reg c) (block m p len)"
proof (induction len arbitrary: c p)
  case (Suc len)
  then have b: "0 < p" "p < length m" "mapped m (p + 1) len" by (auto simp: mapped_def)
  from Suc.IH [OF b(3), of "step1 c (m ! p)"] b show ?case by (simp add: mem_simps block_Suc one)
qed simp

definition advances :: "nat \<Rightarrow> (mem \<Rightarrow> 'c \<Rightarrow> addr \<Rightarrow> 'c option) \<Rightarrow> bool" where
  "advances k step \<longleftrightarrow> (\<forall>m c p. mapped m (p + off) k \<longrightarrow>
     (\<exists>c'. step m c p = Some c' \<and> reg c' = foldl crc_upd (reg c) (block m (p + off) k)))"

lemma times: "advances (4 * n) (crc_times n step4)"
proof (induction n)
  case (Suc n)
  show ?case
    unfolding advances_def
  proof (intro allI impI)
    fix m c p assume h: "mapped m (p + off) (4 * Suc n)"
    have e: "p + 4 + off = p + off + 4" by simp
    have "mapped m (p + off) 4" "mapped m (p + 4 + off) (4 * n)"
      unfolding e using mapped_mono [OF h, of 4] mapped_shift [OF h, of 4 "4 * n"] by simp_all
    with four [of m p c] Suc obtain c1 c' where c: "step4 m c p = Some c1" "reg c1 = foldl crc_upd (reg c) (block m (p + off) 4)"
      "crc_times n step4 m c1 (p + 4) = Some c'" "reg c' = foldl crc_upd (reg c1) (block m (p + 4 + off) (4 * n))"
      unfolding advances_def by blast
    have "block m (p + off) (4 * Suc n) = block m (p + off) 4 @ block m (p + 4 + off) (4 * n)"
      unfolding e using block_append [of m "p + off" 4 "4 * n"] by simp
    with c show "\<exists>c'. crc_times (Suc n) step4 m c p = Some c' \<and> reg c' = foldl crc_upd (reg c) (block m (p + off) (4 * Suc n))"
      by simp
  qed
qed (simp add: advances_def)

lemma groups:
  assumes "advances k step" "0 < k" "mapped m (p + off) len"
  shows "\<exists>c' j. crc_groups k step m c p len = Some (c', p + j, len - j) \<and> j \<le> len \<and>
    reg c' = foldl crc_upd (reg c) (block m (p + off) j)"
  using assms(3)
proof (induction len arbitrary: c p rule: less_induct)
  case (less len)
  show ?case
  proof (cases "k \<le> len")
    case False
    then show ?thesis
      by (intro exI [of _ c] exI [of _ 0]) (subst crc_groups.simps, simp)
  next
    case True
    have e: "p + k + off = p + off + k" by simp
    have mp: "mapped m (p + off) k" "mapped m (p + k + off) (len - k)"
      unfolding e using mapped_mono [OF less.prems True] mapped_shift [OF less.prems, of k "len - k"] True by simp_all
    from mp(1) assms(1) obtain c1 where
      c1: "step m c p = Some c1" "reg c1 = foldl crc_upd (reg c) (block m (p + off) k)"
      unfolding advances_def by blast
    have "len - k < len" using assms(2) True by simp
    from less.IH [OF this mp(2), of c1] obtain c' j where
      c: "crc_groups k step m c1 (p + k) (len - k) = Some (c', p + k + j, len - k - j)" "j \<le> len - k"
        "reg c' = foldl crc_upd (reg c1) (block m (p + k + off) j)"
      by blast
    have "crc_groups k step m c p len = Some (c', p + (k + j), len - (k + j))"
      using True assms(2) c1(1) c(1) by (subst crc_groups.simps) (simp add: add.assoc)
    moreover have "block m (p + off) (k + j) = block m (p + off) k @ block m (p + k + off) j"
      unfolding e using block_append [of m "p + off" k j] by simp
    ultimately show ?thesis
      using c1 c True by (intro exI [of _ c'] exI [of _ "k + j"]) simp
  qed
qed

lemma run:
  assumes "mapped m buf len" "0 < buf"
  shows "\<exists>c'. (do {
      (c, buf, len) \<leftarrow> crc_align step1 m c buf len;
      (c, buf4, len) \<leftarrow> crc_groups 32 (crc_times 8 step4) m c (buf - off) len;
      (c, buf4, len) \<leftarrow> crc_groups 4 step4 m c buf4 len;
      crc_tail step1 m c (buf4 + off) len }) = Some c' \<and> reg c' = foldl crc_upd (reg c) (block m buf len)"
proof -
  obtain c1 k where a: "crc_align step1 m c buf len = Some (c1, buf + k, len - k)" "k \<le> len"
    "reg c1 = foldl crc_upd (reg c) (block m buf k)" "len = k \<or> (buf + k) mod 4 = 0"
    using align [OF assms(1), of c] by metis
  define p where "p = buf + k - off"
  show ?thesis
  proof (cases "len = k")
    case True
    then show ?thesis using a by (simp add: crc_groups_0)
  next
    case False
    have "4 \<le> buf + k" using a(4) False assms(2) by (cases "buf + k < 4") auto
    then have p: "p + off = buf + k" using off by (simp add: p_def)
    have g: "mapped m (p + off) (len - k)" using mapped_shift [OF assms(1), of k "len - k"] a(2) p by simp
    obtain c2 i where i: "crc_groups 32 (crc_times 8 step4) m c1 p (len - k) = Some (c2, p + i, len - k - i)" "i \<le> len - k"
      "reg c2 = foldl crc_upd (reg c1) (block m (p + off) i)"
      using groups [OF times [of 8] _ g, of c1] by auto
    have e: "p + i + off = p + off + i" by simp
    have g2: "mapped m (p + i + off) (len - k - i)"
      unfolding e using mapped_shift [OF g, of i "len - k - i"] i(2) by simp
    have "advances 4 step4" using four by (simp add: advances_def)
    from groups [OF this _ g2, of c2] obtain c3 j where
      j: "crc_groups 4 step4 m c2 (p + i) (len - k - i) = Some (c3, p + i + j, len - k - i - j)" "j \<le> len - k - i"
        "reg c3 = foldl crc_upd (reg c2) (block m (p + i + off) j)"
      by auto
    have e3: "p + i + j + off = p + i + off + j" by simp
    have g3: "mapped m (p + i + j + off) (len - k - i - j)"
      unfolding e3
      using mapped_shift [OF g2, of j "len - k - i - j"] j(2) by simp
    from tail [OF g3, of c3] obtain c4 where
      t: "crc_tail step1 m c3 (p + i + j + off) (len - k - i - j) = Some c4"
        "reg c4 = foldl crc_upd (reg c3) (block m (p + i + j + off) (len - k - i - j))"
      by blast
    define r where "r = len - k - i - j"
    have L: "len = k + (i + (j + r))" using a(2) i(2) j(2) by (simp add: r_def)
    have q: "p + i + off = buf + k + i" "p + i + j + off = buf + k + i + j" using p by simp_all
    have "block m buf len = block m buf k @ block m (p + off) i @ block m (p + i + off) j @
        block m (p + i + j + off) r"
      unfolding L q p by (simp only: block_append)
    then have "reg c4 = foldl crc_upd (reg c) (block m buf len)"
      using a(3) i(3) j(3) t(2) by (simp add: r_def)
    with a(1) i(1) j(1) t(1) show ?thesis by (simp add: p_def [symmetric])
  qed
qed

end

section \<open>The two engines\<close>

lemma ucast_xor_64: "ucast (ucast (a :: 32 word) XOR ucast b :: 64 word) = a XOR (b :: 32 word)"
  by (rule bit_word_eqI) (simp add: bit_ucast_iff bit_xor_iff)

lemma ucast_xor4_64: "ucast (ucast (a :: 32 word) XOR ucast b XOR ucast c XOR ucast d :: 64 word) = a XOR b XOR c XOR (d :: 32 word)"
  by (rule bit_word_eqI) (simp add: bit_ucast_iff bit_xor_iff)

lemma unat_ucast_byte: "unat (ucast (b :: byte) :: 32 word) < 256"
  using unat_byte [of b] by (simp add: unsigned_ucast_eq take_bit_nat_eq_self)

lemma crc_table_low_byte: "k < 4 \<Longrightarrow> crc_table ! k ! unat (ucast (b :: byte) :: 32 word) = ucast ((crc_bit ^^ (8 * Suc k)) (ucast b))"
  using crc_table_low [OF _ unat_ucast_byte, of k b] by simp

lemma crc_table_high_byte:
  "k < 4 \<Longrightarrow> crc_table ! (k + 4) ! unat (ucast (b :: byte) :: 32 word) = ucast (REV ((crc_bit ^^ (8 * Suc k)) (ucast b)))"
  using crc_table_high [OF _ unat_ucast_byte, of k b] by simp

lemma byte_of_eqs:
  "c AND 0xff = ucast (byte_of 0 c)" "drop_bit 8 c AND 0xff = ucast (byte_of 1 c)"
  "drop_bit 16 c AND 0xff = ucast (byte_of 2 c)" "drop_bit 24 c = ucast (byte_of 3 c)"
  by (rule bit_word_eqI;
      auto simp: byte_of_def word_ff bit_and_iff bit_mask_iff bit_ucast_iff bit_drop_bit_eq dest: bit_imp_le_length)+

lemma byte_of_REV: "byte_of 3 (REV c) = byte_of 0 c" "byte_of 2 (REV c) = byte_of 1 c" "byte_of 1 (REV c) = byte_of 2 c"
  "byte_of 0 (REV c) = byte_of 3 c"
  by (rule bit_word_eqI; auto simp: byte_of_def bit_ucast_iff bit_drop_bit_eq bit_REV32 add.commute)+

lemma drop_byte: "drop_bit 8 (c XOR ucast (b :: byte)) = drop_bit 8 (c :: 32 word)"
  by (rule bit_word_eqI) (auto simp: bit_drop_bit_eq bit_xor_iff bit_ucast_byte)

lemma lit_mix:
  "ucast (crc_table ! 3 ! unat (x AND 0xff) XOR crc_table ! 2 ! unat (drop_bit 8 x AND 0xff) XOR
     crc_table ! 1 ! unat (drop_bit 16 x AND 0xff) XOR crc_table ! 0 ! unat (drop_bit 24 x)) = (crc_bit ^^ 32) x"
  unfolding byte_of_eqs(2,3) unfolding byte_of_eqs(1,4) crc_bits_bytes [of x]
  using crc_table_low_byte [of 0] crc_table_low_byte [of 1] crc_table_low_byte [of 2] crc_table_low_byte [of 3]
  by (simp add: ucast_xor4_64)

lemma big_mix:
  "ucast (crc_table ! 4 ! unat (REV x AND 0xff) XOR crc_table ! 5 ! unat (drop_bit 8 (REV x) AND 0xff) XOR
     crc_table ! 6 ! unat (drop_bit 16 (REV x) AND 0xff) XOR crc_table ! 7 ! unat (drop_bit 24 (REV x))) =
   REV ((crc_bit ^^ 32) x)"
  unfolding byte_of_eqs(2,3) unfolding byte_of_eqs(1,4) crc_bits_bytes [of x] byte_of_REV
  using crc_table_high_byte [of 0] crc_table_high_byte [of 1] crc_table_high_byte [of 2] crc_table_high_byte [of 3]
  by (simp add: ucast_xor4_64 REV_xor xor.commute xor.left_commute)

lemma lit_byte_eq: "lit_byte c b = crc_upd c b"
proof -
  have "lit_byte c b = (crc_bit ^^ 8) (ucast (byte_of 0 (c XOR ucast b))) XOR drop_bit 8 (c XOR ucast b)"
    unfolding lit_byte_def byte_of_eqs drop_byte using crc_table_low_byte [of 0] by (simp add: ucast_xor_64)
  then show ?thesis by (simp only: crc_bits_byte [symmetric] crc_upd_def)
qed

lemma block_4: "p + 4 \<le> length m \<Longrightarrow> block m p 4 = [m ! p, m ! (p + 1), m ! (p + 2), m ! (p + 3)]"
  by (simp add: numeral_eq_Suc block_Suc)

lemma DOLIT4_eq:
  assumes "mapped m p 4"
  shows "DOLIT4 m c p = Some (foldl crc_upd c (block m p 4))"
proof -
  have m: "0 < p" "p + 4 \<le> length m" using assms by (auto simp: mapped_def)
  define w where "w = ucast (m ! p) XOR push_bit 8 (ucast (m ! (p + 1))) XOR push_bit 16 (ucast (m ! (p + 2))) XOR
    push_bit 24 (ucast (m ! (p + 3)) :: 32 word)"
  have "rd4_little m p = Some w" using m by (simp add: rd4_little_def mem_simps w_def)
  then have "DOLIT4 m c p = Some ((crc_bit ^^ 32) (c XOR w))"
    unfolding DOLIT4_def Let_def lit_mix by simp
  then show ?thesis unfolding block_4 [OF m(2)] crc_upd_4 w_def .
qed

interpretation lit: crc_engine lit_byte DOLIT4 0 "\<lambda>c. c"
  by unfold_locales (simp_all add: lit_byte_eq DOLIT4_eq)

lemma big_byte_eq: "REV (big_byte c b) = crc_upd (REV c) b"
proof -
  let ?x = "REV c XOR ucast b"
  have "drop_bit 24 c = ucast (byte_of 0 (REV c))" using byte_of_REV(4) byte_of_eqs(4) by simp
  also have "ucast (byte_of 0 (REV c)) XOR ucast b = (ucast (byte_of 0 ?x) :: 32 word)"
    by (rule bit_word_eqI) (auto simp: byte_of_def bit_ucast_iff bit_xor_iff dest: bit_imp_le_length)
  finally have i: "drop_bit 24 c XOR ucast b = (ucast (byte_of 0 ?x) :: 32 word)" .
  have "push_bit 8 c = REV (drop_bit 8 ?x)" using REV_push [of "REV c"] unfolding drop_byte by simp
  then have "big_byte c b = REV ((crc_bit ^^ 8) (ucast (byte_of 0 ?x)) XOR drop_bit 8 ?x)"
    unfolding big_byte_def i using crc_table_high_byte [of 0] by (simp add: ucast_xor_64 REV_xor)
  then show ?thesis by (simp only: REV_REV crc_bits_byte [symmetric] crc_upd_def)
qed

lemma DOBIG4_eq:
  assumes "mapped m (p + 4) 4"
  shows "\<exists>c'. DOBIG4 m c p = Some c' \<and> REV c' = foldl crc_upd (REV c) (block m (p + 4) 4)"
proof -
  let ?q = "p + 4"
  have m: "0 < ?q" "?q + 4 \<le> length m" using assms by (auto simp: mapped_def)
  define w where "w = ucast (m ! ?q) XOR push_bit 8 (ucast (m ! (?q + 1))) XOR push_bit 16 (ucast (m ! (?q + 2))) XOR
    push_bit 24 (ucast (m ! (?q + 3)) :: 32 word)"
  have "rd4_big m ?q = Some (REV w)" using m unfolding w_def REV_bytes by (simp add: rd4_big_def mem_simps)
  moreover have e: "c XOR REV w = REV (REV c XOR w)" by (simp add: REV_xor)
  ultimately have "DOBIG4 m c p = Some (REV ((crc_bit ^^ 32) (REV c XOR w)))"
    unfolding DOBIG4_def Let_def by (simp only: bind.bind_lunit e big_mix)
  then show ?thesis unfolding block_4 [OF m(2)] crc_upd_4 w_def by simp
qed

interpretation big: crc_engine big_byte DOBIG4 4 REV
  by unfold_locales (simp_all add: big_byte_eq DOBIG4_eq)


section \<open>One byte at a time\<close>

lemma ucast_up_xor: "(ucast (a XOR b) :: 64 word) = ucast (a :: 32 word) XOR ucast b"
  by (rule bit_word_eqI) (auto simp: bit_ucast_iff bit_xor_iff)

lemma ucast_up_drop: "(ucast (drop_bit k a) :: 64 word) = drop_bit k (ucast (a :: 32 word))"
  by (rule bit_word_eqI) (auto simp: bit_ucast_iff bit_drop_bit_eq dest: bit_imp_le_length)

lemma ucast_down_up [simp]: "ucast (ucast (a :: 32 word) :: 64 word) = a"
  by (rule bit_word_eqI) (auto simp: bit_ucast_iff)

lemma crc_do1_eq: "crc_do1 (ucast c) b = ucast (crc_upd c b)"
proof -
  let ?x = "c XOR ucast b"
  have "crc_do1 (ucast c) b = ucast ((crc_bit ^^ 8) (ucast (byte_of 0 ?x)) XOR drop_bit 8 ?x)"
    unfolding crc_do1_def drop_byte ucast_down_up byte_of_eqs(1) ucast_up_xor
    using crc_table_low_byte [of 0 "byte_of 0 ?x"] by (simp add: ucast_up_drop)
  then show ?thesis by (simp only: crc_bits_byte [symmetric] crc_upd_def)
qed

lemma crc_do8_eq: "mapped m p n \<Longrightarrow> crc_do8 m (ucast c) p n = Some (ucast (foldl crc_upd c (block m p n)))"
proof (induction n arbitrary: c p)
  case (Suc n)
  then have b: "0 < p" "p < length m" "mapped m (p + 1) n" by (auto simp: mapped_def)
  from Suc.IH [OF b(3)] b show ?case by (simp add: mem_simps block_Suc crc_do1_eq)
qed simp

lemma crc_plain_eq: "mapped m p n \<Longrightarrow> crc_plain m (ucast c) p n = Some (ucast (foldl crc_upd c (block m p n)))"
proof (induction n arbitrary: c p rule: less_induct)
  case (less n)
  show ?case
  proof (cases "8 \<le> n")
    case True
    have "mapped m p 8" "mapped m (p + 8) (n - 8)"
      using mapped_mono [OF less.prems True] mapped_shift [OF less.prems, of 8 "n - 8"] True by simp_all
    moreover have "block m p n = block m p 8 @ block m (p + 8) (n - 8)"
      using block_append [of m p 8 "n - 8"] True by simp
    ultimately show ?thesis
      using True less.IH [of "n - 8" "p + 8"] by (subst crc_plain.simps) (simp add: crc_do8_eq)
  next
    case False
    then show ?thesis using less.prems by (subst crc_plain.simps) (simp add: crc_do8_eq)
  qed
qed

lemma ucast_not: "ucast (c :: 32 word) XOR 0xffffffff = (ucast (NOT c) :: 64 word)"
proof -
  have m: "(0xffffffff :: 64 word) = mask 32" by (simp add: mask_eq_exp_minus_1)
  show ?thesis unfolding m
    by (rule bit_word_eqI) (auto simp: bit_ucast_iff bit_xor_iff bit_mask_iff bit_not_iff dest: bit_imp_le_length)
qed

text \<open>All three loops compute the reference.\<close>

lemma crc32_spec:
  assumes "mapped m buf len" "0 < buf" "byfour \<or> crc < 2 ^ 32"
  shows "crc32 byfour little m crc buf len = Some (ucast (crc_spec (ucast crc) (block m buf len)))"
proof -
  have l: "crc32_little m crc buf len = Some (ucast (crc_spec (ucast crc) (block m buf len)))"
    using lit.run [OF assms(1,2), of "NOT (ucast crc)"]
    by (auto simp: crc32_little_def DOLIT32_def crc_spec_def split: bind_splits prod.splits)
  have b: "crc32_big m crc buf len = Some (ucast (crc_spec (ucast crc) (block m buf len)))"
    using big.run [OF assms(1,2), of "NOT (REV (ucast crc))"]
    by (auto simp: crc32_big_def DOBIG32_def crc_spec_def REV_not split: bind_splits prod.splits)
  have "map_option (\<lambda>crc. crc XOR 0xffffffff) (crc_plain m (crc XOR 0xffffffff) buf len) =
      Some (ucast (crc_spec (ucast crc) (block m buf len)))" if "crc < 2 ^ 32"
  proof -
    have "unat (ucast (ucast crc :: 32 word) :: 64 word) = unat crc"
      using that by (simp add: word_less_nat_alt unsigned_ucast_eq unsigned_take_bit_eq take_bit_nat_eq_self)
    then have "(ucast (ucast crc :: 32 word) :: 64 word) = crc" by (simp only: unat_eq_iff)
    then obtain c :: "32 word" where c: "crc = ucast c" by metis
    show ?thesis
      unfolding c ucast_not by (simp add: crc_plain_eq [OF assms(1)] ucast_not crc_spec_def)
  qed
  with l b assms(2,3) show ?thesis by (auto simp: crc32_def)
qed

section \<open>Generated tables\<close>

lemma crc_poly_eq: "crc_poly = ucast (0xedb88320 :: 32 word)"
  by (simp add: crc_poly_def)

lemma and_1_bit: "x AND 1 \<noteq> 0 \<longleftrightarrow> bit (x :: 'a::len word) 0"
  by (simp add: and_one_eq bit_0 even_iff_mod_2_eq_zero)

lemma crc_shift_eq: "crc_shift (ucast c) = ucast (crc_bit c)"
  unfolding crc_shift_def crc_bit_def and_1_bit crc_poly_eq
  by (simp add: ucast_up_xor ucast_up_drop bit_ucast_iff)

lemma funpow_ucast:
  fixes f :: "64 word \<Rightarrow> 64 word" and g :: "32 word \<Rightarrow> 32 word"
  assumes "\<And>c. f (ucast c) = ucast (g c)"
  shows "(f ^^ k) (ucast c) = ucast ((g ^^ k) c)"
  by (induction k) (simp_all add: assms)

lemma make_crc_table_row:
  assumes "n < 256"
  shows "map (\<lambda>n. (crc_shift ^^ 8) (word_of_nat n)) [0..<256] ! n = ucast ((crc_bit ^^ 8) (word_of_nat n))"
proof -
  have "(word_of_nat n :: 64 word) = ucast (word_of_nat n :: 32 word)"
    using assms by (simp add: unat_eq_iff [symmetric] unsigned_ucast_eq unsigned_of_nat take_bit_nat_eq_self)
  then show ?thesis
    using assms by (simp add: funpow_ucast [of crc_shift crc_bit, OF crc_shift_eq])
qed

lemma crc_next_eq:
  assumes "\<And>n. n < 256 \<Longrightarrow> t ! n = ucast ((crc_bit ^^ 8) (word_of_nat n))"
  shows "crc_next t (ucast c) = ucast ((crc_bit ^^ 8) c)"
proof -
  have "ucast c AND 0xff = (ucast (c AND 0xff) :: 64 word)"
    by (rule bit_word_eqI) (auto simp: bit_and_iff word_ff bit_mask_iff bit_ucast_iff dest: bit_imp_le_length)
  moreover have "unat (ucast (ucast (b :: byte) :: 32 word) :: 64 word) = unat (ucast b :: 32 word)" for b
    by (simp add: unsigned_ucast_eq unsigned_take_bit_eq)
  ultimately have "crc_next t (ucast c) = ucast ((crc_bit ^^ 8) (ucast (byte_of 0 c)) XOR drop_bit 8 c)"
    unfolding crc_next_def byte_of_eqs(1) ucast_up_xor
    using assms [OF unat_ucast_byte, of "byte_of 0 c"] by (simp add: ucast_up_drop byte_of_eqs(1))
  then show ?thesis by (simp only: crc_bits_byte [symmetric])
qed

lemma length_crc_tables: "length crc_table = 8"
  by (simp add: crc_table_def)

lemma length_crc_table:
  assumes "k < 8"
  shows "length (crc_table ! k) = 256"
proof -
  have p: "length (take 8 (drop (8 * j) crc_powers)) = 8" if "j < 4" for j using that by simp
  show ?thesis
  proof (cases "k < 4")
    case True
    then show ?thesis using p [of k] by (simp add: crc_table_powers)
  next
    case False
    then obtain j where "k = j + 4" "j < 4" using assms by (metis add.commute le_Suc_ex linorder_not_less nat_add_left_cancel_less numeral_Bit0)
    then show ?thesis using p [of j] by (simp add: crc_table_rev_powers)
  qed
qed

lemma make_crc_table_eq: "make_crc_table = crc_table"
proof -
  define t0 where "t0 = map (\<lambda>n. (crc_shift ^^ 8) (word_of_nat n)) [0..<256]"
  have t0: "t0 ! n = ucast ((crc_bit ^^ 8) (word_of_nat n))" if "n < 256" for n
    using make_crc_table_row [OF that] by (simp only: t0_def)
  have low: "map (\<lambda>n. (crc_next t0 ^^ k) (t0 ! n)) [0..<256] = crc_table ! k" if "k < 4" for k
  proof (rule nth_equalityI)
    fix n assume "n < length (map (\<lambda>n. (crc_next t0 ^^ k) (t0 ! n)) [0..<256])"
    then have n: "n < 256" by simp
    have "(crc_next t0 ^^ k) (t0 ! n) = ucast (((crc_bit ^^ 8) ^^ k) ((crc_bit ^^ 8) (word_of_nat n)))"
      unfolding t0 [OF n] by (rule funpow_ucast) (rule crc_next_eq [OF t0])
    also have "\<dots> = ucast ((crc_bit ^^ (8 * Suc k)) (word_of_nat n))"
      by (simp add: funpow_mult crc_bits_add mult.commute add.commute)
    finally show "map (\<lambda>n. (crc_next t0 ^^ k) (t0 ! n)) [0..<256] ! n = crc_table ! k ! n"
      using n crc_table_low [OF that n] by simp
  qed (use that length_crc_table [of k] in simp)
  have high: "map REV (crc_table ! k) = crc_table ! (k + 4)" if "k < 4" for k
    by (rule nth_equalityI) (use that in \<open>auto simp: length_crc_table crc_table_low crc_table_high REV_ucast\<close>)
  have ts: "map (\<lambda>k. map (\<lambda>n. (crc_next t0 ^^ k) (t0 ! n)) [0..<256]) [0..<4] = map ((!) crc_table) [0..<4]"
    by (rule map_cong [OF refl]) (rule low, simp)
  have "map (map REV) (map ((!) crc_table) [0..<4]) = map (\<lambda>k. crc_table ! (k + 4)) [0..<4]"
    by (simp add: high)
  then have "make_crc_table = map ((!) crc_table) [0..<4] @ map (\<lambda>k. crc_table ! (k + 4)) [0..<4]"
    unfolding make_crc_table_def Let_def t0_def [symmetric] ts by simp
  also have "\<dots> = crc_table"
    by (rule nth_equalityI) (auto simp: length_crc_tables nth_append)
  finally show ?thesis .
qed


end
