(* ===== verification/CrcProps.thy ===== *)
theory CrcProps
  imports Crc32
begin

text \<open>
  The combination of two checksums and the properties of \<^verbatim>\<open>libc/src/zlib/crc32.c\<close>: a matrix over the two element field is
  abstracted to the linear function it represents, squaring it to the composition of the function with itself.
\<close>

unbundle bit_operations_syntax

section \<open>Combination of checksums\<close>

text \<open>A matrix represents a linear function by its values at the powers of two.\<close>

definition mat_of :: "(32 word \<Rightarrow> 32 word) \<Rightarrow> 64 word list" where
  "mat_of g = map (\<lambda>n. ucast (g (push_bit n 1))) [0..<32]"

definition linear :: "(32 word \<Rightarrow> 32 word) \<Rightarrow> bool" where
  "linear g \<longleftrightarrow> (\<forall>a b. g (a XOR b) = g a XOR g b)"

lemma linear_0: "linear g \<Longrightarrow> g 0 = 0"
  unfolding linear_def by (metis xor_self_eq)

lemma linear_crc: "linear (crc_bit ^^ k)"
  by (simp add: linear_def crc_bits_xor)

lemma nth_mat_of: "i < 32 \<Longrightarrow> mat_of g ! i = ucast (g (push_bit i 1))"
  by (simp add: mat_of_def)

lemma drop_mat_of: "i < 32 \<Longrightarrow> drop i (mat_of g) = ucast (g (push_bit i 1)) # drop (Suc i) (mat_of g)"
  by (simp add: mat_of_def Cons_nth_drop_Suc [symmetric])

lemma push_drop_bit:
  assumes "i < 32"
  shows "push_bit i (drop_bit i v) = (if bit v i then push_bit i 1 else 0) XOR push_bit (Suc i) (drop_bit (Suc i) (v :: 32 word))"
proof (rule bit_word_eqI)
  fix n assume n: "n < LENGTH(32)"
  obtain j where j: "j = Suc i" by blast
  then have le: "j \<le> n \<longleftrightarrow> i < n" by auto
  have "bit (push_bit i (drop_bit i v)) n = bit ((if bit v i then push_bit i 1 else 0) XOR push_bit j (drop_bit j v)) n"
    using n le by (auto simp: bit_xor_iff bit_push_bit_iff bit_drop_bit_eq bit_1_iff bit_exp_iff)
  then show "bit (push_bit i (drop_bit i v)) n =
      bit ((if bit v i then push_bit i 1 else 0) XOR push_bit (Suc i) (drop_bit (Suc i) v)) n"
    by (simp only: j)
qed

lemma gf2_times_loop_eq:
  assumes "linear g" "i \<le> 32"
  shows "gf2_times_loop (drop i (mat_of g)) (ucast (drop_bit i v)) (ucast s) = Some (ucast (s XOR g (push_bit i (drop_bit i v))))"
  using assms(2)
proof (induction "32 - i" arbitrary: i s)
  case 0
  then have "i = 32" by simp
  then have "drop_bit i v = 0" by (simp add: bit_word_eqI bit_drop_bit_eq)
  then show ?case by (subst gf2_times_loop.simps) (simp add: linear_0 [OF assms(1)])
next
  case (Suc k)
  then have i: "i < 32" by simp
  show ?case
  proof (cases "drop_bit i v = 0")
    case True
    then show ?thesis by (subst gf2_times_loop.simps) (simp add: linear_0 [OF assms(1)])
  next
    case False
    have nz: "(ucast (drop_bit i v) :: 64 word) \<noteq> 0"
      using False by (metis ucast_down_up ucast_0)
    have b: "ucast (drop_bit i v) AND (1 :: 64 word) \<noteq> 0 \<longleftrightarrow> bit v i"
      unfolding and_1_bit by (simp add: bit_ucast_iff bit_drop_bit_eq)
    have d: "drop_bit 1 (ucast (drop_bit i v) :: 64 word) = ucast (drop_bit (Suc i) v)"
      by (simp only: ucast_up_drop [symmetric] drop_bit_drop_bit plus_1_eq_Suc)
    define s' where "s' = (if bit v i then s XOR g (push_bit i 1) else s)"
    have "gf2_times_loop (drop i (mat_of g)) (ucast (drop_bit i v)) (ucast s) =
        gf2_times_loop (drop (Suc i) (mat_of g)) (ucast (drop_bit (Suc i) v)) (ucast s')"
      unfolding drop_mat_of [OF i]
      by (subst gf2_times_loop.simps) (simp only: nz b d list.case not_False_eq_True if_True s'_def if_distrib [of ucast] ucast_up_xor simp_thms)
    also have "\<dots> = Some (ucast (s' XOR g (push_bit (Suc i) (drop_bit (Suc i) v))))"
      using Suc.hyps(1) [of "Suc i"] Suc.hyps(2) i by simp
    also have "s' XOR g (push_bit (Suc i) (drop_bit (Suc i) v)) = s XOR g (push_bit i (drop_bit i v))"
      using assms(1) linear_0 [OF assms(1)] unfolding push_drop_bit [OF i] linear_def s'_def by (simp add: xor.assoc)
    finally show ?thesis .
  qed
qed

lemma gf2_matrix_times_eq: "linear g \<Longrightarrow> gf2_matrix_times (mat_of g) (ucast v) = Some (ucast (g v))"
  using gf2_times_loop_eq [of g 0 v 0] by (simp add: gf2_matrix_times_def)

lemma those_Some: "those (map (\<lambda>x. Some (f x)) xs) = Some (map f xs)"
  by (induction xs) auto

lemma gf2_matrix_square_eq:
  assumes "linear g"
  shows "gf2_matrix_square (mat_of g) = Some (mat_of (g \<circ> g))"
proof -
  have "map (\<lambda>n. gf2_matrix_times (mat_of g) (mat_of g ! n)) [0..<32] =
      map (\<lambda>n. Some (ucast (g (g (push_bit n 1))))) [0..<32]"
    by (rule map_cong [OF refl]) (simp only: set_upt atLeastLessThan_iff nth_mat_of gf2_matrix_times_eq [OF assms])
  then show ?thesis
    unfolding gf2_matrix_square_def mat_of_def [of "g \<circ> g"] o_apply by (simp only: those_Some)
qed

lemma square_crc: "gf2_matrix_square (mat_of (crc_bit ^^ k)) = Some (mat_of (crc_bit ^^ (2 * k)))"
  using gf2_matrix_square_eq [OF linear_crc] by (simp add: funpow_add [symmetric] mult_2)

lemma times_crc:
  "(if b then gf2_matrix_times (mat_of (crc_bit ^^ k)) (ucast c) else Some (ucast c)) =
     Some (ucast ((crc_bit ^^ (if b then k else 0)) c))"
  by (simp add: gf2_matrix_times_eq linear_crc)

lemma combine_loop_eq:
  "0 < n \<Longrightarrow> combine_loop (mat_of (crc_bit ^^ k)) (ucast c) n = Some (ucast ((crc_bit ^^ (2 * k * nat n)) c))"
proof (induction "nat n" arbitrary: n k c rule: less_induct)
  case less
  define b0 b1 where "b0 = (if n mod 2 = 1 then 2 * k else 0)" and "b1 = (if n div 2 mod 2 = 1 then 2 * (2 * k) else 0)"
  let ?c1 = "(crc_bit ^^ b0) c" and ?c2 = "(crc_bit ^^ b1) ((crc_bit ^^ b0) c)"
  have step: "combine_loop (mat_of (crc_bit ^^ k)) (ucast c) n =
      (if n div 2 = 0 then Some (ucast ?c1)
       else if n div 2 div 2 \<noteq> 0 then combine_loop (mat_of (crc_bit ^^ (2 * (2 * k)))) (ucast ?c2) (n div 2 div 2)
       else Some (ucast ?c2))"
    by (subst combine_loop.simps) (simp only: square_crc times_crc bind.bind_lunit Let_def b0_def b1_def)
  consider "n = 1" | "n = 2 \<or> n = 3" | "4 \<le> n" using less.prems by linarith
  then show ?case
  proof cases
    case 1
    then show ?thesis unfolding step by (simp add: b0_def)
  next
    case 2
    then show ?thesis unfolding step by (elim disjE) (simp_all add: b0_def b1_def crc_bits_add)
  next
    case 3
    define q r0 r1 where "q = n div 2 div 2" and "r0 = n mod 2" and "r1 = n div 2 mod 2"
    have h: "n = r0 + 2 * (n div 2)" "n div 2 = r1 + 2 * q"
      unfolding q_def r0_def r1_def by simp_all
    then have "n = r0 + 2 * r1 + 4 * q" by simp
    moreover have "r0 = 0 \<or> r0 = 1" "r1 = 0 \<or> r1 = 1" "0 < q"
      using 3 unfolding q_def r0_def r1_def by auto
    ultimately have n: "n = r0 + 2 * r1 + 4 * q" "r0 = 0 \<or> r0 = 1" "r1 = 0 \<or> r1 = 1" "0 < q"
      by blast+
    have "nat n = nat r0 + 2 * nat r1 + 4 * nat q"
      using n by (elim disjE) (simp_all add: nat_add_distrib nat_mult_distrib)
    then have "2 * (2 * (2 * k)) * nat q + (b1 + b0) = 2 * k * nat n"
      using n(2,3) unfolding b0_def b1_def r0_def [symmetric] r1_def [symmetric] by (elim disjE) (simp_all add: algebra_simps)
    moreover have "combine_loop (mat_of (crc_bit ^^ (2 * (2 * k)))) (ucast ?c2) q =
        Some (ucast ((crc_bit ^^ (2 * (2 * (2 * k)) * nat q)) ?c2))"
      using n by (intro less.hyps) auto
    moreover have "n div 2 \<noteq> 0" using h(2) n(3,4) by auto
    ultimately show ?thesis
      using n(4) unfolding step q_def [symmetric] by (simp add: crc_bits_add)
  qed
qed

lemma mat_of_crc: "0xedb88320 # map (\<lambda>n. push_bit n 1) [0..<31] = mat_of (crc_bit ^^ 1)"
proof (rule nth_equalityI)
  fix i assume "i < length ((0xedb88320 :: 64 word) # map (\<lambda>n. push_bit n 1) [0..<31])"
  then have i: "i < 32" by simp
  show "((0xedb88320 :: 64 word) # map (\<lambda>n. push_bit n 1) [0..<31]) ! i = mat_of (crc_bit ^^ 1) ! i"
  proof (cases i)
    case 0
    then show ?thesis by (simp add: nth_mat_of crc_bit_def)
  next
    case (Suc j)
    have "crc_bit (push_bit i 1) = push_bit (i - 1) 1"
      using crc_bit_push [of i 1] Suc i by (simp add: bit_1_iff)
    moreover have "(ucast (push_bit j 1 :: 32 word) :: 64 word) = push_bit j 1"
      by (rule bit_word_eqI) (use i Suc in \<open>auto simp: bit_ucast_iff bit_push_bit_iff bit_1_iff bit_exp_iff\<close>)
    ultimately show ?thesis using Suc i by (simp add: nth_mat_of del: push_bit_of_1)
  qed
qed (simp add: mat_of_def)

lemma crc32_combine_eq:
  assumes "0 \<le> n"
  shows "crc32_combine (ucast c) crc2 n = Some (if n = 0 then ucast c else ucast ((crc_bit ^^ (8 * nat n)) c) XOR crc2)"
  unfolding crc32_combine_def Let_def mat_of_crc
  using assms combine_loop_eq [of n 4 c] square_crc [of 1] square_crc [of 2] by simp

lemma foldl_crc_xor: "foldl crc_upd (a XOR b) bs = (crc_bit ^^ (8 * length bs)) a XOR foldl crc_upd b bs"
proof (induction bs arbitrary: a b)
  case (Cons x bs)
  have "crc_upd (a XOR b) x = (crc_bit ^^ 8) a XOR crc_upd b x"
    by (simp add: crc_upd_def crc_bits_xor xor.assoc)
  then show ?case by (simp add: Cons.IH crc_bits_add add.commute)
qed simp

lemma crc_spec_append:
  "crc_spec 0 (xs @ ys) = (crc_bit ^^ (8 * length ys)) (crc_spec 0 xs) XOR crc_spec 0 ys"
proof -
  define r where "r = foldl crc_upd (- 1) xs"
  have n: "NOT r = r XOR - 1" by (simp add: bit_eq_iff bit_not_iff bit_xor_iff)
  have "crc_spec 0 (xs @ ys) = NOT (foldl crc_upd ((r XOR - 1) XOR - 1) ys)"
    by (simp add: crc_spec_def r_def xor.assoc)
  also have "\<dots> = NOT ((crc_bit ^^ (8 * length ys)) (NOT r) XOR foldl crc_upd (- 1) ys)"
    unfolding foldl_crc_xor n ..
  also have "\<dots> = (crc_bit ^^ (8 * length ys)) (crc_spec 0 xs) XOR crc_spec 0 ys"
    by (simp add: crc_spec_def r_def bit_eq_iff bit_not_iff bit_xor_iff) 
  finally show ?thesis .
qed

text \<open>A negative length never reaches zero by shifting.\<close>

lemma combine_loop_nonneg:
  assumes "combine_loop od crc1 n = Some r"
  shows "0 \<le> n"
  using assms
proof (rule combine_loop.raw_induct [rotated, where P = "\<lambda>od crc1 n r. 0 \<le> n"])
  fix f od crc1 and n :: int and r
  assume h: "\<And>od crc1 n r. f od crc1 n = Some r \<Longrightarrow> 0 \<le> n"
    "(do {
     ev \<leftarrow> gf2_matrix_square od;
     crc1 \<leftarrow> (if n mod 2 = 1 then gf2_matrix_times ev crc1 else Some crc1);
     let n = n div 2;
     if n = 0 then Some crc1
     else do {
       od \<leftarrow> gf2_matrix_square ev;
       crc1 \<leftarrow> (if n mod 2 = 1 then gf2_matrix_times od crc1 else Some crc1);
       let n = n div 2;
       if n \<noteq> 0 then f od crc1 n else Some crc1
     }
   }) = Some r"
  show "0 \<le> n"
  proof (rule ccontr)
    assume "\<not> 0 \<le> n"
    then have n: "n div 2 < 0" "n div 2 div 2 < 0" by simp_all
    have "f od c (n div 2 div 2) = None" for od c
      using h(1) [of od c "n div 2 div 2"] n(2) by (cases "f od c (n div 2 div 2)") auto
    with h(2) n show False by (simp add: Let_def)
  qed
qed

section \<open>Properties\<close>

text \<open>C4: \<open>crc32\<close> computes the same function on every machine: the loops that take four bytes at a time with eight tables, for
  little and for big endian machines, and the byte-wise loop all equal the shift register that takes one bit at a time, for
  every block and every alignment.\<close>

theorem crc32_correct:
  assumes "mapped m buf len" "0 < buf" "byfour \<or> crc < 2 ^ 32"
  shows "crc32 byfour little m crc buf len = Some (ucast (crc_spec (ucast crc) (block m buf len)))"
  by (rule crc32_spec [OF assms])

theorem crc32_correct_witness:
  "crc32 True True [0, 97, 98] 0 1 2 = crc32 False True [0, 97, 98] 0 1 2 \<and>
   crc32 True False [0, 97, 98] 0 1 2 = Some (ucast (crc_spec 0 [97, 98]))"
proof -
  have "mapped [0, 97, 98] 1 2" by (simp add: mapped_def)
  note c = crc32_correct [OF this zero_less_one]
  have "block [0, 97, 98] 1 2 = [97, 98]" by (simp add: block_def)
  then show ?thesis
    using c [of True 0 True] c [of False 0 True] c [of True 0 False] by simp
qed

text \<open>C33: The eight tables of \<^verbatim>\<open>crc32.h\<close> are, entry by entry, the ones that \<^verbatim>\<open>make_crc_table\<close> generates.\<close>

theorem make_crc_table_correct: "make_crc_table = crc_table"
  by (rule make_crc_table_eq)

text \<open>C14: \<open>crc32_combine\<close> of the checksums of two adjacent blocks is the checksum of both together, without the data: the
  squared matrices apply as many shifts as the second block has bits.\<close>

theorem crc32_combine_correct:
  assumes "mapped m buf (n + k)" "0 < buf"
  shows "\<exists>c1 c2. crc32 byfour little m 0 buf n = Some c1 \<and> crc32 byfour little m 0 (buf + n) k = Some c2 \<and>
    crc32_combine c1 c2 (int k) = crc32 byfour little m 0 buf (n + k)"
proof -
  let ?xs = "block m buf n" and ?ys = "block m (buf + n) k"
  have p: "mapped m buf n" "mapped m (buf + n) k"
    using mapped_mono [OF assms(1), of n] mapped_shift [OF assms(1), of n k] by simp_all
  have "length ?ys = k" using p(2) by simp
  then have "crc32_combine (ucast (crc_spec 0 ?xs)) (ucast (crc_spec 0 ?ys)) (int k) = Some (ucast (crc_spec 0 (?xs @ ?ys)))"
    unfolding crc_spec_append by (cases "k = 0") (simp add: crc32_combine_eq crc_spec_def, simp add: crc32_combine_eq ucast_up_xor)
  then show ?thesis
    using crc32_spec [OF p(1) assms(2), of byfour 0 little] crc32_spec [OF p(2), of byfour 0 little]
      crc32_spec [OF assms, of byfour 0 little] assms(2) by (simp add: block_append)
qed

theorem crc32_combine_correct_witness:
  "\<exists>c1 c2. crc32 True True [0, 97, 98, 99] 0 1 1 = Some c1 \<and> crc32 True True [0, 97, 98, 99] 0 2 2 = Some c2 \<and>
    crc32_combine c1 c2 2 = crc32 True True [0, 97, 98, 99] 0 1 3"
proof -
  have "mapped [0, 97, 98, 99] 1 (1 + 2)" by (simp add: mapped_def)
  from crc32_combine_correct [OF this zero_less_one, of True True] show ?thesis
    by (simp add: numeral_2_eq_2 numeral_3_eq_3)
qed

text \<open>C40: \<open>crc32_combine\<close> does not return for a negative length, which is an allowed value of its type: the arithmetic shift
  never reaches zero.\<close>

theorem crc32_combine_negative:
  assumes "n < 0"
  shows "crc32_combine crc1 crc2 n = None"
proof -
  have "combine_loop od c n = None" for od c
    using assms combine_loop_nonneg [of od c n] by (cases "combine_loop od c n") auto
  then show ?thesis
    using assms by (simp add: crc32_combine_def Let_def)
qed

theorem crc32_combine_negative_witness: "crc32_combine 1 2 (- 1) = None"
  by (rule crc32_combine_negative) simp

end
