(* ===== verification/Environ.thy ===== *)
theory Environ
  imports Alloc
begin

text \<open>
  The environment: \<^verbatim>\<open>getenv\<close>, \<^verbatim>\<open>setenv\<close>, \<^verbatim>\<open>putenv\<close>, \<^verbatim>\<open>unsetenv\<close>, \<^verbatim>\<open>clearenv\<close> and their common code \<^verbatim>\<open>__put_env\<close> (\<^verbatim>\<open>libc/src\<close>).
  Strings lie in the byte memory; the vectors of pointers that \<^verbatim>\<open>environ\<close> points to are kept in a store of their own,
  one list of cells for each vector, in which a cell that was never written is \<open>None\<close>. An access outside a
  vector, to an unwritten cell or a write to the constant vector \<^verbatim>\<open>__null_environ\<close> is \<open>None\<close>. The functions of the
  allocator are arguments, as in \<open>Alloc\<close>. The abstract view of the environment is the list of its strings.
\<close>

section \<open>Definitions\<close>

record 'h env_state =
  env_mem :: mem
  env_heap :: 'h
  vecs :: "addr \<Rightarrow> addr option list"
  environ :: addr
  environ_size :: nat
  environ_alloc :: addr
  null_environ :: addr
  errno :: int

definition EINVAL :: int where "EINVAL = 22"

definition rdv :: "'h env_state \<Rightarrow> addr \<Rightarrow> nat \<Rightarrow> addr option" where
  "rdv s p i = (if p \<noteq> NULL \<and> i < length (vecs s p) then vecs s p ! i else None)"

definition wrv :: "'h env_state \<Rightarrow> addr \<Rightarrow> nat \<Rightarrow> addr \<Rightarrow> 'h env_state option" where
  "wrv s p i v =
     (if p \<noteq> NULL \<and> p \<noteq> null_environ s \<and> i < length (vecs s p)
      then Some (s\<lparr>vecs := (vecs s)(p := (vecs s p)[i := Some v])\<rparr>) else None)"

lemma rdv_bound: "rdv s p i = Some q \<Longrightarrow> i < length (vecs s p)"
  by (simp add: rdv_def split: if_splits)

lemma wrv_same: "wrv s p i v = Some s' \<Longrightarrow> environ s' = environ s \<and> (\<forall>q. length (vecs s' q) = length (vecs s q))"
  by (auto simp: wrv_def split: if_splits)

subsection \<open>Setting a variable\<close>

text \<open>The loop of \<^verbatim>\<open>__put_env\<close>: whether a string with the key was found, and where it stopped.\<close>

function put_env_find :: "'h env_state \<Rightarrow> addr \<Rightarrow> nat \<Rightarrow> nat \<Rightarrow> (bool \<times> nat) option" where
  "put_env_find s str len i = do {
     q \<leftarrow> rdv s (environ s) i;
     if q = NULL then Some (False, i)
     else do {
       r \<leftarrow> strncmp (env_mem s) q str len;
       if r = 0 then Some (True, i) else put_env_find s str len (i + 1)
     }
   }"
  by pat_completeness auto
termination
  by (relation "measure (\<lambda>(s, str, len, i). length (vecs s (environ s)) - i)") (auto dest: rdv_bound)

text \<open>A larger vector: \<^verbatim>\<open>realloc\<close> of the vector of an earlier call, or a copy of the present one. The static
  \<^verbatim>\<open>null_environ\<close> of the code is a null pointer, so that a null \<^verbatim>\<open>environ\<close> stays null.\<close>

definition put_env_grow :: "('h \<Rightarrow> 64 word \<Rightarrow> addr \<times> 'h) \<Rightarrow> ('h \<Rightarrow> addr \<Rightarrow> 64 word \<Rightarrow> addr \<times> 'h) \<Rightarrow>
    'h env_state \<Rightarrow> nat \<Rightarrow> (addr \<times> 'h env_state) option" where
  "put_env_grow mal rea s n =
     (if environ_alloc s \<noteq> NULL then
        let size2 = 2 * environ_size s; old = vecs s (environ_alloc s);
            (newenv, h) = rea (env_heap s) (environ_alloc s) (word_of_nat (size2 * 8)); s = s\<lparr>env_heap := h\<rparr>
        in if newenv = NULL then Some (NULL, s)
           else Some (newenv, s\<lparr>vecs := (vecs s)(newenv := take size2 old @ replicate (size2 - length old) None), environ_size := size2\<rparr>)
      else
        let newsize = n + 32; (newenv, h) = mal (env_heap s) (word_of_nat (newsize * 8)); s = s\<lparr>env_heap := h\<rparr>
        in if newenv = NULL then Some (NULL, s)
           else if n \<le> length (vecs s (environ s)) then
             Some (newenv, s\<lparr>vecs := (vecs s)(newenv := take n (vecs s (environ s)) @ replicate 32 None), environ_size := newsize\<rparr>)
           else None)"

definition put_env :: "('h \<Rightarrow> 64 word \<Rightarrow> addr \<times> 'h) \<Rightarrow> ('h \<Rightarrow> addr \<Rightarrow> 'h) \<Rightarrow> ('h \<Rightarrow> addr \<Rightarrow> 64 word \<Rightarrow> addr \<times> 'h) \<Rightarrow>
    'h env_state \<Rightarrow> addr \<Rightarrow> nat \<Rightarrow> bool \<Rightarrow> (int \<times> 'h env_state) option" where
  "put_env mal fre rea s str len overwrite = do {
     (found, i) \<leftarrow> put_env_find s str len 0;
     if found then
       (if \<not> overwrite then Some (0, s\<lparr>env_heap := fre (env_heap s) str\<rparr>)
        else do { s \<leftarrow> wrv s (environ s) i str; Some (0, s) })
     else do {
       let n = i + 1;
       let s = (if environ_alloc s \<noteq> NULL \<and> environ s \<noteq> environ_alloc s
                then s\<lparr>env_heap := fre (env_heap s) (environ_alloc s), environ_alloc := NULL\<rparr> else s);
       if n < environ_size s then do {
         let e = environ s;
         s \<leftarrow> wrv s e (i + 1) NULL;
         s \<leftarrow> wrv s e i str;
         Some (0, s)
       }
       else do {
         (newenv, s) \<leftarrow> put_env_grow mal rea s n;
         if newenv = NULL then Some (- 1, s)
         else do {
           s \<leftarrow> wrv s newenv (n - 1) str;
           s \<leftarrow> wrv s newenv n NULL;
           Some (0, s\<lparr>environ := newenv\<rparr>)
         }
       }
     }
   }"

text \<open>The loop that measures a name; \<open>Some None\<close> is a name with an equals sign.\<close>

function name_len :: "mem \<Rightarrow> addr \<Rightarrow> nat \<Rightarrow> nat option option" where
  "name_len m z len = do {
     c \<leftarrow> rd m z;
     if c = 0 then Some (Some len) else if c = 61 then Some None else name_len m (z + 1) (len + 1)
   }"
  by pat_completeness auto
termination
  by (relation "measure (\<lambda>(m, z, len). length m - z)") auto

definition setenv :: "('h \<Rightarrow> 64 word \<Rightarrow> addr \<times> 'h) \<Rightarrow> ('h \<Rightarrow> addr \<Rightarrow> 'h) \<Rightarrow> ('h \<Rightarrow> addr \<Rightarrow> 64 word \<Rightarrow> addr \<times> 'h) \<Rightarrow>
    'h env_state \<Rightarrow> addr \<Rightarrow> addr \<Rightarrow> bool \<Rightarrow> (int \<times> 'h env_state) option" where
  "setenv mal fre rea s name val overwrite = do {
     bad \<leftarrow> (if name = NULL then Some True else do { c \<leftarrow> rd (env_mem s) name; Some (c = 0) });
     if bad then Some (- 1, s\<lparr>errno := EINVAL\<rparr>)
     else do {
       r \<leftarrow> name_len (env_mem s) name 0;
       case r of
         None \<Rightarrow> Some (- 1, s\<lparr>errno := EINVAL\<rparr>)
       | Some l1 \<Rightarrow> do {
           l2 \<leftarrow> strlen (env_mem s) val;
           let (p, h) = mal (env_heap s) (word_of_nat (l1 + l2 + 2));
           let s = s\<lparr>env_heap := h\<rparr>;
           if p = NULL then Some (- 1, s)
           else do {
             (m, _) \<leftarrow> memcpy (env_mem s) p name l1;
             m \<leftarrow> wr m (p + l1) 61;
             (m, _) \<leftarrow> memcpy m (p + l1 + 1) val (l2 + 1);
             put_env mal fre rea (s\<lparr>env_mem := m\<rparr>) p (l1 + 1) overwrite
           }
         }
     }
   }"

function last_eq :: "mem \<Rightarrow> addr \<Rightarrow> addr \<Rightarrow> addr option" where
  "last_eq m z e = do {
     c \<leftarrow> rd m z;
     if c = 0 then Some e else last_eq m (z + 1) (if c = 61 then z else e)
   }"
  by pat_completeness auto
termination
  by (relation "measure (\<lambda>(m, z, e). length m - z)") auto

definition putenv :: "('h \<Rightarrow> 64 word \<Rightarrow> addr \<times> 'h) \<Rightarrow> ('h \<Rightarrow> addr \<Rightarrow> 'h) \<Rightarrow> ('h \<Rightarrow> addr \<Rightarrow> 64 word \<Rightarrow> addr \<times> 'h) \<Rightarrow>
    'h env_state \<Rightarrow> addr \<Rightarrow> (int \<times> 'h env_state) option" where
  "putenv mal fre rea s str =
     (if str = NULL then Some (- 1, s\<lparr>errno := EINVAL\<rparr>)
      else do {
        e \<leftarrow> last_eq (env_mem s) str NULL;
        if e = NULL then Some (- 1, s\<lparr>errno := EINVAL\<rparr>)
        else do {
          (p, m, h) \<leftarrow> strdup mal (env_mem s) (env_heap s) str;
          let s = s\<lparr>env_mem := m, env_heap := h\<rparr>;
          if p = NULL then Some (- 1, s) else put_env mal fre rea s p (e - str) True
        }
      })"

subsection \<open>Reading and removing a variable\<close>

text \<open>The length is kept in an \<^verbatim>\<open>int\<close>.\<close>

function getenv_loop :: "'h env_state \<Rightarrow> addr \<Rightarrow> nat \<Rightarrow> nat \<Rightarrow> addr option" where
  "getenv_loop s name len i = do {
     q \<leftarrow> rdv s (environ s) i;
     if q = NULL then Some NULL
     else do {
       r \<leftarrow> strncmp (env_mem s) name q len;
       hit \<leftarrow> (if r = 0 then do { c \<leftarrow> rd (env_mem s) (q + len); Some (c = 61) } else Some False);
       if hit then Some (q + (len + 1)) else getenv_loop s name len (i + 1)
     }
   }"
  by pat_completeness auto
termination
  by (relation "measure (\<lambda>(s, name, len, i). length (vecs s (environ s)) - i)") (auto dest: rdv_bound)

definition getenv :: "'h env_state \<Rightarrow> addr \<Rightarrow> addr option" where
  "getenv s name = do {
     n \<leftarrow> strlen (env_mem s) name;
     let len = unat (scast (word_of_nat n :: 32 word) :: 64 word);
     if environ s = NULL then Some NULL else getenv_loop s name len 0
   }"

function unset_find :: "'h env_state \<Rightarrow> addr \<Rightarrow> nat \<Rightarrow> nat \<Rightarrow> nat option" where
  "unset_find s name len i = do {
     q \<leftarrow> rdv s (environ s) i;
     if q = NULL then Some i
     else do {
       r \<leftarrow> strncmp (env_mem s) name q len;
       hit \<leftarrow> (if r = 0 then do { c \<leftarrow> rd (env_mem s) (q + len); Some (c = 61) } else Some False);
       if hit then Some i else unset_find s name len (i + 1)
     }
   }"
  by pat_completeness auto
termination
  by (relation "measure (\<lambda>(s, name, len, i). length (vecs s (environ s)) - i)") (auto dest: rdv_bound)

function unset_shift :: "'h env_state \<Rightarrow> nat \<Rightarrow> 'h env_state option" where
  "unset_shift s i = do {
     q \<leftarrow> rdv s (environ s) i;
     if q = NULL then Some s
     else do {
       v \<leftarrow> rdv s (environ s) (i + 1);
       s \<leftarrow> wrv s (environ s) i v;
       unset_shift s (i + 1)
     }
   }"
  by pat_completeness auto
termination
  by (relation "measure (\<lambda>(s, i). length (vecs s (environ s)) - i)") (auto dest!: wrv_same rdv_bound)

definition unsetenv :: "'h env_state \<Rightarrow> addr \<Rightarrow> (int \<times> 'h env_state) option" where
  "unsetenv s name = do {
     bad \<leftarrow> (if name = NULL then Some True else do { c \<leftarrow> rd (env_mem s) name; Some (c = 0) });
     if bad then Some (- 1, s\<lparr>errno := EINVAL\<rparr>)
     else do {
       r \<leftarrow> name_len (env_mem s) name 0;
       case r of
         None \<Rightarrow> Some (- 1, s\<lparr>errno := EINVAL\<rparr>)
       | Some len \<Rightarrow>
           if environ s = NULL then Some (0, s)
           else do {
             i \<leftarrow> unset_find s name len 0;
             s \<leftarrow> unset_shift s i;
             Some (0, s)
           }
     }
   }"

definition clearenv :: "'h env_state \<Rightarrow> int \<times> 'h env_state" where
  "clearenv s = (0, s\<lparr>environ := null_environ s\<rparr>)"

declare put_env_find.simps [simp del] name_len.simps [simp del] last_eq.simps [simp del] getenv_loop.simps [simp del]
  unset_find.simps [simp del] unset_shift.simps [simp del]

section \<open>The environment as a list of strings\<close>

definition has_key :: "byte list \<Rightarrow> byte list \<Rightarrow> bool" where
  "has_key key e \<longleftrightarrow> take (length key) e = key"

fun env_put :: "byte list \<Rightarrow> byte list \<Rightarrow> bool \<Rightarrow> byte list list \<Rightarrow> byte list list" where
  "env_put key new overwrite [] = [new]"
| "env_put key new overwrite (e # es) =
     (if has_key key e then (if overwrite then new # es else e # es) else e # env_put key new overwrite es)"

fun env_remove :: "byte list \<Rightarrow> byte list list \<Rightarrow> byte list list" where
  "env_remove key [] = []"
| "env_remove key (e # es) = (if has_key key e then es else e # env_remove key es)"

definition env_value :: "byte list \<Rightarrow> byte list list \<Rightarrow> byte list option" where
  "env_value name es = map_option (drop (Suc (length name))) (find (has_key (name @ [61])) es)"

lemma has_key_append [simp]: "has_key key (key @ v)"
  by (simp add: has_key_def)

lemma has_key_iff: "has_key key e \<longleftrightarrow> (\<exists>v. e = key @ v)"
  unfolding has_key_def by (metis append_eq_conv_conj append_take_drop_id)

lemma takeWhile_key: "61 \<notin> set x \<Longrightarrow> takeWhile ((\<noteq>) 61) (x @ 61 # d) = x"
  by (induction x) auto

lemma has_key_other:
  assumes "has_key (a @ [61]) e" "has_key (b @ [61]) e" "61 \<notin> set a" "61 \<notin> set b"
  shows "a = b"
proof -
  from assms(1) obtain c where c: "e = a @ 61 # c" by (auto simp: has_key_iff)
  from assms(2) obtain d where d: "e = b @ 61 # d" by (auto simp: has_key_iff)
  from c d show ?thesis using takeWhile_key [OF assms(3), of c] takeWhile_key [OF assms(4), of d] by metis
qed

lemma env_value_put:
  assumes "61 \<notin> set name"
  shows "env_value name (env_put (name @ [61]) (name @ [61] @ v) True es) = Some v"
  by (induction es) (auto simp: env_value_def has_key_def)

lemma env_value_put_keep:
  assumes "61 \<notin> set name"
  shows "env_value name (env_put (name @ [61]) (name @ [61] @ v) False es) =
    (if env_value name es = None then Some v else env_value name es)"
  by (induction es) (auto simp: env_value_def has_key_def)

lemma env_value_put_other:
  assumes "61 \<notin> set name" "61 \<notin> set b" "b \<noteq> name"
  shows "env_value b (env_put (name @ [61]) (name @ [61] @ v) ow es) = env_value b es"
proof (induction es)
  case Nil
  have "\<not> has_key (b @ [61]) (name @ [61] @ v)"
    using has_key_other [of b "name @ [61] @ v" name] assms has_key_append [of "name @ [61]" v] by auto
  then show ?case by (simp add: env_value_def)
next
  case (Cons e es)
  have "\<not> has_key (b @ [61]) (name @ [61] @ v)"
    using has_key_other [of b "name @ [61] @ v" name] assms has_key_append [of "name @ [61]" v] by auto
  moreover have "has_key (name @ [61]) e \<Longrightarrow> \<not> has_key (b @ [61]) e"
    using has_key_other [of b e name] assms by auto
  ultimately show ?case using Cons by (auto simp: env_value_def)
qed

lemma env_value_remove:
  assumes "length (filter (has_key (name @ [61])) es) \<le> 1"
  shows "env_value name (env_remove (name @ [61]) es) = None"
  using assms
proof (induction es)
  case (Cons e es)
  show ?case
  proof (cases "has_key (name @ [61]) e")
    case True
    with Cons.prems have "\<forall>x \<in> set es. \<not> has_key (name @ [61]) x" by (simp add: filter_empty_conv)
    then have "find (has_key (name @ [61])) es = None" by (simp add: find_None_iff)
    with True show ?thesis by (simp add: env_value_def)
  next
    case False
    with Cons show ?thesis by (simp add: env_value_def)
  qed
qed (simp add: env_value_def)

lemma env_value_remove_other:
  assumes "61 \<notin> set name" "61 \<notin> set b" "b \<noteq> name"
  shows "env_value b (env_remove (name @ [61]) es) = env_value b es"
proof (induction es)
  case (Cons e es)
  moreover have "has_key (name @ [61]) e \<Longrightarrow> \<not> has_key (b @ [61]) e"
    using has_key_other [of b e name] assms by auto
  ultimately show ?case by (auto simp: env_value_def)
qed (simp add: env_value_def)

lemma bytes_diff_take:
  "0 \<notin> set xs \<Longrightarrow> 0 \<notin> set ys \<Longrightarrow> bytes_diff (take n (xs @ [0])) (take n (ys @ [0])) = 0 \<longleftrightarrow> take n xs = take n ys"
proof (induction n arbitrary: xs ys)
  case (Suc n)
  then show ?case by (cases xs; cases ys) auto
qed simp

lemma strncmp_key:
  assumes "cstr m p xs" "cstr m q ys"
  shows "\<exists>r. strncmp m p q n = Some r \<and> (r = 0 \<longleftrightarrow> take n xs = take n ys)"
proof -
  have "0 \<notin> set xs" "0 \<notin> set ys" using assms by (auto simp: cstr_def)
  from bytes_diff_take [OF this, of n] strncmp_cstr [OF assms, of n] show ?thesis by simp
qed


text \<open>The position of the first string with a key.\<close>

definition key_pos :: "byte list \<Rightarrow> byte list list \<Rightarrow> nat" where
  "key_pos key es = length (takeWhile (\<lambda>e. \<not> has_key key e) es)"

lemma key_pos_simps [simp]: "key_pos key [] = 0" "key_pos key (e # es) = (if has_key key e then 0 else Suc (key_pos key es))"
  by (simp_all add: key_pos_def)

lemma key_pos_le: "key_pos key es \<le> length es"
  by (simp add: key_pos_def length_takeWhile_le)

lemma env_put_pos: "env_put key new overwrite es =
    (if key_pos key es < length es then (if overwrite then es[key_pos key es := new] else es) else es @ [new])"
  by (induction es) auto

lemma env_remove_pos: "env_remove key es = take (key_pos key es) es @ drop (Suc (key_pos key es)) es"
  by (induction es) auto

lemma env_value_pos: "env_value name es = (let k = key_pos (name @ [61]) es in
    if k < length es then Some (drop (Suc (length name)) (es ! k)) else None)"
  by (induction es) (auto simp: env_value_def Let_def)

text \<open>The abstraction relation: the vector holds pointers to the strings and ends with a null pointer.\<close>

definition env_rel :: "'h env_state \<Rightarrow> addr list \<Rightarrow> byte list list \<Rightarrow> bool" where
  "env_rel s ps es \<longleftrightarrow> environ s \<noteq> NULL \<and> (\<exists>rest. vecs s (environ s) = map Some ps @ Some NULL # rest)
     \<and> list_all2 (cstr (env_mem s)) ps es"

lemma env_rel_rdv:
  assumes "env_rel s ps es"
  shows "i < length ps \<Longrightarrow> rdv s (environ s) i = Some (ps ! i)" "rdv s (environ s) (length ps) = Some NULL"
    "i < length ps \<Longrightarrow> cstr (env_mem s) (ps ! i) (es ! i)" "length es = length ps"
  using assms unfolding env_rel_def by (auto simp: rdv_def nth_append list_all2_conv_all_nth)

lemma cstr_nonnull: "cstr m p xs \<Longrightarrow> p \<noteq> NULL"
  by (simp add: cstr_def)

lemma put_env_find_pos:
  assumes "env_rel s ps es" "cstr (env_mem s) str xs" "len \<le> length xs"
  shows "i \<le> length ps \<Longrightarrow> put_env_find s str len i =
    Some (key_pos (take len xs) (drop i es) < length es - i, i + key_pos (take len xs) (drop i es))"
proof (induction "length ps - i" arbitrary: i)
  case 0
  then have "i = length ps" by simp
  then show ?case using env_rel_rdv [OF assms(1)] by (subst put_env_find.simps) simp
next
  case (Suc k)
  then have i: "i < length ps" by simp
  note r = env_rel_rdv [OF assms(1)]
  have d: "drop i es = es ! i # drop (Suc i) es" using i r(4) by (simp add: Cons_nth_drop_Suc)
  obtain c where c: "strncmp (env_mem s) (ps ! i) str len = Some c" "c = 0 \<longleftrightarrow> take len (es ! i) = take len xs"
    using strncmp_key [OF r(3) [OF i] assms(2)] by blast
  have h: "c = 0 \<longleftrightarrow> has_key (take len xs) (es ! i)" using c(2) assms(3) by (simp add: has_key_def)
  have IH: "put_env_find s str len (Suc i) =
      Some (key_pos (take len xs) (drop (Suc i) es) < length es - Suc i, Suc i + key_pos (take len xs) (drop (Suc i) es))"
    using Suc i by simp
  show ?case
    using cstr_nonnull [OF r(3) [OF i]] r(1) [OF i] c(1) h IH d i r(4) by (subst put_env_find.simps) (auto simp: d)
qed

lemma env_hit:
  assumes "cstr m name nm" "cstr m q e"
  shows "Option.bind (strncmp m name q (length nm)) (\<lambda>r. Option.bind
      (if r = 0 then Option.bind (rd m (q + length nm)) (\<lambda>c. Some (c = 61)) else Some False) F) = F (has_key (nm @ [61]) e)"
proof -
  obtain c where c: "strncmp m name q (length nm) = Some c" "c = 0 \<longleftrightarrow> nm = take (length nm) e"
    using strncmp_key [OF assms, of "length nm"] by auto
  show ?thesis
  proof (cases "c = 0")
    case True
    with c(2) have e: "take (length nm) e = nm" by simp
    then have len: "length nm \<le> length e" by (metis length_take min.cobounded1)
    show ?thesis
    proof (cases "length nm = length e")
      case True
      with e have "rd m (q + length nm) = Some 0" "\<not> has_key (nm @ [61]) e" using assms(2) by (auto simp: cstr_def has_key_def)
      with c(1) \<open>c = 0\<close> show ?thesis by (simp add: mem_simps)
    next
      case False
      with len have l: "length nm < length e" by simp
      have "rd m (q + length nm) = Some (e ! length nm)" using assms(2) cstr_nth [OF assms(2) l] l by (simp add: cstr_def)
      moreover have "has_key (nm @ [61]) e \<longleftrightarrow> e ! length nm = 61" using e l by (simp add: has_key_def take_Suc_conv_app_nth)
      ultimately show ?thesis using c(1) \<open>c = 0\<close> by (simp add: mem_simps)
    qed
  next
    case False
    with c(2) have "\<not> has_key (nm @ [61]) e" unfolding has_key_iff by auto
    with c(1) False show ?thesis by simp
  qed
qed

lemma getenv_loop_pos:
  assumes "env_rel s ps es" "cstr (env_mem s) name nm"
  shows "i \<le> length ps \<Longrightarrow> getenv_loop s name (length nm) i =
    (let k = i + key_pos (nm @ [61]) (drop i es) in Some (if k < length es then ps ! k + Suc (length nm) else NULL))"
proof (induction "length ps - i" arbitrary: i)
  case 0
  then have "i = length ps" by simp
  then show ?case using env_rel_rdv [OF assms(1)] by (subst getenv_loop.simps) (simp add: Let_def)
next
  case (Suc k)
  then have i: "i < length ps" by simp
  note r = env_rel_rdv [OF assms(1)]
  have d: "drop i es = es ! i # drop (Suc i) es" using i r(4) by (simp add: Cons_nth_drop_Suc)
  have IH: "getenv_loop s name (length nm) (Suc i) = (let k = Suc i + key_pos (nm @ [61]) (drop (Suc i) es) in
      Some (if k < length es then ps ! k + Suc (length nm) else NULL))"
    using Suc i by simp
  show ?case
    using cstr_nonnull [OF r(3) [OF i]] r(1) [OF i] IH i r(4)
    by (subst getenv_loop.simps) (simp add: d Let_def env_hit [OF assms(2) r(3) [OF i]])
qed

lemma unset_find_pos:
  assumes "env_rel s ps es" "cstr (env_mem s) name nm"
  shows "i \<le> length ps \<Longrightarrow> unset_find s name (length nm) i = Some (i + key_pos (nm @ [61]) (drop i es))"
proof (induction "length ps - i" arbitrary: i)
  case 0
  then have "i = length ps" by simp
  then show ?case using env_rel_rdv [OF assms(1)] by (subst unset_find.simps) simp
next
  case (Suc k)
  then have i: "i < length ps" by simp
  note r = env_rel_rdv [OF assms(1)]
  have d: "drop i es = es ! i # drop (Suc i) es" using i r(4) by (simp add: Cons_nth_drop_Suc)
  have IH: "unset_find s name (length nm) (Suc i) = Some (Suc i + key_pos (nm @ [61]) (drop (Suc i) es))"
    using Suc i by simp
  show ?case
    using cstr_nonnull [OF r(3) [OF i]] r(1) [OF i] IH i r(4)
    by (subst unset_find.simps) (simp add: d env_hit [OF assms(2) r(3) [OF i]])
qed

lemma getenv_value:
  assumes "env_rel s ps es" "cstr (env_mem s) name nm" "length nm < 2 ^ 31"
  shows "\<exists>q. getenv s name = Some q \<and> (case env_value nm es of None \<Rightarrow> q = NULL | Some v \<Rightarrow> cstr (env_mem s) q v)"
proof -
  let ?k = "key_pos (nm @ [61]) es"
  note r = env_rel_rdv [OF assms(1)]
  have "unat (scast (word_of_nat (length nm) :: 32 word) :: 64 word) = length nm"
    using scast_of_nat [OF assms(3)] unat_of_nat64 [of "length nm"] assms(3) by simp
  then have g: "getenv s name = Some (if ?k < length es then ps ! ?k + Suc (length nm) else NULL)"
    using getenv_loop_pos [OF assms(1,2), of 0] strlen_cstr [OF assms(2)] assms(1)
    by (simp add: getenv_def env_rel_def Let_def)
  show ?thesis
  proof (cases "?k < length es")
    case True
    have "has_key (nm @ [61]) (es ! ?k)"
      using True nth_length_takeWhile [of "\<lambda>e. \<not> has_key (nm @ [61]) e" es] by (simp add: key_pos_def)
    then have "Suc (length nm) \<le> length (es ! ?k)" unfolding has_key_iff by auto
    then have "cstr (env_mem s) (ps ! ?k + Suc (length nm)) (drop (Suc (length nm)) (es ! ?k))"
      using cstr_drop [OF r(3) [of ?k], of "Suc (length nm)"] True r(4) by simp
    with g True show ?thesis by (simp add: env_value_pos Let_def)
  next
    case False
    with g show ?thesis by (simp add: env_value_pos Let_def)
  qed
qed

lemma unset_shift_vec:
  "vecs s (environ s) = pre @ map Some qs @ Some NULL # rest \<Longrightarrow> NULL \<notin> set qs \<Longrightarrow> environ s \<noteq> NULL \<Longrightarrow> environ s \<noteq> null_environ s \<Longrightarrow>
   unset_shift s (length pre) = Some (s\<lparr>vecs := (vecs s)(environ s :=
     pre @ map Some (tl qs) @ (if qs = [] then [Some NULL] else [Some NULL, Some NULL]) @ rest)\<rparr>)"
proof (induction qs arbitrary: s pre)
  case Nil
  then have "(vecs s)(environ s := pre @ Some NULL # rest) = vecs s" by (auto simp: fun_upd_idem)
  with Nil show ?case by (subst unset_shift.simps) (simp add: rdv_def nth_append)
next
  case (Cons q qs)
  define v where "v = (if qs = [] then NULL else hd qs)"
  define s1 where "s1 = s\<lparr>vecs := (vecs s)(environ s := (pre @ [Some v]) @ map Some qs @ Some NULL # rest)\<rparr>"
  have "vecs s (environ s) ! Suc (length pre) = Some v"
    using Cons.prems(1) by (cases qs) (auto simp: nth_append v_def)
  then have 1: "rdv s (environ s) (length pre) = Some q" "rdv s (environ s) (Suc (length pre)) = Some v"
    using Cons.prems by (auto simp: rdv_def nth_append)
  have 2: "wrv s (environ s) (length pre) v = Some s1"
    using Cons.prems by (simp add: wrv_def s1_def)
  have 3: "unset_shift s1 (length (pre @ [Some v])) = Some (s1\<lparr>vecs := (vecs s1)(environ s1 :=
     (pre @ [Some v]) @ map Some (tl qs) @ (if qs = [] then [Some NULL] else [Some NULL, Some NULL]) @ rest)\<rparr>)"
    using Cons.prems by (intro Cons.IH) (auto simp: s1_def)
  have "unset_shift s (length pre) = unset_shift s1 (length (pre @ [Some v]))"
    using 1 2 Cons.prems by (subst unset_shift.simps) simp
  moreover have "s1\<lparr>vecs := (vecs s1)(environ s1 := w)\<rparr> = s\<lparr>vecs := (vecs s)(environ s := w)\<rparr>" for w
    by (simp add: s1_def)
  moreover have "(pre @ [Some v]) @ map Some (tl qs) @ (if qs = [] then [Some NULL] else [Some NULL, Some NULL]) @ rest =
      pre @ map Some (tl (q # qs)) @ (if q # qs = [] then [Some NULL] else [Some NULL, Some NULL]) @ rest"
    by (cases qs) (simp_all add: v_def)
  ultimately show ?case using 3 by (simp only:)
qed

lemma env_rel_unset:
  assumes "env_rel s ps es" "environ s \<noteq> null_environ s" "k \<le> length ps"
  shows "\<exists>v. unset_shift s k = Some (s\<lparr>vecs := (vecs s)(environ s := v)\<rparr>) \<and> length v = length (vecs s (environ s)) \<and>
    env_rel (s\<lparr>vecs := (vecs s)(environ s := v)\<rparr>) (take k ps @ drop (Suc k) ps) (take k es @ drop (Suc k) es)"
proof -
  obtain rest where v: "vecs s (environ s) = map Some (take k ps) @ map Some (drop k ps) @ Some NULL # rest"
    using assms(1) unfolding env_rel_def by (metis append.assoc append_take_drop_id map_append)
  have "NULL \<notin> set ps"
    using assms(1) unfolding env_rel_def by (metis cstr_nonnull in_set_conv_nth list_all2_conv_all_nth)
  then have n: "NULL \<notin> set (drop k ps)" by (meson in_set_dropD)
  have lk: "length (map Some (take k ps)) = k" using assms(3) by simp
  let ?v = "map Some (take k ps) @ map Some (tl (drop k ps)) @ (if drop k ps = [] then [Some NULL] else [Some NULL, Some NULL]) @ rest"
  have "unset_shift s k = Some (s\<lparr>vecs := (vecs s)(environ s := ?v)\<rparr>)"
    using unset_shift_vec [OF v n] assms(1,2) lk unfolding env_rel_def by simp
  moreover have "length ?v = length (vecs s (environ s))" using v by (cases "drop k ps") auto
  moreover have "env_rel (s\<lparr>vecs := (vecs s)(environ s := ?v)\<rparr>) (take k ps @ drop (Suc k) ps) (take k es @ drop (Suc k) es)"
  proof -
    have "list_all2 (cstr (env_mem s)) (take k ps @ drop (Suc k) ps) (take k es @ drop (Suc k) es)"
      using assms(1) by (intro list_all2_appendI list_all2_takeI list_all2_dropI) (simp_all add: env_rel_def)
    moreover have "tl (drop k ps) = drop (Suc k) ps" by (simp add: tl_drop drop_Suc)
    ultimately show ?thesis using assms(1) by (auto simp: env_rel_def)
  qed
  ultimately show ?thesis by blast
qed

lemma name_len_cstr: "cstr m z xs \<Longrightarrow> name_len m z len = Some (if 61 \<in> set xs then None else Some (len + length xs))"
  by (induction xs arbitrary: z len) (subst name_len.simps; auto simp: cstr_simps mem_simps)+


lemma last_eq_none: "cstr m z v \<Longrightarrow> 61 \<notin> set v \<Longrightarrow> last_eq m z e = Some e"
  by (induction v arbitrary: z) (subst last_eq.simps; auto simp: cstr_simps mem_simps)+

lemma last_eq_cstr: "cstr m z (key @ 61 # v) \<Longrightarrow> 61 \<notin> set v \<Longrightarrow> last_eq m z e = Some (z + length key)"
proof (induction key arbitrary: z e)
  case Nil
  then show ?case using last_eq_none [of m "Suc z" v z] by (subst last_eq.simps) (auto simp: cstr_simps mem_simps)
next
  case (Cons c key)
  then show ?case by (subst last_eq.simps) (auto simp: cstr_simps mem_simps)
qed

text \<open>The state invariant, for an allocator with the invariant \<open>hinv\<close>, its range \<open>hcov\<close> and its used addresses \<open>hused\<close>.\<close>

definition env_inv :: "('h \<Rightarrow> bool) \<Rightarrow> ('h \<Rightarrow> mem \<Rightarrow> bool) \<Rightarrow> ('h \<Rightarrow> addr set) \<Rightarrow> 'h env_state \<Rightarrow> addr list \<Rightarrow> byte list list \<Rightarrow> bool" where
  "env_inv hinv hcov hused s ps es \<longleftrightarrow> hinv (env_heap s) \<and> hcov (env_heap s) (env_mem s) \<and> env_rel s ps es
     \<and> environ_alloc s = NULL \<and> environ s \<noteq> null_environ s \<and> null_environ s \<in> hused (env_heap s)
     \<and> environ_size s \<le> length (vecs s (environ s))
     \<and> (\<forall>i < length ps. bytes_at (ps ! i) (Suc (length (es ! i))) \<subseteq> hused (env_heap s))"

lemma env_inv_heap:
  assumes "env_inv hinv hcov hused s ps es" "hinv h" "hcov h (env_mem s)" "hused (env_heap s) \<subseteq> hused h"
  shows "env_inv hinv hcov hused (s\<lparr>env_heap := h\<rparr>) ps es"
  using assms by (auto simp: env_inv_def env_rel_def)

lemma cstr_frame:
  assumes "cstr m p xs" "bytes_at p (Suc (length xs)) \<subseteq> U" "frame U m m'"
  shows "cstr m' p xs"
proof -
  have "m' ! (p + i) = m ! (p + i)" if "i \<le> length xs" for i
  proof -
    have "p + i \<in> U" using assms(2) that by (force simp: bytes_at_def)
    then show ?thesis using assms(3) by (simp add: frame_def)
  qed
  moreover have "length m' = length m" using assms(3) by (simp add: frame_def)
  moreover from calculation have "block m' p (length xs) = block m p (length xs)"
    using assms(1) by (intro block_eqI) (auto simp: cstr_def)
  ultimately show ?thesis using assms(1) by (simp add: cstr_def)
qed

lemma env_rel_mem:
  assumes "env_rel s ps es" "\<forall>i < length ps. bytes_at (ps ! i) (Suc (length (es ! i))) \<subseteq> U" "frame U (env_mem s) m"
  shows "env_rel (s\<lparr>env_mem := m\<rparr>) ps es"
proof -
  have "cstr m (ps ! i) (es ! i)" if i: "i < length ps" for i
    using cstr_frame [OF env_rel_rdv(3) [OF assms(1) i]] assms(2,3) i by blast
  then show ?thesis using assms(1) by (simp add: env_rel_def list_all2_conv_all_nth)
qed

lemma env_inv_overwrite:
  assumes "env_inv hinv hcov hused s ps es" "k < length ps" "cstr (env_mem s) str xs"
    "bytes_at str (Suc (length xs)) \<subseteq> hused (env_heap s)"
  shows "\<exists>s'. wrv s (environ s) k str = Some s' \<and> env_inv hinv hcov hused s' (ps[k := str]) (es[k := xs])"
proof -
  obtain rest where v: "vecs s (environ s) = map Some ps @ Some NULL # rest" and e: "environ s \<noteq> NULL"
    and l: "list_all2 (cstr (env_mem s)) ps es" using assms(1) by (auto simp: env_inv_def env_rel_def)
  let ?s = "s\<lparr>vecs := (vecs s)(environ s := map Some (ps[k := str]) @ Some NULL # rest)\<rparr>"
  have "wrv s (environ s) k str = Some ?s"
    using assms(1,2) v e by (simp add: wrv_def env_inv_def list_update_append map_update)
  moreover have "list_all2 (cstr (env_mem s)) (ps[k := str]) (es[k := xs])" using l assms(3) by (rule list_all2_update_cong)
  moreover have "length ps = length es" using l by (rule list_all2_lengthD)
  ultimately show ?thesis
    using assms v e by (auto simp: env_inv_def env_rel_def nth_list_update)
qed

lemma env_inv_append:
  assumes "env_inv hinv hcov hused s ps es" "cstr (env_mem s) str xs" "bytes_at str (Suc (length xs)) \<subseteq> hused (env_heap s)"
    "environ s' \<noteq> NULL" "environ s' \<noteq> null_environ s" "vecs s' (environ s') = map Some (ps @ [str]) @ Some NULL # rest"
    "env_mem s' = env_mem s" "environ_alloc s' = NULL" "null_environ s' = null_environ s" "environ_size s' \<le> length (vecs s' (environ s'))"
    "hinv (env_heap s')" "hcov (env_heap s') (env_mem s)" "hused (env_heap s) \<subseteq> hused (env_heap s')"
  shows "env_inv hinv hcov hused s' (ps @ [str]) (es @ [xs])"
proof -
  have l: "list_all2 (cstr (env_mem s)) ps es" using assms(1) by (auto simp: env_inv_def env_rel_def)
  then have "length ps = length es" by (rule list_all2_lengthD)
  then have "bytes_at ((ps @ [str]) ! i) (Suc (length ((es @ [xs]) ! i))) \<subseteq> hused (env_heap s')" if "i < length (ps @ [str])" for i
    using assms(1,3,13) that by (auto simp: env_inv_def nth_append less_Suc_eq)
  moreover have "list_all2 (cstr (env_mem s)) (ps @ [str]) (es @ [xs])"
    using l assms(2) by (intro list_all2_appendI) auto
  moreover have "null_environ s \<in> hused (env_heap s')" using assms(1,13) by (auto simp: env_inv_def)
  ultimately show ?thesis
    unfolding env_inv_def env_rel_def using assms(4-12) by auto
qed


lemma wrv_append:
  assumes "vecs s p = map Some ps @ Some NULL # c # rest" "p \<noteq> NULL" "p \<noteq> null_environ s"
  shows "Option.bind (wrv s p (Suc (length ps)) NULL) (\<lambda>s. Option.bind (wrv s p (length ps) str) F) = F (s\<lparr>vecs := (vecs s)(p := map Some (ps @ [str]) @ Some NULL # rest)\<rparr>)"
    and "Option.bind (wrv s p (length ps) str) (\<lambda>s. Option.bind (wrv s p (Suc (length ps)) NULL) F) = F (s\<lparr>vecs := (vecs s)(p := map Some (ps @ [str]) @ Some NULL # rest)\<rparr>)"
  using assms by (simp_all add: wrv_def list_update_append)

lemma bytes_at_disjoint: "bytes_at p n \<inter> U = {} \<Longrightarrow> bytes_at q k \<subseteq> U \<Longrightarrow> 0 < n \<Longrightarrow> 0 < k \<Longrightarrow> disjoint_ranges p n q k"
proof (rule ccontr)
  assume a: "bytes_at p n \<inter> U = {}" "bytes_at q k \<subseteq> U" "0 < n" "0 < k" and "\<not> disjoint_ranges p n q k"
  then have "max p q \<in> bytes_at p n" "max p q \<in> bytes_at q k" by (auto simp: bytes_at_def disjoint_ranges_def)
  with a show False by blast
qed

lemma build_entry:
  assumes "mapped m p (length nm + length v + 2)" "cstr m name nm" "cstr m val v"
    "disjoint_ranges p (length nm + length v + 2) name (length nm)" "disjoint_ranges p (length nm + length v + 2) val (Suc (length v))"
  shows "Option.bind (memcpy m p name (length nm)) (\<lambda>(m, _). Option.bind (wr m (p + length nm) 61)
      (\<lambda>m. Option.bind (memcpy m (p + length nm + 1) val (length v + 1)) (\<lambda>(m, _). F m))) = F (put m p (nm @ [61] @ v @ [0]))"
proof -
  let ?m1 = "put m p nm" and ?m2 = "put m p (nm @ [61])"
  have b: "0 < p" "p + length nm + length v + 2 \<le> length m" using assms(1) by (auto simp: mapped_def)
  have "block m name (length nm) = nm" using cstr_block_take [OF assms(2), of "length nm"] by simp
  moreover have "mapped m name (length nm)" using cstr_mapped [OF assms(2)] by (rule mapped_mono) simp
  ultimately have 1: "memcpy m p name (length nm) = Some (?m1, p)"
    using mapped_mono [OF assms(1), of "length nm"] assms(4) cpy.copy_put [of m p "length nm" name] by (auto simp: disjoint_ranges_def)
  have 2: "wr ?m1 (p + length nm) 61 = Some ?m2" using b put_update [of p nm m 61] by (simp add: wr_in)
  have "block ?m2 val (Suc (length v)) = v @ [0]"
    using block_put_disjoint [of val "Suc (length v)" m p "nm @ [61]"] cstr_block [OF assms(3)] assms(3,5) b
    by (auto simp: disjoint_ranges_def cstr_def)
  moreover have "mapped ?m2 val (Suc (length v))" using assms(3) b by (auto simp: mapped_def cstr_def)
  moreover have "mapped ?m2 (p + length nm + 1) (Suc (length v))" using b by (auto simp: mapped_def)
  ultimately have 3: "memcpy ?m2 (p + length nm + 1) val (Suc (length v)) = Some (put ?m2 (p + length nm + 1) (v @ [0]), p + length nm + 1)"
    using assms(5) cpy.copy_put [of ?m2 "p + length nm + 1" "Suc (length v)" val] by (auto simp: disjoint_ranges_def)
  have "put ?m2 (p + length nm + 1) (v @ [0]) = put m p (nm @ [61] @ v @ [0])"
    using b put_append [of p "nm @ [61]" "v @ [0]" m] by simp
  with 1 2 3 show ?thesis by (simp add: mem_simps)
qed

section \<open>The operations, for every allocator\<close>

text \<open>What the environment relies on: the contract of the allocator, that it keeps its range, and that freeing the
  block it handed out last keeps what was in use before.\<close>

locale heap_provider = allocator +
  fixes fre :: "'a \<Rightarrow> addr \<Rightarrow> 'a"
  assumes mal_covers: "inv h \<Longrightarrow> ok h sz \<Longrightarrow> mal h sz = (p, h') \<Longrightarrow> covers h m \<Longrightarrow> length m' = length m \<Longrightarrow> covers h' m'"
    and mal_free: "inv h \<Longrightarrow> ok h sz \<Longrightarrow> mal h sz = (p, h') \<Longrightarrow> p \<noteq> NULL \<Longrightarrow> covers h' m \<Longrightarrow>
      inv (fre h' p) \<and> used h \<subseteq> used (fre h' p) \<and> covers (fre h' p) m"
begin

abbreviation "good \<equiv> env_inv inv covers used"

lemma put_env_refines:
  assumes g: "good s ps es" and str: "cstr (env_mem s) str xs" "bytes_at str (Suc (length xs)) \<subseteq> used (env_heap s)" "len \<le> length xs"
    and vec: "ok (env_heap s) (word_of_nat ((length es + 33) * 8))" "(length es + 33) * 8 < 2 ^ 64"
    and free: "\<not> overwrite \<Longrightarrow> good (s\<lparr>env_heap := fre (env_heap s) str\<rparr>) ps es"
  shows "\<exists>r s'. put_env mal fre rea s str len overwrite = Some (r, s') \<and> env_mem s' = env_mem s \<and>
    (r = 0 \<and> (\<exists>ps'. good s' ps' (env_put (take len xs) xs overwrite es)) \<or>
     r = - 1 \<and> good s' ps es \<and> fst (mal (env_heap s) (word_of_nat ((length es + 33) * 8))) = NULL)"
proof -
  let ?k = "key_pos (take len xs) es"
  have rel: "env_rel s ps es" using g by (simp add: env_inv_def)
  note r = env_rel_rdv [OF rel]
  have f: "put_env_find s str len 0 = Some (?k < length es, ?k)" using put_env_find_pos [OF rel str(1,3), of 0] by simp
  show ?thesis
  proof (cases "?k < length es")
    case True
    then show ?thesis
      using f free env_inv_overwrite [OF g _ str(1,2), of ?k] r(4)
      by (cases overwrite) (auto simp: put_env_def env_put_pos wrv_def split: if_splits)
  next
    case False
    note nf = this
    then have k: "?k = length ps" using key_pos_le [of "take len xs" es] r(4) by simp
    obtain rest where v: "vecs s (environ s) = map Some ps @ Some NULL # rest" and e: "environ s \<noteq> NULL" "environ s \<noteq> null_environ s"
      and a: "environ_alloc s = NULL" and sz: "environ_size s \<le> length (vecs s (environ s))"
      using g by (auto simp: env_inv_def env_rel_def)
    show ?thesis
    proof (cases "Suc (length ps) < environ_size s")
      case True
      with sz v obtain c rest' where rest: "rest = c # rest'" by (cases rest) auto
      let ?s = "s\<lparr>vecs := (vecs s)(environ s := map Some (ps @ [str]) @ Some NULL # rest')\<rparr>"
      have "put_env mal fre rea s str len overwrite = Some (0, ?s)"
        using f nf k a True wrv_append(1) [OF v [unfolded rest] e] by (simp add: put_env_def Let_def)
      moreover have "good ?s (ps @ [str]) (es @ [xs])"
        using g e a sz v rest by (intro env_inv_append [OF g str(1,2), where rest = rest']) (auto simp: env_inv_def)
      ultimately show ?thesis using nf by (auto simp: env_put_pos)
    next
      case False
      let ?sz = "word_of_nat ((length ps + 33) * 8) :: 64 word"
      obtain p h where m: "mal (env_heap s) ?sz = (p, h)" by fastforce
      have inv: "inv (env_heap s)" "ok (env_heap s) ?sz" "covers (env_heap s) (env_mem s)" using g vec r(4) by (auto simp: env_inv_def)
      have h: "inv h" "used (env_heap s) \<subseteq> used h" "covers h (env_mem s)"
        using mal_inv [OF inv(1,2) m] mal_covers [OF inv(1,2) m inv(3)] by auto
      show ?thesis
      proof (cases "p = NULL")
        case True
        then have "put_env mal fre rea s str len overwrite = Some (- 1, s\<lparr>env_heap := h\<rparr>)"
          using f nf k a \<open>\<not> Suc (length ps) < environ_size s\<close> m by (simp add: put_env_def put_env_grow_def add.commute)
        then show ?thesis using env_inv_heap [OF g h(1,3,2)] m True r(4) by simp
      next
        case False
        let ?s1 = "s\<lparr>env_heap := h, vecs := (vecs s)(p := map Some ps @ Some NULL # replicate 32 None), environ_size := length ps + 33\<rparr>"
        let ?s2 = "?s1\<lparr>vecs := (vecs ?s1)(p := map Some (ps @ [str]) @ Some NULL # replicate 31 None)\<rparr>"
        have "unat ?sz = (length ps + 33) * 8" using vec(2) r(4) unat_of_nat64 by metis
        then have "p \<in> bytes_at p (unat ?sz)" by (simp add: bytes_at_def)
        then have "p \<notin> used (env_heap s)" using mal_fresh [OF inv(1,2) m False] by blast
        then have pn: "p \<noteq> null_environ s" using g by (auto simp: env_inv_def)
        have v1: "vecs ?s1 p = map Some ps @ Some NULL # None # replicate 31 None"
          by (simp add: numeral_eq_Suc)
        have "put_env mal fre rea s str len overwrite = Some (0, ?s2\<lparr>environ := p\<rparr>)"
          using f nf k a v \<open>\<not> Suc (length ps) < environ_size s\<close> m False wrv_append(2) [OF v1 False] pn
          by (simp add: put_env_def put_env_grow_def add.commute)
        moreover have "good (?s2\<lparr>environ := p\<rparr>) (ps @ [str]) (es @ [xs])"
          using False pn h a by (intro env_inv_append [OF g str(1,2), where rest = "replicate 31 None"]) auto
        ultimately show ?thesis using nf by (auto simp: env_put_pos)
      qed
    qed
  qed
qed


text \<open>\<open>setenv\<close> builds the string in a fresh block and hands it to \<open>put_env\<close>.\<close>

lemma setenv_builds:
  fixes s nm v
  defines "h0 \<equiv> env_heap s" and "m \<equiv> env_mem s" and "xs \<equiv> nm @ [61] @ v"
  assumes inv: "inv h0" "covers h0 m" and name: "cstr m name nm" "bytes_at name (Suc (length nm)) \<subseteq> used h0"
    and val: "cstr m val v" "bytes_at val (Suc (length v)) \<subseteq> used h0" and nm: "nm \<noteq> []" "61 \<notin> set nm"
    and okay: "ok h0 (word_of_nat (length nm + length v + 2))" "length nm + length v + 2 < 2 ^ 64"
    and a: "mal h0 (word_of_nat (length nm + length v + 2)) = (p, h)"
  shows "p = NULL \<Longrightarrow> setenv mal fre rea s name val overwrite = Some (- 1, s\<lparr>env_heap := h\<rparr>)"
    and "p \<noteq> NULL \<Longrightarrow> setenv mal fre rea s name val overwrite =
        put_env mal fre rea (s\<lparr>env_heap := h, env_mem := put m p (xs @ [0])\<rparr>) p (Suc (length nm)) overwrite"
    and "p \<noteq> NULL \<Longrightarrow> frame (used h0) m (put m p (xs @ [0])) \<and> cstr (put m p (xs @ [0])) p xs \<and> bytes_at p (Suc (length xs)) \<subseteq> used h"
proof -
  let ?sz = "word_of_nat (length nm + length v + 2) :: 64 word"
  have sz: "unat ?sz = length nm + length v + 2" using okay(2) unat_of_nat64 by metis
  have c0: "rd m name = Some (hd nm)" "hd nm \<noteq> 0" "name \<noteq> NULL" using name(1) nm(1) by (cases nm; auto simp: cstr_Cons)+
  have l1: "name_len m name 0 = Some (Some (length nm))" using name_len_cstr [OF name(1)] nm(2) by simp
  note e = c0 [unfolded m_def] l1 [unfolded m_def] strlen_cstr [OF val(1), unfolded m_def] a [unfolded h0_def]
  show "setenv mal fre rea s name val overwrite = Some (- 1, s\<lparr>env_heap := h\<rparr>)" if "p = NULL"
    using e that by (simp add: setenv_def mem_simps Let_def del: of_nat_add)
  have mp: "mapped m p (length nm + length v + 2)" and fresh: "bytes_at p (length nm + length v + 2) \<inter> used h0 = {}"
      "bytes_at p (length nm + length v + 2) \<subseteq> used h" if "p \<noteq> NULL"
    using mal_mapped [OF inv(1) okay(1) a that inv(2)] mal_fresh [OF inv(1) okay(1) a that] sz by auto
  have sub: "bytes_at name (length nm) \<subseteq> used h0" using name(2) by (auto simp: bytes_at_def)
  have d: "disjoint_ranges p (length nm + length v + 2) name (length nm)"
      "disjoint_ranges p (length nm + length v + 2) val (Suc (length v))" if "p \<noteq> NULL"
    using bytes_at_disjoint [OF fresh(1) [OF that] sub] bytes_at_disjoint [OF fresh(1) [OF that] val(2)] nm(1) by auto
  show "setenv mal fre rea s name val overwrite =
        put_env mal fre rea (s\<lparr>env_heap := h, env_mem := put m p (xs @ [0])\<rparr>) p (Suc (length nm)) overwrite" if "p \<noteq> NULL"
    using e that build_entry [OF mp [OF that, unfolded m_def] name(1) [unfolded m_def] val(1) [unfolded m_def] d [OF that]]
    by (simp add: setenv_def mem_simps Let_def m_def xs_def del: of_nat_add)
  show "frame (used h0) m (put m p (xs @ [0])) \<and> cstr (put m p (xs @ [0])) p xs \<and> bytes_at p (Suc (length xs)) \<subseteq> used h" if "p \<noteq> NULL"
  proof (intro conjI)
    show "frame (used h0) m (put m p (xs @ [0]))" using put_frame [OF inv(1) okay(1) a that inv(2)] sz by (simp add: xs_def)
    show "cstr (put m p (xs @ [0])) p xs" using mp [OF that] name(1) val(1) by (intro cstr_put) (auto simp: mapped_def cstr_def xs_def)
    show "bytes_at p (Suc (length xs)) \<subseteq> used h" using fresh(2) [OF that] by (simp add: xs_def)
  qed
qed

lemma setenv_refines:
  assumes g: "good s ps es" and name: "cstr (env_mem s) name nm" "bytes_at name (Suc (length nm)) \<subseteq> used (env_heap s)"
    and val: "cstr (env_mem s) val v" "bytes_at val (Suc (length v)) \<subseteq> used (env_heap s)"
    and nm: "nm \<noteq> []" "61 \<notin> set nm"
    and okay: "ok (env_heap s) (word_of_nat (length nm + length v + 2))" "length nm + length v + 2 < 2 ^ 64"
      "\<And>h. ok h (word_of_nat ((length es + 33) * 8))" "(length es + 33) * 8 < 2 ^ 64"
  shows "\<exists>r s'. setenv mal fre rea s name val overwrite = Some (r, s') \<and> frame (used (env_heap s)) (env_mem s) (env_mem s') \<and>
    (r = 0 \<and> (\<exists>ps'. good s' ps' (env_put (nm @ [61]) (nm @ [61] @ v) overwrite es)) \<or>
     r = - 1 \<and> good s' ps es \<and> (let (p, h) = mal (env_heap s) (word_of_nat (length nm + length v + 2))
       in p = NULL \<or> fst (mal h (word_of_nat ((length es + 33) * 8))) = NULL))"
proof -
  let ?m = "env_mem s" and ?h = "env_heap s" and ?xs = "nm @ [61] @ v"
  let ?sz = "word_of_nat (length nm + length v + 2) :: 64 word"
  obtain p h where a: "mal ?h ?sz = (p, h)" by fastforce
  have inv: "inv ?h" "covers ?h ?m" "env_rel s ps es" using g by (auto simp: env_inv_def)
  note b = setenv_builds [OF inv(1,2) name val nm okay(1,2) a]
  have h: "inv h" "used ?h \<subseteq> used h" using mal_inv [OF inv(1) okay(1) a] by auto
  show ?thesis
  proof (cases "p = NULL")
    case True
    have "covers h ?m" using mal_covers [OF inv(1) okay(1) a inv(2)] by simp
    then have "good (s\<lparr>env_heap := h\<rparr>) ps es" using env_inv_heap [OF g h(1) _ h(2)] by simp
    with b(1) [OF True] a True show ?thesis by (simp add: frame_def)
  next
    case False
    note b = b(2,3) [OF False]
    let ?m' = "put ?m p (?xs @ [0])"
    let ?s = "s\<lparr>env_heap := h, env_mem := ?m'\<rparr>"
    have cov: "covers h ?m'" using mal_covers [OF inv(1) okay(1) a inv(2)] b(2) by (simp add: frame_def)
    have used0: "\<forall>i < length ps. bytes_at (ps ! i) (Suc (length (es ! i))) \<subseteq> used ?h" using g by (simp add: env_inv_def)
    have gh: "good (?s\<lparr>env_heap := h'\<rparr>) ps es" if "inv h'" "used ?h \<subseteq> used h'" "covers h' ?m'" for h'
      using env_rel_mem [OF inv(3) used0, of ?m'] b(2) g that by (auto simp: env_inv_def env_rel_def)
    have "\<exists>r s'. put_env mal fre rea ?s p (Suc (length nm)) overwrite = Some (r, s') \<and> env_mem s' = env_mem ?s \<and>
      (r = 0 \<and> (\<exists>ps'. good s' ps' (env_put (take (Suc (length nm)) ?xs) ?xs overwrite es)) \<or>
       r = - 1 \<and> good s' ps es \<and> fst (mal (env_heap ?s) (word_of_nat ((length es + 33) * 8))) = NULL)"
    proof (rule put_env_refines)
      have "?s\<lparr>env_heap := h\<rparr> = ?s" by (cases s) simp
      with gh [OF h(1,2) cov] show "good ?s ps es" by (simp only:)
      show "good (?s\<lparr>env_heap := fre (env_heap ?s) p\<rparr>) ps es"
        using gh mal_free [OF inv(1) okay(1) a False cov] by simp
    qed (use b(2) okay in auto)
    with b a show ?thesis by auto
  qed
qed

lemma strdup_heap:
  assumes "inv h" "ok h (word_of_nat (Suc (length xs)))" "covers h m" "cstr m str xs" "Suc (length xs) < 2 ^ 31"
    "strdup mal m h str = Some (p, m', h')" "length m' = length m"
  shows "used h \<subseteq> used h' \<and> covers h' m'"
proof -
  let ?l = "word_of_nat (Suc (length xs)) :: 64 word"
  have l: "scast (word_of_nat (length xs + 1) :: 32 word) = ?l"
    using scast_of_nat [of "length xs + 1"] assms(5) by (simp del: of_nat_Suc of_nat_add)
  have a: "mal h ?l = (p, h')"
    using assms(6) strlen_cstr [OF assms(4)] l
    by (auto simp: strdup_def Let_def split: prod.splits if_splits bind_splits simp del: of_nat_Suc of_nat_add)
  show ?thesis using mal_inv [OF assms(1,2) a] mal_covers [OF assms(1,2) a assms(3,7)] by simp
qed

lemma putenv_refines:
  assumes g: "good s ps es" and str: "cstr (env_mem s) str xs" "bytes_at str (Suc (length xs)) \<subseteq> used (env_heap s)"
    and okay: "ok (env_heap s) (word_of_nat (Suc (length xs)))" "Suc (length xs) < 2 ^ 31"
      "\<And>h. ok h (word_of_nat ((length es + 33) * 8))" "(length es + 33) * 8 < 2 ^ 64" and eq: "xs = key @ 61 # v" "61 \<notin> set v"
  shows "\<exists>r s'. putenv mal fre rea s str = Some (r, s') \<and> frame (used (env_heap s)) (env_mem s) (env_mem s') \<and>
    (r = 0 \<and> (\<exists>ps'. good s' ps' (env_put key xs True es)) \<or> r = - 1 \<and> good s' ps es)"
proof -
  have inv: "inv (env_heap s)" "covers (env_heap s) (env_mem s)" "env_rel s ps es" using g by (auto simp: env_inv_def)
  obtain p m h where d: "strdup mal (env_mem s) (env_heap s) str = Some (p, m, h)" "inv h" "frame (used (env_heap s)) (env_mem s) m"
    "p \<noteq> NULL \<Longrightarrow> cstr m p xs \<and> bytes_at p (Suc (length xs)) \<subseteq> used h"
    using strdup_copies [OF inv(1) okay(1) inv(2) str okay(2)] by blast
  have h: "used (env_heap s) \<subseteq> used h" "covers h m"
    using strdup_heap [OF inv(1) okay(1) inv(2) str(1) okay(2) d(1)] d(3) by (auto simp: frame_def)
  let ?s = "s\<lparr>env_mem := m, env_heap := h\<rparr>"
  have "\<forall>i < length ps. bytes_at (ps ! i) (Suc (length (es ! i))) \<subseteq> used (env_heap s)" using g by (simp add: env_inv_def)
  from env_rel_mem [OF inv(3) this d(3)] have gs: "good ?s ps es"
    using g d(2) h by (auto simp: env_inv_def env_rel_def)
  have e: "last_eq (env_mem s) str NULL = Some (str + length key)" using last_eq_cstr [OF str(1) [unfolded eq(1)] eq(2)] by simp
  have nz: "str \<noteq> NULL" using cstr_nonnull [OF str(1)] .
  have len: "length key \<le> length xs" "take (length key) xs = key" using eq(1) by auto
  show ?thesis
  proof (cases "p = NULL")
    case True
    then show ?thesis using e nz d(1,3) gs by (simp add: putenv_def)
  next
    case False
    have "\<exists>r s'. put_env mal fre rea ?s p (length key) True = Some (r, s') \<and> env_mem s' = env_mem ?s \<and>
      (r = 0 \<and> (\<exists>ps'. good s' ps' (env_put (take (length key) xs) xs True es)) \<or>
       r = - 1 \<and> good s' ps es \<and> fst (mal (env_heap ?s) (word_of_nat ((length es + 33) * 8))) = NULL)"
      using gs d(4) [OF False] len(1) okay by (intro put_env_refines) auto
    then show ?thesis using e nz d(1,3) False len(2) by (auto simp: putenv_def)
  qed
qed

lemma unsetenv_refines:
  assumes g: "good s ps es" and name: "cstr (env_mem s) name nm" and nm: "nm \<noteq> []" "61 \<notin> set nm"
  shows "\<exists>s' ps'. unsetenv s name = Some (0, s') \<and> env_mem s' = env_mem s \<and> good s' ps' (env_remove (nm @ [61]) es)"
proof -
  have rel: "env_rel s ps es" and e: "environ s \<noteq> null_environ s" using g by (auto simp: env_inv_def)
  let ?k = "key_pos (nm @ [61]) es"
  have k: "?k \<le> length ps" using key_pos_le [of "nm @ [61]" es] env_rel_rdv(4) [OF rel] by simp
  obtain v where v: "unset_shift s ?k = Some (s\<lparr>vecs := (vecs s)(environ s := v)\<rparr>)" "length v = length (vecs s (environ s))"
    "env_rel (s\<lparr>vecs := (vecs s)(environ s := v)\<rparr>) (take ?k ps @ drop (Suc ?k) ps) (take ?k es @ drop (Suc ?k) es)"
    using env_rel_unset [OF rel e k] by blast
  have c0: "rd (env_mem s) name = Some (hd nm)" "hd nm \<noteq> 0" "name \<noteq> NULL" using name(1) nm(1) by (cases nm; auto simp: cstr_Cons)+
  have "unsetenv s name = Some (0, s\<lparr>vecs := (vecs s)(environ s := v)\<rparr>)"
    using c0 name_len_cstr [OF name, of 0] nm(2) unset_find_pos [OF rel name, of 0] v(1) rel
    by (simp add: unsetenv_def mem_simps env_rel_def)
  moreover have "good (s\<lparr>vecs := (vecs s)(environ s := v)\<rparr>) (take ?k ps @ drop (Suc ?k) ps) (env_remove (nm @ [61]) es)"
    using v(2,3) g env_rel_rdv(4) [OF rel] k unfolding env_remove_pos
    by (auto simp: env_inv_def nth_append min_def split: if_splits)
  ultimately show ?thesis by auto
qed

end

section \<open>The environment with the static allocator\<close>

interpretation ste: heap_provider malloc static_inv static_covers static_used static_ok free
proof
  fix h sz p h' and m m' :: mem
  assume a: "static_inv h" "static_ok h sz" "malloc h sz = (p, h')"
  note c = static_contract [OF a(1,2), of p h', folded malloc_def, OF a(3)]
  show "static_covers h' m'" if "static_covers h m" "length m' = length m"
    using c(1) that by (simp add: static_covers_def)
  show "static_inv (free h' p) \<and> static_used h \<subseteq> static_used (free h' p) \<and> static_covers (free h' p) m"
    if "p \<noteq> NULL" "static_covers h' m"
    using c(1) that by (simp add: free_def)
qed

abbreviation "static_env \<equiv> env_inv static_inv static_covers static_used"

lemma static_ok_small: "n + 2 ^ 26 < 2 ^ 64 \<Longrightarrow> static_ok h (word_of_nat n)"
  using unat_of_nat64 [of n] by (simp add: static_ok_def)

text \<open>A state for examples: the environment holds \<^verbatim>\<open>AB=C\<close>; the memory has the strings \<^verbatim>\<open>A\<close>, \<^verbatim>\<open>B\<close> and \<^verbatim>\<open>A=D\<close>.\<close>

definition sample_env :: "sheap env_state" where
  "sample_env = \<lparr>env_mem = [7, 65, 0, 66, 0, 65, 66, 61, 67, 0, 65, 61, 68, 0] @ replicate (2 ^ 27) 0, env_heap = \<lparr>heap = 16, heapcnt = 0\<rparr>,
     vecs = (\<lambda>p. if p = 200 then [Some 5, Some NULL, None, None] else [Some NULL]), environ = 200, environ_size = 4,
     environ_alloc = NULL, null_environ = 15, errno = 0\<rparr>"

lemma sample_env_mem: "env_heap sample_env = \<lparr>heap = 16, heapcnt = 0\<rparr>" "length (env_mem sample_env) = 2 ^ 27 + 14"
  "i < 14 \<Longrightarrow> env_mem sample_env ! i = [7, 65, 0, 66, 0, 65, 66, 61, 67, 0, 65, 61, 68, 0] ! i"
  unfolding sample_env_def env_state.simps nth_append by simp_all

lemma sample_env_strings: "cstr (env_mem sample_env) 1 [65]" "cstr (env_mem sample_env) 3 [66]"
  "cstr (env_mem sample_env) 5 [65, 66, 61, 67]" "cstr (env_mem sample_env) 10 [65, 61, 68]"
  by (simp_all add: cstr_simps sample_env_mem)

lemma sample_env_used: "p + n \<le> 16 \<Longrightarrow> bytes_at p n \<subseteq> static_used (env_heap sample_env)"
  by (auto simp: bytes_at_def static_used_def sample_env_mem)

lemma sample_env_ok: "static_env sample_env [5] [[65, 66, 61, 67]]"
proof -
  have "static_covers (env_heap sample_env) (env_mem sample_env)" by (simp add: static_covers_def sample_env_mem)
  moreover have "env_rel sample_env [5] [[65, 66, 61, 67]]" using sample_env_strings(3) by (simp add: env_rel_def sample_env_def)
  moreover have "null_environ sample_env \<in> static_used (env_heap sample_env)" by (simp add: static_used_def sample_env_def)
  ultimately show ?thesis
    using sample_env_used [of 5 "Suc (length [65 :: byte, 66, 61, 67])"]
    by (simp add: env_inv_def static_inv_def sample_env_mem) (simp add: sample_env_def)
qed

text \<open>Two requests fail only if the heap has no room for both.\<close>

lemma two_mallocs_fail:
  assumes "static_inv h" "n + 2 ^ 26 < 2 ^ 64" "k + 2 ^ 26 < 2 ^ 64"
    "let (p, h') = malloc h (word_of_nat n) in p = NULL \<or> fst (malloc h' (word_of_nat k)) = NULL"
  shows "2 ^ 26 \<le> unat (heapcnt h) + round16 n + k"
proof (rule ccontr)
  assume "\<not> 2 ^ 26 \<le> unat (heapcnt h) + round16 n + k"
  then have b: "unat (heapcnt h) + round16 n + k < 2 ^ 26" by simp
  let ?n = "word_of_nat n :: 64 word" and ?k = "word_of_nat k :: 64 word"
  have w: "unat ?n = n" "unat ?k = k" using assms(2,3) unat_of_nat64 [of n] unat_of_nat64 [of k] by auto
  have ok: "static_ok h ?n" "static_ok h' ?k" for h h' using assms(2,3) by (simp_all add: static_ok_def w)
  obtain c where c: "malloc h ?n = (heap h + unat (heapcnt h), h\<lparr>heapcnt := c\<rparr>)" "unat c = round16 (unat (heapcnt h) + n)"
    using malloc_static_eq [OF assms(1) ok(1), unfolded w] b round16_bounds(1) [of n] by (auto simp: malloc_def)
  have i: "static_inv (h\<lparr>heapcnt := c\<rparr>)"
    using static_contract(1) [OF assms(1) ok(1)] c(1) by (simp add: malloc_def)
  have "unat c = unat (heapcnt h) + round16 n"
    using c(2) assms(1) round16_add by (simp add: static_inv_def)
  then have "fst (malloc (h\<lparr>heapcnt := c\<rparr>) ?k) \<noteq> NULL"
    using malloc_static_eq [OF i ok(2), unfolded w] b assms(1) by (auto simp: malloc_def static_inv_def)
  with c(1) assms(1,4) show False by (simp add: static_inv_def)
qed

section \<open>Properties\<close>



text \<open>\<open>unsetenv\<close> on a valid name always succeeds: it removes the first string of that name from the environment, keeps the invariant
  and every other variable, and \<open>getenv\<close> then returns null if the variable was not defined twice.\<close>

theorem unsetenv_getenv:
  assumes "static_env s ps es" "cstr (env_mem s) name nm" "nm \<noteq> []" "61 \<notin> set nm" "length nm < 2 ^ 31"
  shows "\<exists>s' ps'. unsetenv s name = Some (0, s') \<and> static_env s' ps' (env_remove (nm @ [61]) es) \<and>
    (length (filter (has_key (nm @ [61])) es) \<le> 1 \<longrightarrow> getenv s' name = Some NULL) \<and>
    (\<forall>b. 61 \<notin> set b \<longrightarrow> b \<noteq> nm \<longrightarrow> env_value b (env_remove (nm @ [61]) es) = env_value b es)"
proof -
  obtain s' ps' where s': "unsetenv s name = Some (0, s')" "env_mem s' = env_mem s" "static_env s' ps' (env_remove (nm @ [61]) es)"
    using ste.unsetenv_refines [OF assms(1-4)] by blast
  have "env_rel s' ps' (env_remove (nm @ [61]) es)" using s'(3) by (simp add: env_inv_def)
  moreover have "cstr (env_mem s') name nm" using s'(2) assms(2) by simp
  ultimately have "getenv s' name = Some NULL" if "length (filter (has_key (nm @ [61])) es) \<le> 1"
    using getenv_value [of s' ps' "env_remove (nm @ [61]) es" name nm] env_value_remove [OF that] assms(5) by auto
  with s' env_value_remove_other [OF assms(4)] show ?thesis by blast
qed

theorem unsetenv_getenv_witness:
  "\<exists>s'. unsetenv sample_env 1 = Some (0, s') \<and> getenv s' 1 = Some NULL"
  using unsetenv_getenv [OF sample_env_ok sample_env_strings(1)] by (auto simp: has_key_def)

text \<open>\<open>putenv\<close> compares only the part in front of the last equals sign: the first variable whose name merely starts with
  that text is overwritten.\<close>

theorem putenv_overwrites_prefix:
  assumes "static_env s ps ((key @ w) # es)" "cstr (env_mem s) str (key @ 61 # v)" "61 \<notin> set v"
    "bytes_at str (Suc (length (key @ 61 # v))) \<subseteq> static_used (env_heap s)" "length (key @ 61 # v) < 2 ^ 31 - 1" "length es < 2 ^ 32"
  shows "\<exists>r s' ps'. putenv malloc free rea s str = Some (r, s') \<and>
    (r = 0 \<and> static_env s' ps' ((key @ 61 # v) # es) \<or> r = - 1 \<and> static_env s' ps' ((key @ w) # es))"
proof -
  let ?xs = "key @ 61 # v"
  have ok: "static_ok (env_heap s) (word_of_nat (Suc (length ?xs)))" "static_ok h (word_of_nat ((length ((key @ w) # es) + 33) * 8))" for h
    using assms(5,6) by (intro static_ok_small; simp)+
  show ?thesis
    using ste.putenv_refines [OF assms(1,2,4) ok(1) _ ok(2) _ refl assms(3), of rea] assms(5,6) by auto
qed


theorem putenv_overwrites_prefix_witness:
  "\<exists>r s' ps'. putenv malloc free (\<lambda>h p sz. (NULL, h)) sample_env 10 = Some (r, s') \<and>
    (r = 0 \<and> static_env s' ps' [[65, 61, 68]] \<or> r = - 1 \<and> static_env s' ps' [[65, 66, 61, 67]])"
  using putenv_overwrites_prefix [of sample_env "[5]" "[65]" "[66, 61, 67]" "[]" 10 "[68]" "\<lambda>h p sz. (NULL, h)"]
    sample_env_ok sample_env_strings(4) by (simp add: sample_env_used)

text \<open>Once the environment has been extended, \<open>clearenv\<close> leaves the recorded size of the old vector behind: the next \<open>setenv\<close>
  writes behind the end of the constant empty vector, an invalid access.\<close>

theorem clearenv_setenv_faults:
  assumes "static_env s ps es" "1 < environ_size s" "null_environ s \<noteq> NULL" "vecs s (null_environ s) = [Some NULL]"
    "cstr (env_mem s) name nm" "bytes_at name (Suc (length nm)) \<subseteq> static_used (env_heap s)"
    "cstr (env_mem s) val v" "bytes_at val (Suc (length v)) \<subseteq> static_used (env_heap s)" "nm \<noteq> []" "61 \<notin> set nm"
    "length nm + length v + 2 ^ 27 < 2 ^ 64" "malloc (env_heap s) (word_of_nat (length nm + length v + 2)) = (p, h)" "p \<noteq> NULL"
  shows "setenv malloc free rea (snd (clearenv s)) name val overwrite = None"
proof -
  let ?s = "snd (clearenv s)"
  have l: "length nm + length v + 2 < 2 ^ 64" using assms(11) by simp
  have ok: "static_ok (env_heap ?s) (word_of_nat (length nm + length v + 2))"
    using assms(11) by (intro static_ok_small) simp
  have inv: "static_inv (env_heap ?s)" "static_covers (env_heap ?s) (env_mem ?s)"
    using assms(1) by (auto simp: env_inv_def clearenv_def)
  have same: "env_heap ?s = env_heap s" "env_mem ?s = env_mem s" "environ ?s = null_environ s" "environ_alloc ?s = NULL"
    using assms(1) by (auto simp: clearenv_def env_inv_def)
  let ?s1 = "?s\<lparr>env_heap := h, env_mem := put (env_mem ?s) p ((nm @ [61] @ v) @ [0])\<rparr>"
  have "setenv malloc free rea ?s name val overwrite = put_env malloc free rea ?s1 p (Suc (length nm)) overwrite"
    using assms inv ok l same by (intro ste.setenv_builds(2)) auto
  also have "put_env_find ?s1 p (Suc (length nm)) 0 = Some (False, 0)"
    using assms(3,4) by (subst put_env_find.simps) (simp add: rdv_def clearenv_def)
  then have "put_env malloc free rea ?s1 p (Suc (length nm)) overwrite = None"
    using assms(1-4) by (simp add: put_env_def Let_def wrv_def clearenv_def env_inv_def)
  finally show ?thesis .
qed


theorem clearenv_setenv_faults_witness:
  "setenv malloc free (\<lambda>h p sz. (NULL, h)) (snd (clearenv sample_env)) 1 3 True = None"
proof -
  have "malloc (env_heap sample_env) (word_of_nat (length [65 :: byte] + length [66 :: byte] + 2)) = (16, \<lparr>heap = 16, heapcnt = 16\<rparr>)"
    by (simp add: sample_env_mem malloc_def malloc_impl_static_def KLIBC_MALLOC_STATIC_SIZE_def Let_def)
  from clearenv_setenv_faults [OF sample_env_ok _ _ _ sample_env_strings(1) _ sample_env_strings(2) _ _ _ _ this]
  show ?thesis by (simp add: sample_env_used) (simp add: sample_env_def)
qed

end
