(* ===== verification/Fnmatch.thy ===== *)
theory Fnmatch
  imports CPrelude
begin

text \<open>
  File name patterns, \<^verbatim>\<open>libc/src/fnmatch.c\<close>: the recursive matcher over pattern and text, both strings in memory. The
  specification reads a pattern as a list of elements; a text matches if it splits into pieces, one for every element.
\<close>

unbundle bit_operations_syntax

section \<open>Definitions\<close>

definition FNM_PATHNAME :: "32 word" where "FNM_PATHNAME = 1"
definition FNM_NOESCAPE :: "32 word" where "FNM_NOESCAPE = 2"
definition FNM_PERIOD :: "32 word" where "FNM_PERIOD = 4"

text \<open>The bracket loops: \<open>bracket_end\<close> looks for the closing bracket, \<open>bracket\<close> runs over the elements for the character
  \<open>c\<close> of the text. The value \<open>Some (Some q)\<close> stands for the recursive call behind the bracket at \<open>q\<close>, \<open>Some None\<close> for leaving the switch.\<close>

function bracket_end :: "mem \<Rightarrow> addr \<Rightarrow> addr option option" where
  "bracket_end m p = do {
     a \<leftarrow> rd m p;
     if a = 0 then Some None else if a = 93 then Some (Some p) else bracket_end m (p + 1)
   }"
  by pat_completeness auto
termination
  by (relation "measure (\<lambda>(m, p). length m - p)") auto

function bracket :: "mem \<Rightarrow> addr \<Rightarrow> byte \<Rightarrow> bool \<Rightarrow> addr option option" where
  "bracket m p c neg = do {
     a \<leftarrow> rd m p;
     if a = 0 \<or> a = 93 then Some None
     else do {
       b \<leftarrow> rd m (p + 1);
       if b = 45 then do {
         mt \<leftarrow> (if sint c \<ge> sint a then do { d \<leftarrow> rd m (p + 2); Some (sint c \<le> sint d) } else Some False);
         if mt \<noteq> neg then bracket_end m (p + 3) else bracket m (p + 3) c neg
       }
       else if (a = c) \<noteq> neg then bracket_end m (p + 1) else bracket m (p + 1) c neg
     }
   }"
  by pat_completeness auto
termination
  by (relation "measure (\<lambda>(m, p, c, neg). length m - p)") auto

function skip_stars :: "mem \<Rightarrow> addr \<Rightarrow> int option" where
  "skip_stars m p = do {
     a \<leftarrow> rd m p;
     if a = 42 then skip_stars m (p + 1) else Some (of_bool (a \<noteq> 0))
   }"
  by pat_completeness auto
termination
  by (relation "measure (\<lambda>(m, p). length m - p)") auto

declare bracket_end.simps [simp del] bracket.simps [simp del] skip_stars.simps [simp del]

lemma bracket_end_above: "bracket_end m p = Some (Some q) \<Longrightarrow> p \<le> q"
proof (induction m p rule: bracket_end.induct)
  case (1 m p)
  then show ?case by (subst (asm) (2) bracket_end.simps) (fastforce split: bind_splits if_splits)
qed

lemma bracket_above: "bracket m p c neg = Some (Some q) \<Longrightarrow> p \<le> q"
proof (induction "length m - p" arbitrary: p c neg rule: less_induct)
  case less
  have ih: "p' \<le> q" if "bracket m p' c' neg' = Some (Some q)" "p < p'" "p < length m" for p' c' neg'
    using less(1) [OF _ that(1)] that by simp
  from less(2) show ?case
    by (subst (asm) bracket.simps) (auto split: bind_splits if_splits dest!: bracket_end_above ih)
qed

function fnmatch :: "mem \<Rightarrow> addr \<Rightarrow> addr \<Rightarrow> 32 word \<Rightarrow> int option" where
  "fnmatch m p s flags = do {
     cs \<leftarrow> rd m s;
     cp \<leftarrow> rd m p;
     if flags AND FNM_PATHNAME \<noteq> 0 \<and> cs = 47 then
       if cp \<noteq> 47 then Some 1 else map_option (\<lambda>r. of_bool (r \<noteq> 0)) (fnmatch m (p + 1) (s + 1) flags)
     else if flags AND FNM_PERIOD \<noteq> 0 \<and> cs = 46 then
       if cp \<noteq> 46 then Some 1 else map_option (\<lambda>r. of_bool (r \<noteq> 0)) (fnmatch m (p + 1) (s + 1) flags)
     else do {
       let flags = flags AND NOT FNM_PERIOD;
       if flags AND FNM_NOESCAPE = 0 \<and> cp = 92 then do {
         cp \<leftarrow> rd m (p + 1);
         if cp \<noteq> cs then Some 1 else map_option (\<lambda>r. of_bool (r \<noteq> 0)) (fnmatch m (p + 2) (s + 1) flags)
       }
       else if cs = 0 then skip_stars m p
       else if cp = 91 then do {
         n \<leftarrow> rd m (p + 1);
         r \<leftarrow> (if n = 33 then bracket m (p + 2) cs True else bracket m (p + 1) cs False);
         case r of Some q \<Rightarrow> fnmatch m (q + 1) (s + 1) flags | None \<Rightarrow> Some 1
       }
       else if cp = 42 then do {
         r \<leftarrow> fnmatch m p (s + 1) flags;
         if r \<noteq> 0 then fnmatch m (p + 1) s flags else Some 0
       }
       else if cp \<noteq> 0 \<and> (cp = cs \<or> cp = 63) then fnmatch m (p + 1) (s + 1) flags
       else Some 1
     }
   }"
  by pat_completeness auto
termination
  by (relation "measure (\<lambda>(m, p, s, flags). (length m - p) + (length m - s))")
    (auto dest!: bracket_above split: if_splits)

declare fnmatch.simps [simp del]

section \<open>Specification\<close>

datatype item = Single byte | Range byte byte
datatype tok = Lit byte | Esc byte | Any | Star | Set "item list"

fun item_text :: "item \<Rightarrow> byte list" where
  "item_text (Single a) = [a]"
| "item_text (Range a b) = [a, 45, b]"

fun tok_text :: "tok \<Rightarrow> byte list" where
  "tok_text (Lit c) = [c]"
| "tok_text (Esc c) = [92, c]"
| "tok_text Any = [63]"
| "tok_text Star = [42]"
| "tok_text (Set its) = 91 # concat (map item_text its) @ [93]"

definition pattern :: "tok list \<Rightarrow> byte list" where
  "pattern toks = concat (map tok_text toks)"

fun item_ok :: "item \<Rightarrow> bool" where
  "item_ok (Single a) \<longleftrightarrow> a \<notin> {0, 45, 93}"
| "item_ok (Range a b) \<longleftrightarrow> a \<notin> {0, 45, 93} \<and> b \<notin> {0, 93}"

fun tok_ok :: "tok \<Rightarrow> bool" where
  "tok_ok (Lit c) \<longleftrightarrow> c \<notin> {0, 42, 63, 91, 92}"
| "tok_ok (Esc c) \<longleftrightarrow> c \<noteq> 0"
| "tok_ok (Set its) \<longleftrightarrow> list_all item_ok its \<and> take 1 (concat (map item_text its)) \<noteq> [33]"
| "tok_ok _ \<longleftrightarrow> True"

text \<open>The comparisons of a range are those of the signed type \<^verbatim>\<open>char\<close>.\<close>

fun item_has :: "item \<Rightarrow> byte \<Rightarrow> bool" where
  "item_has (Single a) x \<longleftrightarrow> a = x"
| "item_has (Range a b) x \<longleftrightarrow> sint a \<le> sint x \<and> sint x \<le> sint b"

fun tok_char :: "tok \<Rightarrow> byte \<Rightarrow> bool" where
  "tok_char (Lit c) x \<longleftrightarrow> c = x"
| "tok_char (Esc c) x \<longleftrightarrow> c = x"
| "tok_char (Set its) x \<longleftrightarrow> list_ex (\<lambda>i. item_has i x) its"
| "tok_char _ x \<longleftrightarrow> True"

definition piece :: "tok \<Rightarrow> byte list \<Rightarrow> bool" where
  "piece t ys \<longleftrightarrow> t = Star \<or> (\<exists>x. ys = [x] \<and> tok_char t x)"

definition matches :: "tok list \<Rightarrow> byte list \<Rightarrow> bool" where
  "matches toks xs \<longleftrightarrow> (\<exists>yss. xs = concat yss \<and> list_all2 piece toks yss)"

lemma matches_Nil [simp]: "matches [] xs \<longleftrightarrow> xs = []"
  by (simp add: matches_def)

lemma matches_Cons: "matches (t # ts) xs \<longleftrightarrow> (\<exists>ys zs. xs = ys @ zs \<and> piece t ys \<and> matches ts zs)"
  unfolding matches_def list_all2_Cons1 by (auto; metis concat.simps(2))

lemma matches_Star [simp]:
  "matches (Star # ts) [] \<longleftrightarrow> matches ts []"
  "matches (Star # ts) (x # xs) \<longleftrightarrow> matches (Star # ts) xs \<or> matches ts (x # xs)"
  by (auto simp: matches_Cons piece_def Cons_eq_append_conv)

lemma matches_char [simp]:
  assumes "t \<noteq> Star"
  shows "\<not> matches (t # ts) []" "matches (t # ts) (x # xs) \<longleftrightarrow> tok_char t x \<and> matches ts xs"
proof -
  show "\<not> matches (t # ts) []" using assms by (auto simp: matches_Cons piece_def)
  have "(\<exists>ys zs. x # xs = ys @ zs \<and> (\<exists>x. ys = [x] \<and> tok_char t x) \<and> matches ts zs) \<longleftrightarrow> tok_char t x \<and> matches ts xs"
    by (auto intro: exI [of _ "[x]"])
  then show "matches (t # ts) (x # xs) \<longleftrightarrow> tok_char t x \<and> matches ts xs" using assms by (simp add: matches_Cons piece_def)
qed

section \<open>The matcher decides the specification\<close>

lemma bracket_end_text: "cstr m p (xs @ 93 # ys) \<Longrightarrow> 93 \<notin> set xs \<Longrightarrow> bracket_end m p = Some (Some (p + length xs))"
proof (induction xs arbitrary: p)
  case Nil
  then show ?case by (subst bracket_end.simps) (simp add: cstr_Cons mem_simps)
next
  case (Cons x xs)
  then show ?case using Cons.IH [of "Suc p"] by (subst bracket_end.simps) (simp add: cstr_Cons mem_simps)
qed

lemma items_text: "list_all item_ok its \<Longrightarrow> 93 \<notin> set (concat (map item_text its))"
proof (induction its)
  case (Cons i its)
  then show ?case by (cases i) auto
qed simp

lemma items_head: "list_all item_ok its \<Longrightarrow> hd (concat (map item_text its) @ 93 # ys) \<noteq> 45"
proof (cases its)
  case (Cons i its')
  then show "list_all item_ok its \<Longrightarrow> ?thesis" by (cases i) auto
qed simp

lemma bracket_items:
  "list_all item_ok its \<Longrightarrow> cstr m p (concat (map item_text its) @ 93 # ys) \<Longrightarrow>
   bracket m p c False = Some (if list_ex (\<lambda>i. item_has i c) its then Some (p + length (concat (map item_text its))) else None)"
proof (induction its arbitrary: p)
  case Nil
  then show ?case by (subst bracket.simps) (simp add: cstr_Cons mem_simps)
next
  case (Cons i its)
  let ?r = "concat (map item_text its) @ 93 # ys"
  have its: "list_all item_ok its" using Cons.prems(1) by simp
  show ?case
  proof (cases i)
    case (Single a)
    with Cons.prems have r: "cstr m (Suc p) ?r" "a \<noteq> 0" "a \<noteq> 93" "m ! p = a" "0 < p" "p < length m" by (auto simp: cstr_Cons)
    then have "m ! Suc p = hd ?r" "Suc p < length m" using cstr_Cons [of m "Suc p" "hd ?r" "tl ?r"] by auto
    then show ?thesis
      using Single r items_head [OF its, of ys] bracket_end_text [OF r(1) items_text [OF its]] Cons.IH [OF its r(1)]
      by (subst bracket.simps) (simp add: mem_simps)
  next
    case (Range a b)
    with Cons.prems have r: "cstr m (p + 3) ?r" "a \<noteq> 0" "a \<noteq> 93" "m ! p = a" "m ! Suc p = 45" "m ! Suc (Suc p) = b" "0 < p" "Suc (Suc p) < length m"
      by (auto simp: cstr_Cons numeral_3_eq_3)
    then show ?thesis
      using Range bracket_end_text [OF r(1) items_text [OF its]] Cons.IH [OF its r(1)]
      by (subst bracket.simps) (simp add: mem_simps)
  qed
qed

lemma skip_stars_pattern:
  "list_all tok_ok toks \<Longrightarrow> cstr m p (pattern toks) \<Longrightarrow> skip_stars m p = Some (of_bool (\<not> matches toks []))"
proof (induction toks arbitrary: p)
  case Nil
  then show ?case by (subst skip_stars.simps) (simp add: pattern_def cstr_Nil mem_simps)
next
  case (Cons t ts)
  then have "cstr m p (tok_text t @ pattern ts)" by (simp add: pattern_def)
  with Cons show ?case by (cases t; subst skip_stars.simps) (auto simp: cstr_Cons mem_simps)
qed

lemma cstr_hd: "cstr m p (xs @ y # ys) \<Longrightarrow> 0 < p \<and> p < length m \<and> m ! p = hd (xs @ [y])"
  by (cases xs) (auto simp: cstr_Cons)

lemma hd_not_bang: "take 1 xs \<noteq> [33 :: byte] \<Longrightarrow> hd (xs @ [93]) \<noteq> 33"
  by (cases xs) auto

lemma fnmatch_char:
  assumes "tok_ok t" "t \<noteq> Star" "cstr m p (tok_text t @ ps)" "cstr m s (x # xs)"
    and r: "fnmatch m (p + length (tok_text t)) (Suc s) 0 = Some (of_bool (\<not> b))"
  shows "fnmatch m p s 0 = Some (of_bool (\<not> (tok_char t x \<and> b)))"
proof (cases "\<exists>its. t = Set its")
  case True
  then obtain its where Set: "t = Set its" ..
  with assms have b: "cstr m (Suc p) (concat (map item_text its) @ 93 # ps)" "m ! p = 91" "0 < p" "p < length m" "list_all item_ok its"
    by (auto simp: cstr_Cons)
  have "hd (concat (map item_text its) @ [93]) \<noteq> 33"
    using assms(1) Set by (intro hd_not_bang) simp
  with cstr_hd [OF b(1)] have "m ! Suc p \<noteq> 33" "Suc p < length m" by auto
  then show ?thesis
    using assms Set b bracket_items [OF b(5,1), of x]
    by (subst fnmatch.simps) (simp add: cstr_Cons mem_simps Let_def)
next
  case False
  then show ?thesis using assms by (cases t; subst fnmatch.simps) (auto simp: cstr_Cons mem_simps Let_def)
qed

lemma fnmatch_pattern:
  "list_all tok_ok toks \<Longrightarrow> cstr m p (pattern toks) \<Longrightarrow> cstr m s xs \<Longrightarrow> fnmatch m p s 0 = Some (of_bool (\<not> matches toks xs))"
proof (induction toks arbitrary: p s xs)
  case Nil
  then show ?case
    using skip_stars_pattern [of "[]" m p] by (cases xs; subst fnmatch.simps) (auto simp: pattern_def cstr_simps mem_simps Let_def)
next
  case (Cons t ts)
  from Cons.prems have c: "cstr m p (tok_text t @ pattern ts)" "list_all tok_ok ts" "tok_ok t" by (auto simp: pattern_def)
  have r: "cstr m (p + length (tok_text t)) (pattern ts)" using cstr_drop [OF c(1), of "length (tok_text t)"] by simp
  note ih = Cons.IH [OF c(2) r]
  have nil: "fnmatch m p s 0 = Some (of_bool (\<not> matches (t # ts) []))" if "cstr m s []" for s
    using skip_stars_pattern [OF Cons.prems(1,2)] c that
    by (cases t; subst fnmatch.simps) (auto simp: cstr_simps mem_simps Let_def)
  show ?case
  proof (cases "t = Star")
    case True
    show ?thesis using Cons.prems(3)
    proof (induction xs arbitrary: s)
      case (Cons x xs)
      then show ?case using Cons.IH [of "Suc s"] ih [of s "x # xs"] c(1) True
        by (subst fnmatch.simps) (auto simp: cstr_Cons mem_simps Let_def)
    qed (rule nil)
  next
    case False
    show ?thesis
    proof (cases xs)
      case (Cons x xs')
      with fnmatch_char [OF c(3) False c(1), of s x xs'] ih [of "Suc s" xs'] Cons.prems(3) False show ?thesis
        by (simp add: cstr_Cons)
    qed (use nil Cons.prems(3) in simp)
  qed
qed

text \<open>In a negated set the loop takes the first element that differs from the character, so a negated set of two different
  characters matches each of them.\<close>

lemma bracket_negation:
  assumes "cstr m p (a # b # 93 # ps)" "a \<noteq> b" "{a, b} \<inter> {45, 93} = {}" "c = a \<or> c = b"
  shows "bracket m p c True = Some (Some (p + 2))"
proof -
  have e: "bracket_end m (Suc p) = Some (Some (p + 2))" "bracket_end m (Suc (Suc p)) = Some (Some (p + 2))"
    using assms bracket_end_text [of m "Suc p" "[b]" ps] bracket_end_text [of m "Suc (Suc p)" "[]" ps] by (auto simp: cstr_Cons)
  with assms show ?thesis
    by (subst bracket.simps, subst bracket.simps) (auto simp: cstr_Cons mem_simps)
qed

section \<open>Properties\<close>

text \<open>C12: \<open>fnmatch\<close> without flags decides the language of patterns: on every pattern built from characters, escapes,
  question marks, stars and character sets with ranges it ends without a fault, and it returns 0 exactly when the text
  splits into pieces, one for every element of the pattern.\<close>

theorem fnmatch_language:
  assumes "list_all tok_ok toks" "cstr m p (pattern toks)" "cstr m s xs"
  shows "\<exists>r. fnmatch m p s 0 = Some r \<and> (r = 0 \<longleftrightarrow> matches toks xs)"
  using fnmatch_pattern [OF assms] by simp

theorem fnmatch_language_witness:
  "fnmatch [7, 42, 91, 97, 45, 99, 93, 63, 0, 120, 121, 98, 122, 0] 1 9 0 = Some 0"
proof -
  let ?m = "[7, 42, 91, 97, 45, 99, 93, 63, 0, 120, 121, 98, 122, 0] :: mem"
  let ?toks = "[Star, Set [Range 97 99], Any]"
  have "cstr ?m 1 (pattern ?toks)" "cstr ?m 9 [120, 121, 98, 122]" "list_all tok_ok ?toks"
    by (simp_all add: pattern_def cstr_simps)
  with fnmatch_language [of ?toks ?m 1 9 "[120, 121, 98, 122]"] show ?thesis by auto
qed

text \<open>With \<open>FNM_PATHNAME\<close> a star cannot match the last character before a slash: where one character is left before a
  slash, the star is as good as absent, so that a pattern of a star, a slash and a name does not match a path of one
  letter, a slash and the name.\<close>

theorem fnmatch_star_slash:
  assumes "cstr m p (42 # ps)" "cstr m s (x # 47 # xs)" "x \<notin> {46, 47}" "flags AND FNM_PATHNAME \<noteq> 0"
  shows "fnmatch m p s flags = fnmatch m (p + 1) s (flags AND NOT FNM_PERIOD)"
proof -
  have f: "(flags AND NOT FNM_PERIOD) AND FNM_PATHNAME \<noteq> 0"
    using assms(4) by (simp add: FNM_PATHNAME_def FNM_PERIOD_def and.assoc)
  then have "fnmatch m p (s + 1) (flags AND NOT FNM_PERIOD) = Some 1"
    using assms(1,2) by (subst fnmatch.simps) (simp add: cstr_Cons mem_simps)
  with assms show ?thesis by (subst fnmatch.simps) (simp add: cstr_Cons mem_simps Let_def)
qed

theorem fnmatch_star_slash_witness:
  "fnmatch [7, 42, 47, 98, 0, 97, 47, 98, 0] 1 5 FNM_PATHNAME = Some 1"
proof -
  let ?m = "[7, 42, 47, 98, 0, 97, 47, 98, 0] :: mem"
  have "fnmatch ?m 1 5 FNM_PATHNAME = fnmatch ?m (Suc 1) 5 (FNM_PATHNAME AND NOT FNM_PERIOD)"
    using fnmatch_star_slash [of ?m 1 "[47, 98]" 5 97 "[98]" FNM_PATHNAME] by (simp add: cstr_simps FNM_PATHNAME_def)
  also have "\<dots> = Some 1"
    by (subst fnmatch.simps) (simp add: mem_simps Let_def FNM_PATHNAME_def FNM_PERIOD_def FNM_NOESCAPE_def)
  finally show ?thesis .
qed

end
