(* ===== verification/Printf.thy ===== *)
theory Printf
  imports Strtox
begin

text \<open>
  Formatted output: \<^verbatim>\<open>libc/src/vsnprintf.c\<close> and the functions built on it. The output position of the C code, a pointer \<^verbatim>\<open>q\<close>
  and a count \<^verbatim>\<open>o\<close>, is a \<open>sink\<close> together with the memory. The argument list is a list of tagged values; fetching an
  argument of another type than was passed is undefined in C and \<open>None\<close> here, as is an overflow of the
  field width. The flags are a record of truth values, one for each bit of the C enumeration. The loop over the format is
  a \<open>partial_function\<close>: the output may overwrite the format.
\<close>

section \<open>Definitions\<close>

record pf_flags =
  FL_ZERO :: bool
  FL_MINUS :: bool
  FL_PLUS :: bool
  FL_TICK :: bool
  FL_SPACE :: bool
  FL_HASH :: bool
  FL_SIGNED :: bool
  FL_UPPER :: bool

definition no_flags :: pf_flags where
  "no_flags = \<lparr>FL_ZERO = False, FL_MINUS = False, FL_PLUS = False, FL_TICK = False, FL_SPACE = False, FL_HASH = False,
     FL_SIGNED = False, FL_UPPER = False\<rparr>"

text \<open>The sizes of integers; the ranks of the C enumeration are the integers from -2 to 2.\<close>

definition rank_char :: int where "rank_char = - 2"
definition rank_short :: int where "rank_short = - 1"
definition rank_int :: int where "rank_int = 0"
definition rank_long :: int where "rank_long = 1"
definition rank_longlong :: int where "rank_longlong = 2"

type_synonym sink = "mem \<times> addr \<times> nat"

definition EMIT :: "nat \<Rightarrow> byte \<Rightarrow> sink \<Rightarrow> sink option" where
  "EMIT n x = (\<lambda>(m, q, out). if out < n then do { m' \<leftarrow> wr m q x; Some (m', q + 1, out + 1) } else Some (m, q, out + 1))"

fun emit_pad :: "nat \<Rightarrow> byte \<Rightarrow> nat \<Rightarrow> sink \<Rightarrow> sink option" where
  "emit_pad n x 0 s = Some s"
| "emit_pad n x (Suc k) s = do { s \<leftarrow> EMIT n x s; emit_pad n x k s }"

subsection \<open>Integers\<close>

definition lcdigits :: "byte list" where
  "lcdigits = [48, 49, 50, 51, 52, 53, 54, 55, 56, 57, 97, 98, 99, 100, 101, 102]"

definition ucdigits :: "byte list" where
  "ucdigits = [48, 49, 50, 51, 52, 53, 54, 55, 56, 57, 65, 66, 67, 68, 69, 70]"

function count_digits :: "nat \<Rightarrow> nat \<Rightarrow> nat" where
  "count_digits base tmpval = (if tmpval \<noteq> 0 \<and> 1 < base then Suc (count_digits base (tmpval div base)) else 0)"
  by pat_completeness auto
termination
  by (relation "measure snd") auto

declare count_digits.simps [simp del]

definition number_digits :: "pf_flags \<Rightarrow> nat \<Rightarrow> int \<Rightarrow> nat \<Rightarrow> nat" where
  "number_digits flags base prec val =
     (let ndigits = count_digits base val;
          prec = (if FL_HASH flags \<and> base = 8 \<and> prec < int ndigits + 1 then int ndigits + 1 else prec)
      in if int ndigits < prec then nat prec else if val = 0 then 1 else ndigits)"

definition tick_skip :: "pf_flags \<Rightarrow> nat \<Rightarrow> nat \<Rightarrow> nat" where
  "tick_skip flags base ndigits = (if FL_TICK flags then (if base = 16 then 4 else 3) else ndigits)"

text \<open>The digits are written from right to left.\<close>

function put_digits :: "byte list \<Rightarrow> nat \<Rightarrow> nat \<Rightarrow> nat \<Rightarrow> mem \<Rightarrow> addr \<Rightarrow> nat \<Rightarrow> nat \<Rightarrow> nat \<Rightarrow> nat \<Rightarrow> mem option" where
  "put_digits digits n base tickskip m qq oo ndigits b4tick val =
     (if ndigits > 0 then do {
        (m, qq, oo, ndigits, b4tick) \<leftarrow>
          (if b4tick = 0 then do {
             m \<leftarrow> (if oo - 1 < n then wr m (qq - 1) 95 else Some m);
             Some (m, qq - 1, oo - 1, ndigits - 1, tickskip - 1)
           }
           else Some (m, qq, oo, ndigits, b4tick - 1));
        m \<leftarrow> (if oo - 1 < n then wr m (qq - 1) (digits ! (val mod base)) else Some m);
        put_digits digits n base tickskip m (qq - 1) (oo - 1) (ndigits - 1) b4tick (val div base)
      }
      else Some m)"
  by pat_completeness auto
termination
  by (relation "measure (\<lambda>(digits, n, base, tickskip, m, qq, oo, ndigits, b4tick, val). ndigits)")
    (auto split: if_splits bind_splits)

declare put_digits.simps [simp del]

text \<open>At most one of the three paddings happens, so the width that is left after one of them is not needed.
  A base for which there are no digits and a number of characters that does not fit an \<^verbatim>\<open>int\<close> are \<open>None\<close>;
  the negation of the least \<^verbatim>\<open>intmax_t\<close> wraps around.\<close>

definition format_int :: "mem \<Rightarrow> addr \<Rightarrow> nat \<Rightarrow> 64 word \<Rightarrow> pf_flags \<Rightarrow> nat \<Rightarrow> int \<Rightarrow> int \<Rightarrow> (mem \<times> nat) option" where
  "format_int m q n val0 flags base width prec = do {
     let digits = (if FL_UPPER flags then ucdigits else lcdigits);
     let minus = (FL_SIGNED flags \<and> sint val0 < 0);
     let val = unat (if minus then - val0 else val0);
     let nd = number_digits flags base prec val;
     let tickskip = tick_skip flags base nd;
     let ndigits = nd + (nd - 1) div tickskip;
     let nchars = ndigits + (if minus \<or> FL_PLUS flags \<or> FL_SPACE flags then 1 else 0) + (if FL_HASH flags \<and> base = 16 then 2 else 0);
     let padding = nat (width - int nchars);
     _ \<leftarrow> (if 2 \<le> base \<and> base \<le> 16 \<and> nchars < 2 ^ 31 then Some () else None);
     s \<leftarrow> (if \<not> FL_MINUS flags \<and> \<not> FL_ZERO flags then emit_pad n 32 padding (m, q, 0) else Some (m, q, 0));
     s \<leftarrow> (if minus then EMIT n 45 s else if FL_PLUS flags then EMIT n 43 s else if FL_SPACE flags then EMIT n 32 s else Some s);
     s \<leftarrow> (if FL_HASH flags \<and> base = 16 then do { s \<leftarrow> EMIT n 48 s; EMIT n (if FL_UPPER flags then 88 else 120) s } else Some s);
     s \<leftarrow> (if \<not> FL_MINUS flags \<and> FL_ZERO flags then emit_pad n 48 padding s else Some s);
     let (m, q, out) = s;
     m \<leftarrow> put_digits digits n base tickskip m (q + ndigits) (out + ndigits) ndigits tickskip val;
     (m, q, out) \<leftarrow> (if FL_MINUS flags then emit_pad n 32 padding (m, q + ndigits, out + ndigits)
       else Some (m, q + ndigits, out + ndigits));
     Some (m, out)
   }"

definition format_int2 :: "mem \<Rightarrow> addr \<Rightarrow> nat \<Rightarrow> 64 word \<Rightarrow> nat \<Rightarrow> bool \<Rightarrow> mem option" where
  "format_int2 m q n val base issigned = do {
     (m, s) \<leftarrow> format_int m q n val (if issigned then no_flags\<lparr>FL_SIGNED := True\<rparr> else no_flags\<lparr>FL_ZERO := True\<rparr>) base 0 (- 1);
     wr m (q + s) 0
   }"

subsection \<open>Arguments\<close>

datatype varg = VInt "32 word" | VLong "64 word" | VPtr addr | VDouble

fun va_int :: "varg list \<Rightarrow> (32 word \<times> varg list) option" where
  "va_int (VInt w # ap) = Some (w, ap)"
| "va_int _ = None"

fun va_long :: "varg list \<Rightarrow> (64 word \<times> varg list) option" where
  "va_long (VLong w # ap) = Some (w, ap)"
| "va_long _ = None"

fun va_ptr :: "varg list \<Rightarrow> (addr \<times> varg list) option" where
  "va_ptr (VPtr p # ap) = Some (p, ap)"
| "va_ptr _ = None"

fun va_double :: "varg list \<Rightarrow> varg list option" where
  "va_double (VDouble # ap) = Some ap"
| "va_double _ = None"

definition va_signed :: "int \<Rightarrow> varg list \<Rightarrow> (64 word \<times> varg list) option" where
  "va_signed rank ap =
     (if rank = rank_char then do { (w, ap) \<leftarrow> va_int ap; Some (scast (ucast w :: 8 word), ap) }
      else if rank = rank_short then do { (w, ap) \<leftarrow> va_int ap; Some (scast (ucast w :: 16 word), ap) }
      else if rank = rank_int then do { (w, ap) \<leftarrow> va_int ap; Some (scast w, ap) }
      else va_long ap)"

definition va_unsigned :: "int \<Rightarrow> varg list \<Rightarrow> (64 word \<times> varg list) option" where
  "va_unsigned rank ap =
     (if rank = rank_char then do { (w, ap) \<leftarrow> va_int ap; Some (ucast (ucast w :: 8 word), ap) }
      else if rank = rank_short then do { (w, ap) \<leftarrow> va_int ap; Some (ucast (ucast w :: 16 word), ap) }
      else if rank = rank_int then do { (w, ap) \<leftarrow> va_int ap; Some (ucast w, ap) }
      else va_long ap)"

subsection \<open>The format\<close>

datatype pf_state = st_normal | st_flags | st_width | st_prec | st_modifiers

record pf_ctl =
  pf_state :: pf_state
  pf_flags :: pf_flags
  pf_rank :: int
  pf_width :: int
  pf_prec :: int

definition pf_init :: pf_ctl where
  "pf_init = \<lparr>pf_state = st_normal, pf_flags = no_flags, pf_rank = rank_int, pf_width = 0, pf_prec = - 1\<rparr>"

text \<open>The flag characters; \<open>None\<close> is the default case, which processes the character again.\<close>

definition pf_flag :: "byte \<Rightarrow> pf_flags \<Rightarrow> pf_flags option" where
  "pf_flag ch flags =
     (if ch = 45 then Some (flags\<lparr>FL_MINUS := True\<rparr>)
      else if ch = 43 then Some (flags\<lparr>FL_PLUS := True\<rparr>)
      else if ch = 39 then Some (flags\<lparr>FL_TICK := True\<rparr>)
      else if ch = 32 then Some (flags\<lparr>FL_SPACE := True\<rparr>)
      else if ch = 35 then Some (flags\<lparr>FL_HASH := True\<rparr>)
      else if ch = 48 then Some (flags\<lparr>FL_ZERO := True\<rparr>)
      else None)"

text \<open>A further decimal digit of a field width or precision.\<close>

definition pf_digit :: "int \<Rightarrow> byte \<Rightarrow> int option" where
  "pf_digit v ch = (let v' = v * 10 + (uint ch - 48) in if - (2 ^ 31) \<le> v * 10 \<and> v' < 2 ^ 31 then Some v' else None)"

text \<open>The next two return whether the character is processed again.\<close>

definition pf_width_step :: "byte \<Rightarrow> pf_ctl \<Rightarrow> varg list \<Rightarrow> (bool \<times> pf_ctl \<times> varg list) option" where
  "pf_width_step ch c ap =
     (if ch \<ge> 48 \<and> ch \<le> 57 then do { w \<leftarrow> pf_digit (pf_width c) ch; Some (False, c\<lparr>pf_width := w\<rparr>, ap) }
      else if ch = 42 then do {
        (w, ap) \<leftarrow> va_int ap;
        if sint w < 0 then
          (if sint w = - (2 ^ 31) then None
           else Some (False, c\<lparr>pf_width := - sint w, pf_flags := (pf_flags c)\<lparr>FL_MINUS := True\<rparr>\<rparr>, ap))
        else Some (False, c\<lparr>pf_width := sint w\<rparr>, ap)
      }
      else if ch = 46 then Some (False, c\<lparr>pf_prec := 0, pf_state := st_prec\<rparr>, ap)
      else Some (True, c\<lparr>pf_state := st_modifiers\<rparr>, ap))"

definition pf_prec_step :: "byte \<Rightarrow> pf_ctl \<Rightarrow> varg list \<Rightarrow> (bool \<times> pf_ctl \<times> varg list) option" where
  "pf_prec_step ch c ap =
     (if ch \<ge> 48 \<and> ch \<le> 57 then do { v \<leftarrow> pf_digit (pf_prec c) ch; Some (False, c\<lparr>pf_prec := v\<rparr>, ap) }
      else if ch = 42 then do {
        (w, ap) \<leftarrow> va_int ap;
        Some (False, c\<lparr>pf_prec := (if sint w < 0 then - 1 else sint w)\<rparr>, ap)
      }
      else Some (True, c\<lparr>pf_state := st_modifiers\<rparr>, ap))"

definition pf_modifier :: "byte \<Rightarrow> int \<Rightarrow> int option" where
  "pf_modifier ch rank =
     (if ch = 104 then Some (rank - 1)
      else if ch = 108 then Some (rank + 1)
      else if ch = 106 then Some rank_longlong
      else if ch = 122 then Some rank_long
      else if ch = 116 then Some rank_long
      else if ch = 76 \<or> ch = 113 then Some (rank + 2)
      else None)"

definition pf_canonical :: "int \<Rightarrow> int" where
  "pf_canonical rank = (if rank < rank_char then rank_char else if rank > rank_longlong then rank_longlong else rank)"

text \<open>The integer conversions: flags, base, precision and value; \<open>None\<close> for the other conversions.\<close>

definition pf_integer :: "byte \<Rightarrow> pf_ctl \<Rightarrow> varg list \<Rightarrow> ((pf_flags \<times> nat \<times> int \<times> 64 word) \<times> varg list) option option" where
  "pf_integer ch c ap = (let flags = pf_flags c; prec = pf_prec c; rank = pf_rank c in
     if ch = 80 \<or> ch = 112 then
       Some (do { (p, ap) \<leftarrow> va_ptr ap;
         Some ((flags\<lparr>FL_UPPER := FL_UPPER flags \<or> ch = 80, FL_HASH := True\<rparr>, 16, 16, word_of_nat p), ap) })
     else if ch = 100 \<or> ch = 105 then
       Some (do { (v, ap) \<leftarrow> va_signed rank ap; Some ((flags\<lparr>FL_SIGNED := True\<rparr>, 10, prec, v), ap) })
     else if ch = 111 then Some (do { (v, ap) \<leftarrow> va_unsigned rank ap; Some ((flags, 8, prec, v), ap) })
     else if ch = 117 then Some (do { (v, ap) \<leftarrow> va_unsigned rank ap; Some ((flags, 10, prec, v), ap) })
     else if ch = 88 \<or> ch = 120 then
       Some (do { (v, ap) \<leftarrow> va_unsigned rank ap; Some ((flags\<lparr>FL_UPPER := FL_UPPER flags \<or> ch = 88\<rparr>, 16, prec, v), ap) })
     else None)"

text \<open>A string to be output: in memory, or a literal or single character of the C code.\<close>

datatype sarg = AtMem addr | Lit "byte list"

fun sarg_len :: "mem \<Rightarrow> sarg \<Rightarrow> nat option" where
  "sarg_len m (AtMem p) = strlen m p"
| "sarg_len m (Lit xs) = Some (length xs)"

fun sarg_char :: "mem \<Rightarrow> sarg \<Rightarrow> nat \<Rightarrow> byte option" where
  "sarg_char m (AtMem p) i = rd m (p + i)"
| "sarg_char m (Lit xs) i = (if i < length xs then Some (xs ! i) else None)"

text \<open>The string conversions: the string, the width and the precision.\<close>

definition pf_string :: "byte \<Rightarrow> pf_ctl \<Rightarrow> varg list \<Rightarrow> ((sarg \<times> int \<times> int) \<times> varg list) option option" where
  "pf_string ch c ap =
     (if ch = 102 then Some (do { ap \<leftarrow> va_double ap; Some ((Lit [40, 102, 108, 111, 97, 116, 41], 0, - 1), ap) })
      else if ch = 99 then Some (do { (w, ap) \<leftarrow> va_int ap; Some ((Lit [ucast w], pf_width c, pf_prec c), ap) })
      else if ch = 115 then
        Some (do { (p, ap) \<leftarrow> va_ptr ap;
          Some ((if p \<noteq> NULL then AtMem p else Lit [40, 110, 117, 108, 108, 41], pf_width c, pf_prec c), ap) })
      else None)"

fun emit_chars :: "nat \<Rightarrow> sarg \<Rightarrow> nat \<Rightarrow> nat \<Rightarrow> sink \<Rightarrow> sink option" where
  "emit_chars n sarg k 0 s = Some s"
| "emit_chars n sarg k (Suc i) s = do { sch \<leftarrow> sarg_char (fst s) sarg k; s \<leftarrow> EMIT n sch s; emit_chars n sarg (k + 1) i s }"

text \<open>A negative length, which only a digit after a negative \<^verbatim>\<open>*\<close> precision can give, never counts down to zero.\<close>

definition emit_string :: "nat \<Rightarrow> pf_flags \<Rightarrow> sarg \<Rightarrow> int \<Rightarrow> int \<Rightarrow> sink \<Rightarrow> sink option" where
  "emit_string n flags sarg width prec s = do {
     slen \<leftarrow> sarg_len (fst s) sarg;
     _ \<leftarrow> (if slen < 2 ^ 31 then Some () else None);
     let slen = (if prec \<noteq> - 1 \<and> int slen > prec then prec else int slen);
     _ \<leftarrow> (if 0 \<le> slen then Some () else None);
     let padding = nat (width - slen);
     s \<leftarrow> (if \<not> FL_MINUS flags then emit_pad n (if FL_ZERO flags then 48 else 32) padding s else Some s);
     s \<leftarrow> emit_chars n sarg 0 (nat slen) s;
     if FL_MINUS flags then emit_pad n 32 padding s else Some s
   }"

text \<open>The bytes of an integer in memory, and the conversion that stores the count.\<close>

fun wr_bytes :: "mem \<Rightarrow> addr \<Rightarrow> nat \<Rightarrow> nat \<Rightarrow> mem option" where
  "wr_bytes m p 0 v = Some m"
| "wr_bytes m p (Suc k) v = do { m \<leftarrow> wr m p (word_of_nat v); wr_bytes m (p + 1) k (v div 256) }"

definition pf_count :: "int \<Rightarrow> varg list \<Rightarrow> sink \<Rightarrow> (sink \<times> varg list) option" where
  "pf_count rank ap = (\<lambda>(m, q, out). do {
     (p, ap) \<leftarrow> va_ptr ap;
     m \<leftarrow> wr_bytes m p (if rank = rank_char then 1 else if rank = rank_short then 2 else if rank = rank_int then 4 else 8) out;
     Some ((m, q, out), ap)
   })"

definition pf_convert :: "nat \<Rightarrow> byte \<Rightarrow> pf_ctl \<Rightarrow> varg list \<Rightarrow> sink \<Rightarrow> (sink \<times> varg list) option" where
  "pf_convert n ch c ap s =
     (case pf_integer ch c ap of
        Some r \<Rightarrow> do {
          ((flags, base, prec, val), ap) \<leftarrow> r;
          let (m, q, out) = s;
          (m, sz) \<leftarrow> format_int m q (if out < n then n - out else 0) val flags base (pf_width c) prec;
          Some ((m, q + sz, out + sz), ap)
        }
      | None \<Rightarrow> (case pf_string ch c ap of
          Some r \<Rightarrow> do {
            ((sarg, width, prec), ap) \<leftarrow> r;
            s \<leftarrow> emit_string n (pf_flags c) sarg width prec s;
            Some (s, ap)
          }
        | None \<Rightarrow>
            if ch = 110 then pf_count (pf_rank c) ap s
            else do { s \<leftarrow> EMIT n ch s; Some (s, ap) }))"

partial_function (option) vsnprintf_loop :: "nat \<Rightarrow> addr \<Rightarrow> sink \<Rightarrow> varg list \<Rightarrow> pf_ctl \<Rightarrow> sink option" where
  [code]: "vsnprintf_loop n p s ap c = do {
     ch \<leftarrow> rd (fst s) p;
     if ch = 0 then Some s
     else case pf_state c of
       st_normal \<Rightarrow>
         if ch = 37 then vsnprintf_loop n (p + 1) s ap (pf_init\<lparr>pf_state := st_flags\<rparr>)
         else do { s \<leftarrow> EMIT n ch s; vsnprintf_loop n (p + 1) s ap c }
     | st_flags \<Rightarrow> (case pf_flag ch (pf_flags c) of
           Some flags \<Rightarrow> vsnprintf_loop n (p + 1) s ap (c\<lparr>pf_flags := flags\<rparr>)
         | None \<Rightarrow> vsnprintf_loop n p s ap (c\<lparr>pf_state := st_width\<rparr>))
     | st_width \<Rightarrow> do {
         (again, c, ap) \<leftarrow> pf_width_step ch c ap;
         vsnprintf_loop n (if again then p else p + 1) s ap c
       }
     | st_prec \<Rightarrow> do {
         (again, c, ap) \<leftarrow> pf_prec_step ch c ap;
         vsnprintf_loop n (if again then p else p + 1) s ap c
       }
     | st_modifiers \<Rightarrow> (case pf_modifier ch (pf_rank c) of
           Some rank \<Rightarrow> vsnprintf_loop n (p + 1) s ap (c\<lparr>pf_rank := rank\<rparr>)
         | None \<Rightarrow> do {
             (s, ap) \<leftarrow> pf_convert n ch (c\<lparr>pf_rank := pf_canonical (pf_rank c)\<rparr>) ap s;
             vsnprintf_loop n (p + 1) s ap (c\<lparr>pf_state := st_normal\<rparr>)
           })
   }"

text \<open>The count is returned as an \<^verbatim>\<open>int\<close>.\<close>

definition vsnprintf :: "mem \<Rightarrow> addr \<Rightarrow> nat \<Rightarrow> addr \<Rightarrow> varg list \<Rightarrow> (mem \<times> 32 word) option" where
  "vsnprintf m buffer n format ap = do {
     (m, q, out) \<leftarrow> vsnprintf_loop n format (m, buffer, 0) ap pf_init;
     m \<leftarrow> (if out < n then wr m q 0 else if n > 0 then wr m (buffer + n - 1) 0 else Some m);
     Some (m, word_of_nat out)
   }"

definition snprintf :: "mem \<Rightarrow> addr \<Rightarrow> nat \<Rightarrow> addr \<Rightarrow> varg list \<Rightarrow> (mem \<times> 32 word) option" where
  "snprintf m buffer n format ap = vsnprintf m buffer n format ap"

definition vsprintf :: "mem \<Rightarrow> addr \<Rightarrow> addr \<Rightarrow> varg list \<Rightarrow> (mem \<times> 32 word) option" where
  "vsprintf m buffer format ap = vsnprintf m buffer (2 ^ 64 - 1) format ap"

definition sprintf :: "mem \<Rightarrow> addr \<Rightarrow> addr \<Rightarrow> varg list \<Rightarrow> (mem \<times> 32 word) option" where
  "sprintf m buffer format ap = vsnprintf m buffer (2 ^ 64 - 1) format ap"

text \<open>The allocating versions; the allocator is a parameter, \<open>malloc m k\<close> being the memory and the block it returns.
  The result is the memory, the new value of \<^verbatim>\<open>*bufp\<close> and the return value.\<close>

definition vasprintf :: "(mem \<Rightarrow> nat \<Rightarrow> (mem \<times> addr) option) \<Rightarrow> mem \<Rightarrow> addr \<Rightarrow> varg list \<Rightarrow> (mem \<times> addr \<times> 32 word) option" where
  "vasprintf malloc m format ap = do {
     (m, r) \<leftarrow> vsnprintf m NULL 0 format ap;
     let bytes = unat (scast (r + 1) :: 64 word);
     (m, p) \<leftarrow> malloc m bytes;
     if p = NULL then Some (m, p, - 1)
     else do { (m, rv) \<leftarrow> vsnprintf m p bytes format ap; Some (m, p, rv) }
   }"

definition asprintf :: "(mem \<Rightarrow> nat \<Rightarrow> (mem \<times> addr) option) \<Rightarrow> mem \<Rightarrow> addr \<Rightarrow> varg list \<Rightarrow> (mem \<times> addr \<times> 32 word) option" where
  "asprintf malloc m format ap = do {
     (m, r) \<leftarrow> vsnprintf m NULL 0 format ap;
     let bytes = unat (scast (r + 1) :: 64 word);
     (m, p) \<leftarrow> malloc m bytes;
     if p = NULL then Some (m, p, - 1)
     else do { (m, rv) \<leftarrow> vsnprintf m p bytes format ap; Some (m, p, rv) }
   }"

definition num_char :: "byte list \<Rightarrow> nat \<Rightarrow> nat \<Rightarrow> nat \<Rightarrow> nat \<Rightarrow> byte" where
  "num_char digits base tickskip val j =
     (if Suc j mod Suc tickskip = 0 then 95 else digits ! (val div base ^ (j - j div Suc tickskip) mod base))"

lemma wr_if_step:
  assumes "mapped m q (min (n - out) (Suc k))"
  shows "(if out + k < n then wr m (q + k) x else Some m) = Some (if out + k < n then m[q + k := x] else m)"
    and "mapped (if out + k < n then m[q + k := x] else m) q (min (n - out) k)"
    and "length xs = k \<Longrightarrow>
      put (if out + k < n then m[q + k := x] else m) q (take (n - out) xs) = put m q (take (n - out) (xs @ [x]))"
  using assms by (auto simp: mapped_def wr_in put_snoc split: if_splits)

lemma div_mod_Suc:
  fixes j T :: nat
  assumes "2 \<le> T"
  shows "Suc (j mod T) < T \<Longrightarrow> Suc j mod T = Suc (j mod T)" "Suc (j mod T) < T \<Longrightarrow> Suc j div T = j div T"
    and "Suc (j mod T) = T \<Longrightarrow> Suc j mod T = 0" "Suc (j mod T) = T \<Longrightarrow> Suc j div T = Suc (j div T)"
  using assms by (auto simp: mod_Suc div_Suc)

lemma put_digits_digit: "put_digits digits n base ts m (Suc a) (Suc b) (Suc k) (Suc t) v =
    Option.bind (if b < n then wr m a (digits ! (v mod base)) else Some m)
      (\<lambda>m. put_digits digits n base ts m a b k t (v div base))"
  by (subst put_digits.simps) simp

lemma put_digits_tick: "put_digits digits n base ts m (Suc (Suc a)) (Suc (Suc b)) (Suc (Suc k)) 0 v =
    Option.bind (if Suc b < n then wr m (Suc a) 95 else Some m)
      (\<lambda>m. Option.bind (if b < n then wr m a (digits ! (v mod base)) else Some m)
        (\<lambda>m. put_digits digits n base ts m a b k (ts - 1) (v div base)))"
  by (subst put_digits.simps) (simp split: if_splits)

lemma rev_map_upt: "rev (map f [j..<j + Suc k]) = rev (map f [Suc j..<Suc j + k]) @ [f j]"
  by (simp add: upt_conv_Cons del: upt_Suc)

lemma put_digits_num:
  assumes "0 < ts" "0 < base"
  shows "(k = 0 \<or> (j + k) mod Suc ts \<noteq> 0) \<Longrightarrow> mapped m q (min (n - out) k) \<Longrightarrow>
    put_digits digits n base ts m (q + k) (out + k) k (ts - j mod Suc ts) (val div base ^ (j - j div Suc ts))
      = Some (put m q (take (n - out) (rev (map (num_char digits base ts val) [j..<j + k]))))"
proof (induction k arbitrary: j m rule: less_induct)
  case (less k)
  note T = div_mod_Suc [of "Suc ts"]
  note le = div_le_dividend [of j "Suc ts"]
  have mod: "j mod Suc ts \<le> ts" by (simp add: less_Suc_eq_le [symmetric])
  show ?case
  proof (cases k)
    case 0
    then show ?thesis by (simp add: put_digits.simps)
  next
    case (Suc k')
    let ?c = "num_char digits base ts val"
    note st = wr_if_step [OF less.prems(2) [unfolded Suc], where x = "?c j"]
    show ?thesis
    proof (cases "j mod Suc ts = ts")
      case False
      then have j: "Suc j mod Suc ts = Suc (j mod Suc ts)" "Suc j div Suc ts = j div Suc ts"
        using T(1,2) [of j] assms(1) mod by auto
      have c: "?c j = digits ! (val div base ^ (j - j div Suc ts) mod base)" using j by (simp add: num_char_def)
      have b: "ts - j mod Suc ts = Suc (ts - Suc j mod Suc ts)" using False mod unfolding j by linarith
      have v: "val div base ^ (j - j div Suc ts) div base = val div base ^ (Suc j - Suc j div Suc ts)"
        using j le by (simp add: Suc_diff_le div_mult2_eq [symmetric] mult.commute)
      have "put_digits digits n base ts m (q + k) (out + k) k (ts - j mod Suc ts) (val div base ^ (j - j div Suc ts))
        = put_digits digits n base ts (if out + k' < n then m[q + k' := ?c j] else m) (q + k') (out + k') k'
            (ts - Suc j mod Suc ts) (val div base ^ (Suc j - Suc j div Suc ts))"
        unfolding Suc add_Suc_right b put_digits_digit c [symmetric] st(1) v by simp
      also have "\<dots> = Some (put (if out + k' < n then m[q + k' := ?c j] else m) q
          (take (n - out) (rev (map ?c [Suc j..<Suc j + k']))))"
        using less.prems(1) Suc by (intro less.IH st(2)) auto
      also have "\<dots> = Some (put m q (take (n - out) (rev (map ?c [j..<j + k]))))"
        using st(3) [of "rev (map ?c [Suc j..<Suc j + k'])"] unfolding Suc rev_map_upt by (simp del: upt_Suc)
      finally show ?thesis .
    next
      case True
      then have j: "Suc j mod Suc ts = 0" "Suc j div Suc ts = Suc (j div Suc ts)"
        using T(3,4) [of j] assms(1) by auto
      then have j': "Suc (Suc j) mod Suc ts = 1" "Suc (Suc j) div Suc ts = Suc (j div Suc ts)"
        using T(1,2) [of "Suc j"] assms(1) by auto
      from less.prems(1) Suc j obtain k2 where k2: "k' = Suc k2" by (cases k') auto
      let ?m = "if out + k' < n then m[q + k' := ?c j] else m"
      note st2 = wr_if_step [OF st(2) [unfolded k2], where x = "?c (Suc j)"]
      have c: "?c j = 95" "?c (Suc j) = digits ! (val div base ^ (j - j div Suc ts) mod base)"
        using j j' by (simp_all add: num_char_def)
      have b: "ts - j mod Suc ts = 0" "ts - Suc (Suc j) mod Suc ts = ts - 1" using j' True by simp_all
      have v: "val div base ^ (j - j div Suc ts) div base = val div base ^ (Suc (Suc j) - Suc (Suc j) div Suc ts)"
        using j' le by (simp add: Suc_diff_le div_mult2_eq [symmetric] mult.commute)
      have "put_digits digits n base ts m (q + k) (out + k) k (ts - j mod Suc ts) (val div base ^ (j - j div Suc ts))
        = put_digits digits n base ts (if out + k2 < n then ?m[q + k2 := ?c (Suc j)] else ?m) (q + k2) (out + k2) k2
            (ts - Suc (Suc j) mod Suc ts) (val div base ^ (Suc (Suc j) - Suc (Suc j) div Suc ts))"
        unfolding Suc k2 add_Suc_right b put_digits_tick c [symmetric] st(1) [unfolded k2 add_Suc_right] bind.bind_lunit st2(1) [unfolded k2 add_Suc_right] v by simp
      also have "\<dots> = Some (put (if out + k2 < n then ?m[q + k2 := ?c (Suc j)] else ?m) q
          (take (n - out) (rev (map ?c [Suc (Suc j)..<Suc (Suc j) + k2]))))"
        using less.prems(1) Suc k2 st2(2) by (intro less.IH) (auto simp: k2)
      also have "\<dots> = Some (put ?m q (take (n - out) (rev (map ?c [Suc j..<Suc j + k']))))"
        using st2(3) [of "rev (map ?c [Suc (Suc j)..<Suc (Suc j) + k2])"] unfolding k2 rev_map_upt by (simp del: upt_Suc)
      also have "\<dots> = Some (put m q (take (n - out) (rev (map ?c [j..<j + k]))))"
        using st(3) [of "rev (map ?c [Suc j..<Suc j + k'])"] unfolding Suc rev_map_upt by (simp del: upt_Suc)
      finally show ?thesis .
    qed
  qed
qed

definition num_width :: "pf_flags \<Rightarrow> nat \<Rightarrow> int \<Rightarrow> nat \<Rightarrow> nat" where
  "num_width flags base prec val = (let nd = number_digits flags base prec val in nd + (nd - 1) div tick_skip flags base nd)"

definition num_string :: "pf_flags \<Rightarrow> nat \<Rightarrow> int \<Rightarrow> nat \<Rightarrow> byte list" where
  "num_string flags base prec val =
     rev (map (num_char (if FL_UPPER flags then ucdigits else lcdigits) base
       (tick_skip flags base (number_digits flags base prec val)) val) [0..<num_width flags base prec val])"

definition sign_string :: "pf_flags \<Rightarrow> bool \<Rightarrow> byte list" where
  "sign_string flags neg = (if neg then [45] else if FL_PLUS flags then [43] else if FL_SPACE flags then [32] else [])"

definition prefix_string :: "pf_flags \<Rightarrow> nat \<Rightarrow> byte list" where
  "prefix_string flags base = (if FL_HASH flags \<and> base = 16 then [48, if FL_UPPER flags then 88 else 120] else [])"

text \<open>The field for an integer: blanks, sign and prefix, zeros, the number, blanks.\<close>

definition int_string :: "pf_flags \<Rightarrow> nat \<Rightarrow> int \<Rightarrow> int \<Rightarrow> 64 word \<Rightarrow> byte list option" where
  "int_string flags base width prec w =
     (let neg = (FL_SIGNED flags \<and> sint w < 0);
          number = num_string flags base prec (unat (if neg then - w else w));
          sign = sign_string flags neg @ prefix_string flags base;
          pad = nat (width - int (length sign + length number))
      in if 2 \<le> base \<and> base \<le> 16 \<and> length sign + length number < 2 ^ 31 then
           Some ((if \<not> FL_MINUS flags \<and> \<not> FL_ZERO flags then replicate pad 32 else []) @ sign
             @ (if \<not> FL_MINUS flags \<and> FL_ZERO flags then replicate pad 48 else []) @ number
             @ (if FL_MINUS flags then replicate pad 32 else []))
         else None)"

definition sink_rel :: "addr \<Rightarrow> nat \<Rightarrow> nat \<Rightarrow> mem \<Rightarrow> sink \<Rightarrow> byte list \<Rightarrow> bool" where
  "sink_rel buf n K m0 s xs \<longleftrightarrow> mapped m0 buf (min n K) \<and> length xs \<le> K
     \<and> fst s = put m0 buf (take n xs) \<and> (length xs < n \<longrightarrow> fst (snd s) = buf + length xs) \<and> snd (snd s) = length xs"

definition emits :: "addr \<Rightarrow> nat \<Rightarrow> nat \<Rightarrow> mem \<Rightarrow> (sink \<Rightarrow> sink option) \<Rightarrow> byte list \<Rightarrow> bool" where
  "emits buf n K m0 f xs \<longleftrightarrow> (\<forall>s ys. sink_rel buf n K m0 s ys \<longrightarrow> length ys + length xs \<le> K \<longrightarrow>
     (\<exists>s'. f s = Some s' \<and> sink_rel buf n K m0 s' (ys @ xs)))"

lemma emits_Some: "emits buf n K m0 Some []"
  by (simp add: emits_def)

lemma emitsE:
  assumes "emits buf n K m0 f xs" "sink_rel buf n K m0 s ys" "length ys + length xs \<le> K"
  obtains s' where "f s = Some s'" "sink_rel buf n K m0 s' (ys @ xs)"
  using assms unfolding emits_def by blast

lemma emits_bind:
  assumes "emits buf n K m0 f xs" "emits buf n K m0 g ys"
  shows "emits buf n K m0 (\<lambda>s. Option.bind (f s) g) (xs @ ys)"
  unfolding emits_def
proof (intro allI impI)
  fix s zs
  assume s: "sink_rel buf n K m0 s zs" and len: "length zs + length (xs @ ys) \<le> K"
  have "length zs + length xs \<le> K" using len by simp
  from emitsE [OF assms(1) s this] obtain s1 where s1: "f s = Some s1" "sink_rel buf n K m0 s1 (zs @ xs)" .
  have "length (zs @ xs) + length ys \<le> K" using len by simp
  from emitsE [OF assms(2) s1(2) this] obtain s2 where "g s1 = Some s2" "sink_rel buf n K m0 s2 ((zs @ xs) @ ys)" .
  with s1(1) show "\<exists>s'. Option.bind (f s) g = Some s' \<and> sink_rel buf n K m0 s' (zs @ xs @ ys)"
    by simp
qed

lemma emits_if: "emits buf n K m0 f xs \<Longrightarrow> emits buf n K m0 g ys \<Longrightarrow>
    emits buf n K m0 (\<lambda>s. if b then f s else g s) (if b then xs else ys)"
  by simp

lemma emits_block:
  assumes "\<And>m q k. mapped m q (min (n - k) (length xs)) \<Longrightarrow>
    \<exists>q'. f (m, q, k) = Some (put m q (take (n - k) xs), q', k + length xs) \<and> (k + length xs < n \<longrightarrow> q' = q + length xs)"
  shows "emits buf n K m0 f xs"
  unfolding emits_def
proof (intro allI impI)
  fix s ys
  assume s: "sink_rel buf n K m0 s ys" and len: "length ys + length xs \<le> K"
  obtain q where sq: "s = (put m0 buf (take n ys), q, length ys)" and q: "length ys < n \<longrightarrow> q = buf + length ys"
    and m0: "mapped m0 buf (min n K)"
    using s by (cases s) (auto simp: sink_rel_def)
  have map: "mapped (put m0 buf (take n ys)) q (min (n - length ys) (length xs))"
    using q m0 len by (auto simp: mapped_def min_def split: if_splits)
  have put: "put (put m0 buf (take n ys)) q (take (n - length ys) xs) = put m0 buf (take n (ys @ xs))"
  proof (cases "length ys < n \<and> xs \<noteq> []")
    case True
    have "buf + length ys + length (take (n - length ys) xs) \<le> length m0"
      using m0 len True by (auto simp: mapped_def min_def split: if_splits)
    from put_append [OF this] True q show ?thesis by simp
  qed auto
  from assms [OF map] obtain q' where
    "f s = Some (put m0 buf (take n (ys @ xs)), q', length ys + length xs)"
    and "length ys + length xs < n \<longrightarrow> q' = q + length xs"
    using put sq by auto
  then show "\<exists>s'. f s = Some s' \<and> sink_rel buf n K m0 s' (ys @ xs)"
    using q m0 len by (auto simp: sink_rel_def)
qed

lemma emits_EMIT: "emits buf n K m0 (EMIT n x) [x]"
proof (rule emits_block)
  fix m q k
  assume "mapped m q (min (n - k) (length [x]))"
  then show "\<exists>q'. EMIT n x (m, q, k) = Some (put m q (take (n - k) [x]), q', k + length [x]) \<and> (k + length [x] < n \<longrightarrow> q' = q + length [x])"
    by (cases "k < n") (auto simp: EMIT_def mapped_def put_single wr_def take_Cons' split: if_splits)
qed

lemma emits_pad: "emits buf n K m0 (emit_pad n x k) (replicate k x)"
proof (induction k)
  case 0
  have "emit_pad n x 0 = Some" by (rule ext) simp
  then show ?case by (simp add: emits_Some)
next
  case (Suc k)
  have "emit_pad n x (Suc k) = (\<lambda>s. Option.bind (EMIT n x s) (emit_pad n x k))" by (rule ext) simp
  then show ?case using emits_bind [OF emits_EMIT Suc, of x] by simp
qed

lemma emits_digits:
  assumes "0 < ts" "0 < base" "k = 0 \<or> k mod Suc ts \<noteq> 0"
  shows "emits buf n K m0 (\<lambda>(m, q, out). do {
      m \<leftarrow> put_digits digits n base ts m (q + k) (out + k) k ts val; Some (m, q + k, out + k) })
    (rev (map (num_char digits base ts val) [0..<k]))"
proof (rule emits_block)
  fix m q out
  assume "mapped m q (min (n - out) (length (rev (map (num_char digits base ts val) [0..<k]))))"
  then show "\<exists>q'. (case (m, q, out) of (m, q, out) \<Rightarrow> do {
      m \<leftarrow> put_digits digits n base ts m (q + k) (out + k) k ts val; Some (m, q + k, out + k) })
    = Some (put m q (take (n - out) (rev (map (num_char digits base ts val) [0..<k]))), q', out + length (rev (map (num_char digits base ts val) [0..<k])))
    \<and> (out + length (rev (map (num_char digits base ts val) [0..<k])) < n \<longrightarrow> q' = q + length (rev (map (num_char digits base ts val) [0..<k])))"
    using put_digits_num [OF assms(1,2), of k 0 m q n out digits val] assms(3) by simp
qed


lemma count_digits_pos: "1 < base \<Longrightarrow> val \<noteq> 0 \<Longrightarrow> 0 < count_digits base val"
  by (subst count_digits.simps) simp

lemma number_digits_pos: "1 < base \<Longrightarrow> 0 < number_digits flags base prec val"
  using count_digits_pos [of base val] by (auto simp: number_digits_def Let_def)

lemma num_width_mod:
  fixes flags prec val base
  assumes "1 < base"
  defines "ts \<equiv> tick_skip flags base (number_digits flags base prec val)"
  shows "0 < ts" "num_width flags base prec val mod Suc ts \<noteq> 0"
proof -
  obtain nd where nd: "number_digits flags base prec val = Suc nd"
    using number_digits_pos [OF assms(1), of flags prec val] gr0_conv_Suc by blast
  show ts: "0 < ts" by (simp add: ts_def tick_skip_def nd)
  define a b where "a = nd div ts" and "b = nd mod ts"
  have "nd = a * ts + b" and b: "b < ts" using ts by (simp_all add: a_def b_def)
  then have "num_width flags base prec val = Suc b + a * Suc ts"
    by (simp add: num_width_def nd flip: ts_def a_def) (simp add: ts_def nd a_def b_def)
  then show "num_width flags base prec val mod Suc ts \<noteq> 0"
    using b by (simp only: mod_mult_self1) simp
qed

lemma format_int_string:
  assumes "int_string flags base width prec val = Some xs" "mapped m q (min n (length xs))"
  shows "format_int m q n val flags base width prec = Some (put m q (take n xs), length xs)"
proof -
  define neg where "neg = (FL_SIGNED flags \<and> sint val < 0)"
  define v where "v = unat (if neg then - val else val)"
  let ?nd = "number_digits flags base prec v"
  let ?ts = "tick_skip flags base ?nd"
  let ?k = "num_width flags base prec v"
  let ?sign = "sign_string flags neg" and ?prefix = "prefix_string flags base" and ?number = "num_string flags base prec v"
  let ?pad = "nat (width - int (length ?sign + length ?prefix + ?k))"
  let ?digits = "if FL_UPPER flags then ucdigits else lcdigits"
  have k: "length ?number = ?k" by (simp add: num_string_def)
  have base: "2 \<le> base" "base \<le> 16" "length ?sign + length ?prefix + ?k < 2 ^ 31" and
    xs: "(if \<not> FL_MINUS flags \<and> \<not> FL_ZERO flags then replicate ?pad 32 else []) @ ?sign @ ?prefix
      @ (if \<not> FL_MINUS flags \<and> FL_ZERO flags then replicate ?pad 48 else []) @ ?number
      @ (if FL_MINUS flags then replicate ?pad 32 else []) = xs" (is "?out = xs")
    using assms(1) unfolding int_string_def Let_def neg_def [symmetric] v_def [symmetric]
    by (simp_all add: k add.assoc split: if_split_asm)
  define P where "P = (\<lambda>s. do {
     s \<leftarrow> (if \<not> FL_MINUS flags \<and> \<not> FL_ZERO flags then emit_pad n 32 ?pad s else Some s);
     s \<leftarrow> (if neg then EMIT n 45 s else if FL_PLUS flags then EMIT n 43 s else if FL_SPACE flags then EMIT n 32 s else Some s);
     s \<leftarrow> (if FL_HASH flags \<and> base = 16 then do { s \<leftarrow> EMIT n 48 s; EMIT n (if FL_UPPER flags then 88 else 120) s } else Some s);
     s \<leftarrow> (if \<not> FL_MINUS flags \<and> FL_ZERO flags then emit_pad n 48 ?pad s else Some s);
     s \<leftarrow> (case s of (m, q, out) \<Rightarrow> do {
       m \<leftarrow> put_digits ?digits n base ?ts m (q + ?k) (out + ?k) ?k ?ts v; Some (m, q + ?k, out + ?k) });
     if FL_MINUS flags then emit_pad n 32 ?pad s else Some s })"
  have sign: "emits q n (length xs) m (\<lambda>s. if neg then EMIT n 45 s else if FL_PLUS flags then EMIT n 43 s
        else if FL_SPACE flags then EMIT n 32 s else Some s) ?sign"
    by (simp add: sign_string_def emits_EMIT emits_Some)
  have prefix: "emits q n (length xs) m (\<lambda>s. if FL_HASH flags \<and> base = 16
        then do { s \<leftarrow> EMIT n 48 s; EMIT n (if FL_UPPER flags then 88 else 120) s } else Some s) ?prefix"
    unfolding prefix_string_def by (rule emits_if [OF emits_bind [OF emits_EMIT emits_EMIT, simplified] emits_Some])
  have number: "emits q n (length xs) m (\<lambda>(m, q, out). do {
        m \<leftarrow> put_digits ?digits n base ?ts m (q + ?k) (out + ?k) ?k ?ts v; Some (m, q + ?k, out + ?k) }) ?number"
    unfolding num_string_def using num_width_mod [of base flags prec v] base by (intro emits_digits) auto
  have "emits q n (length xs) m P ?out"
    unfolding P_def
    by (rule emits_bind [OF emits_if [OF emits_pad emits_Some] emits_bind [OF sign emits_bind [OF prefix
      emits_bind [OF emits_if [OF emits_pad emits_Some] emits_bind [OF number emits_if [OF emits_pad emits_Some]]]]]])
  then have P: "emits q n (length xs) m P xs" unfolding xs .
  have "sink_rel q n (length xs) m (m, q, 0) []"
    using assms(2) by (simp add: sink_rel_def)
  from emitsE [OF P this] obtain s where s: "P (m, q, 0) = Some s" "sink_rel q n (length xs) m s xs"
    by auto
  have nc: "?k + (if neg \<or> FL_PLUS flags \<or> FL_SPACE flags then 1 else 0) + (if FL_HASH flags \<and> base = 16 then 2 else 0)
      = length ?sign + length ?prefix + ?k"
    by (simp add: sign_string_def prefix_string_def)
  have "format_int m q n val flags base width prec = Option.bind (P (m, q, 0)) (\<lambda>(m, q, out). Some (m, out))"
    unfolding format_int_def Let_def neg_def [symmetric] v_def [symmetric] num_width_def [unfolded Let_def, symmetric] nc P_def
    by (simp only: base simp_thms if_True bind.bind_lunit Option.bind_assoc split_def fst_conv snd_conv)
  with s show ?thesis by (cases s) (simp add: sink_rel_def)
qed

subsection \<open>Strings\<close>

definition string_field :: "pf_flags \<Rightarrow> byte list \<Rightarrow> int \<Rightarrow> int \<Rightarrow> byte list option" where
  "string_field flags xs width prec =
     (let len = (if prec \<noteq> - 1 \<and> int (length xs) > prec then prec else int (length xs)); pad = nat (width - len)
      in if length xs < 2 ^ 31 \<and> 0 \<le> len then
           Some ((if \<not> FL_MINUS flags then replicate pad (if FL_ZERO flags then 48 else 32) else []) @ take (nat len) xs
             @ (if FL_MINUS flags then replicate pad 32 else []))
         else None)"

definition apart :: "addr \<Rightarrow> nat \<Rightarrow> nat \<Rightarrow> mem \<Rightarrow> addr \<Rightarrow> byte list \<Rightarrow> bool" where
  "apart buf n K m p xs \<longleftrightarrow> cstr m p xs \<and> disjoint_ranges buf (min n K) p (Suc (length xs))"

fun sarg_holds :: "addr \<Rightarrow> nat \<Rightarrow> nat \<Rightarrow> mem \<Rightarrow> sarg \<Rightarrow> byte list \<Rightarrow> bool" where
  "sarg_holds buf n K m (AtMem p) xs = apart buf n K m p xs"
| "sarg_holds buf n K m (Lit ys) xs = (xs = ys)"

lemma sink_rel_cstr:
  assumes "sink_rel buf n K m0 s ys" "apart buf n K m0 p xs"
  shows "cstr (fst s) p xs"
proof -
  have "cstr (put m0 buf (take n ys)) p xs"
  proof (cases "take n ys = []")
    case True
    then have "put m0 buf (take n ys) = m0" by (simp only: put_Nil)
    with assms(2) show ?thesis by (simp add: apart_def)
  next
    case False
    with assms show ?thesis
      by (intro cstr_put_out) (auto simp: apart_def sink_rel_def mapped_def disjoint_ranges_def min_def split: if_splits)
  qed
  with assms(1) show ?thesis by (simp add: sink_rel_def)
qed

lemma sarg_holds_read:
  assumes "sink_rel buf n K m0 s ys" "sarg_holds buf n K m0 sarg xs"
  shows "sarg_len (fst s) sarg = Some (length xs)"
    and "i < length xs \<Longrightarrow> sarg_char (fst s) sarg i = Some (xs ! i)"
proof -
  have "sarg_len (fst s) sarg = Some (length xs) \<and> (i < length xs \<longrightarrow> sarg_char (fst s) sarg i = Some (xs ! i))"
  proof (cases sarg)
    case (AtMem p)
    with assms sink_rel_cstr have "cstr (fst s) p xs" by auto
    then show ?thesis using AtMem cstr_nth by (auto simp: strlen_cstr cstr_def)
  next
    case (Lit zs)
    with assms show ?thesis by simp
  qed
  then show "sarg_len (fst s) sarg = Some (length xs)"
    and "i < length xs \<Longrightarrow> sarg_char (fst s) sarg i = Some (xs ! i)" by auto
qed

lemma emits_chars:
  assumes "sarg_holds buf n K m0 sarg xs"
  shows "k + i \<le> length xs \<Longrightarrow> emits buf n K m0 (emit_chars n sarg k i) (take i (drop k xs))"
proof (induction i arbitrary: k)
  case 0
  have "emit_chars n sarg k 0 = Some" by (rule ext) simp
  then show ?case by (simp add: emits_Some)
next
  case (Suc i)
  have *: "emits buf n K m0 (\<lambda>s. Option.bind (EMIT n (xs ! k) s) (emit_chars n sarg (k + 1) i)) ([xs ! k] @ take i (drop (k + 1) xs))"
    using Suc by (intro emits_bind emits_EMIT) auto
  have "emits buf n K m0 (emit_chars n sarg k (Suc i)) ([xs ! k] @ take i (drop (k + 1) xs))"
    unfolding emits_def
  proof (intro allI impI)
    fix s ys
    assume s: "sink_rel buf n K m0 s ys" "length ys + length ([xs ! k] @ take i (drop (k + 1) xs)) \<le> K"
    have "sarg_char (fst s) sarg k = Some (xs ! k)"
      using sarg_holds_read(2) [OF s(1) assms, of k] Suc.prems by simp
    then show "\<exists>s'. emit_chars n sarg k (Suc i) s = Some s' \<and> sink_rel buf n K m0 s' (ys @ [xs ! k] @ take i (drop (k + 1) xs))"
      using * [unfolded emits_def, rule_format, OF s] by simp
  qed
  then show ?case using Suc.prems by (simp add: Cons_nth_drop_Suc [symmetric] del: emit_chars.simps)
qed

lemma emits_string:
  assumes "sarg_holds buf n K m0 sarg xs" "string_field flags xs width prec = Some zs"
  shows "emits buf n K m0 (emit_string n flags sarg width prec) zs"
proof -
  define len where "len = (if prec \<noteq> - 1 \<and> int (length xs) > prec then prec else int (length xs))"
  let ?pad = "nat (width - len)"
  have len: "length xs < 2 ^ 31" "0 \<le> len" "nat len \<le> length xs"
    and zs: "(if \<not> FL_MINUS flags then replicate ?pad (if FL_ZERO flags then 48 else 32) else []) @ take (nat len) xs
             @ (if FL_MINUS flags then replicate ?pad 32 else []) = zs" (is "?out = zs")
    using assms(2) unfolding string_field_def Let_def len_def [symmetric] by (auto simp: len_def split: if_splits)
  define P where "P = (\<lambda>s. do {
     s \<leftarrow> (if \<not> FL_MINUS flags then emit_pad n (if FL_ZERO flags then 48 else 32) ?pad s else Some s);
     s \<leftarrow> emit_chars n sarg 0 (nat len) s;
     if FL_MINUS flags then emit_pad n 32 ?pad s else Some s })"
  have chars: "emits buf n K m0 (emit_chars n sarg 0 (nat len)) (take (nat len) xs)"
    using emits_chars [OF assms(1), of 0 "nat len"] len by simp
  have "emits buf n K m0 P ?out"
    unfolding P_def by (rule emits_bind [OF emits_if [OF emits_pad emits_Some] emits_bind [OF chars emits_if [OF emits_pad emits_Some]]])
  then have P: "emits buf n K m0 P zs" unfolding zs .
  have "emit_string n flags sarg width prec s = P s" if "sink_rel buf n K m0 s ys" for s ys
    unfolding emit_string_def sarg_holds_read(1) [OF that assms(1)] P_def bind.bind_lunit Let_def len_def [symmetric]
    using len by simp
  with P show ?thesis by (simp add: emits_def)
qed


subsection \<open>Directives\<close>

definition flag_char :: "byte \<Rightarrow> bool" where
  "flag_char ch \<longleftrightarrow> ch \<in> {45, 43, 39, 32, 35, 48}"

definition add_flags :: "byte list \<Rightarrow> pf_flags \<Rightarrow> pf_flags" where
  "add_flags fs flags = flags\<lparr>FL_ZERO := FL_ZERO flags \<or> 48 \<in> set fs, FL_MINUS := FL_MINUS flags \<or> 45 \<in> set fs,
     FL_PLUS := FL_PLUS flags \<or> 43 \<in> set fs, FL_TICK := FL_TICK flags \<or> 39 \<in> set fs,
     FL_SPACE := FL_SPACE flags \<or> 32 \<in> set fs, FL_HASH := FL_HASH flags \<or> 35 \<in> set fs\<rparr>"

definition dec_char :: "byte \<Rightarrow> bool" where
  "dec_char ch \<longleftrightarrow> 48 \<le> ch \<and> ch \<le> 57"

definition decimal :: "int \<Rightarrow> byte list \<Rightarrow> int" where
  "decimal v ds = foldl (\<lambda>v ch. v * 10 + (uint ch - 48)) v ds"

text \<open>A number in a directive: digits, or the value of an argument.\<close>

definition fmt_number :: "byte list \<Rightarrow> varg list \<Rightarrow> (int \<times> byte list \<times> varg list) option" where
  "fmt_number fs ap =
     (if take 1 fs = [42] then do {
        (w, ap) \<leftarrow> va_int ap;
        if tl fs \<noteq> [] \<and> (dec_char (hd (tl fs)) \<or> hd (tl fs) = 42) then None else Some (sint w, tl fs, ap)
      }
      else let v = decimal 0 (takeWhile dec_char fs); rest = dropWhile dec_char fs
        in if v < 2 ^ 31 \<and> take 1 rest \<noteq> [42] then Some (v, rest, ap) else None)"

definition modifier_char :: "byte \<Rightarrow> bool" where
  "modifier_char ch \<longleftrightarrow> ch \<in> {104, 108, 106, 122, 116, 76, 113}"

text \<open>The length modifiers \<^verbatim>\<open>hh\<close>, \<^verbatim>\<open>h\<close>, \<^verbatim>\<open>l\<close>, \<^verbatim>\<open>ll\<close>, \<^verbatim>\<open>j\<close>, \<^verbatim>\<open>z\<close>, \<^verbatim>\<open>t\<close>, \<^verbatim>\<open>L\<close> and \<^verbatim>\<open>q\<close>.\<close>

definition modifier_rank :: "byte list \<Rightarrow> int option" where
  "modifier_rank ms = map_of [([], rank_int), ([104, 104], rank_char), ([104], rank_short), ([108], rank_long),
     ([108, 108], rank_longlong), ([106], rank_longlong), ([122], rank_long), ([116], rank_long), ([76], rank_longlong),
     ([113], rank_longlong)] ms"

text \<open>A directive after its percent sign: flags, field width, precision and length modifier, then the conversion and the
  rest of the format.\<close>

definition directive :: "byte list \<Rightarrow> varg list \<Rightarrow> (pf_ctl \<times> byte \<times> byte list \<times> varg list) option" where
  "directive fs ap = do {
     let flags = add_flags (takeWhile flag_char fs) no_flags;
     (w, fs, ap) \<leftarrow> fmt_number (dropWhile flag_char fs) ap;
     _ \<leftarrow> (if w = - (2 ^ 31) then None else Some ());
     (prec, fs, ap) \<leftarrow> (if take 1 fs = [46] then fmt_number (tl fs) ap else Some (- 1, fs, ap));
     rank \<leftarrow> modifier_rank (takeWhile modifier_char fs);
     case dropWhile modifier_char fs of
       [] \<Rightarrow> None
     | ch # fs \<Rightarrow> Some (\<lparr>pf_state = st_modifiers, pf_flags = flags\<lparr>FL_MINUS := FL_MINUS flags \<or> w < 0\<rparr>, pf_rank = rank,
         pf_width = \<bar>w\<bar>, pf_prec = (if prec < 0 then - 1 else prec)\<rparr>, ch, fs, ap)
   }"

text \<open>The field of a conversion; strings are looked up in \<open>str\<close>.\<close>

definition fmt_field :: "(addr \<Rightarrow> byte list option) \<Rightarrow> byte \<Rightarrow> pf_ctl \<Rightarrow> varg list \<Rightarrow> (byte list \<times> varg list) option" where
  "fmt_field str ch c ap =
     (case pf_integer ch c ap of
        Some r \<Rightarrow> do {
          ((flags, base, prec, val), ap) \<leftarrow> r;
          xs \<leftarrow> int_string flags base (pf_width c) prec val;
          Some (xs, ap)
        }
      | None \<Rightarrow> (case pf_string ch c ap of
          Some r \<Rightarrow> do {
            ((sarg, width, prec), ap) \<leftarrow> r;
            xs \<leftarrow> (case sarg of AtMem p \<Rightarrow> str p | Lit xs \<Rightarrow> Some xs);
            xs \<leftarrow> string_field (pf_flags c) xs width prec;
            Some (xs, ap)
          }
        | None \<Rightarrow> if ch = 110 then None else Some ([ch], ap)))"

lemma fmt_number_length: "fmt_number fs ap = Some (v, fs', ap') \<Longrightarrow> length fs' \<le> length fs"
  by (auto simp: fmt_number_def Let_def length_dropWhile_le split: if_splits bind_splits)

lemma directive_length:
  assumes "directive fs ap = Some (c, ch, fs', ap')"
  shows "length fs' < length fs"
proof -
  from assms obtain w fs1 ap1 v fs2 ap2 where "fmt_number (dropWhile flag_char fs) ap = Some (w, fs1, ap1)"
    and "(if take 1 fs1 = [46] then fmt_number (tl fs1) ap1 else Some (- 1, fs1, ap1)) = Some (v, fs2, ap2)"
    and "dropWhile modifier_char fs2 = ch # fs'"
    by (auto simp: directive_def Let_def split: bind_splits list.splits if_splits)
  then show ?thesis
    using fmt_number_length [of "dropWhile flag_char fs" ap w fs1 ap1] fmt_number_length [of "tl fs1" ap1 v fs2 ap2]
      length_dropWhile_le [of flag_char fs] length_dropWhile_le [of modifier_char fs2] by (auto split: if_splits)
qed

function fmt :: "(addr \<Rightarrow> byte list option) \<Rightarrow> byte list \<Rightarrow> varg list \<Rightarrow> byte list option" where
  "fmt str [] ap = Some []"
| "fmt str (ch # fs) ap =
     (if ch \<noteq> 37 then map_option ((#) ch) (fmt str fs ap)
      else do {
        (c, ch, fs, ap) \<leftarrow> directive fs ap;
        (xs, ap) \<leftarrow> fmt_field str ch c ap;
        ys \<leftarrow> fmt str fs ap;
        Some (xs @ ys)
      })"
  by pat_completeness auto
termination
  by (relation "measure (\<lambda>(str, fs, ap). length fs)") (auto dest: directive_length)

lemma apart_drop: "apart buf n K m p xs \<Longrightarrow> k \<le> length xs \<Longrightarrow> apart buf n K m (p + k) (drop k xs)"
  by (auto simp: apart_def disjoint_ranges_def intro: cstr_drop)

lemma loop_Nil: "cstr (fst s) p [] \<Longrightarrow> vsnprintf_loop n p s ap c = Some s"
  by (subst vsnprintf_loop.simps) (simp add: cstr_Nil mem_simps)

lemma loop_flag:
  assumes "cstr (fst s) p (ch # fs)" "pf_state c = st_flags"
  shows "vsnprintf_loop n p s ap c = (case pf_flag ch (pf_flags c) of
      Some flags \<Rightarrow> vsnprintf_loop n (Suc p) s ap (c\<lparr>pf_flags := flags\<rparr>)
    | None \<Rightarrow> vsnprintf_loop n p s ap (c\<lparr>pf_state := st_width\<rparr>))"
  using assms unfolding Suc_eq_plus1 by (subst vsnprintf_loop.simps) (simp add: cstr_Cons mem_simps)

lemma loop_width:
  assumes "cstr (fst s) p (ch # fs)" "pf_state c = st_width"
  shows "vsnprintf_loop n p s ap c = do {
     (again, c, ap) \<leftarrow> pf_width_step ch c ap;
     vsnprintf_loop n (if again then p else Suc p) s ap c
   }"
  using assms unfolding Suc_eq_plus1 by (subst vsnprintf_loop.simps) (simp add: cstr_Cons mem_simps)

lemma loop_prec:
  assumes "cstr (fst s) p (ch # fs)" "pf_state c = st_prec"
  shows "vsnprintf_loop n p s ap c = do {
     (again, c, ap) \<leftarrow> pf_prec_step ch c ap;
     vsnprintf_loop n (if again then p else Suc p) s ap c
   }"
  using assms unfolding Suc_eq_plus1 by (subst vsnprintf_loop.simps) (simp add: cstr_Cons mem_simps)

lemma loop_modifier:
  assumes "cstr (fst s) p (ch # fs)" "pf_state c = st_modifiers"
  shows "vsnprintf_loop n p s ap c = (case pf_modifier ch (pf_rank c) of
      Some rank \<Rightarrow> vsnprintf_loop n (Suc p) s ap (c\<lparr>pf_rank := rank\<rparr>)
    | None \<Rightarrow> do {
        (s, ap) \<leftarrow> pf_convert n ch (c\<lparr>pf_rank := pf_canonical (pf_rank c)\<rparr>) ap s;
        vsnprintf_loop n (Suc p) s ap (c\<lparr>pf_state := st_normal\<rparr>)
      })"
  using assms unfolding Suc_eq_plus1 by (subst vsnprintf_loop.simps) (simp add: cstr_Cons mem_simps)

lemma loop_normal:
  assumes "cstr (fst s) p (ch # fs)" "pf_state c = st_normal"
  shows "vsnprintf_loop n p s ap c = (if ch = 37 then vsnprintf_loop n (Suc p) s ap (pf_init\<lparr>pf_state := st_flags\<rparr>)
    else do { s \<leftarrow> EMIT n ch s; vsnprintf_loop n (Suc p) s ap c })"
  using assms unfolding Suc_eq_plus1 by (subst vsnprintf_loop.simps) (simp add: cstr_Cons mem_simps)

lemma pf_flag_char: "pf_flag ch flags = (if flag_char ch then Some (add_flags [ch] flags) else None)"
  by (auto simp: pf_flag_def flag_char_def add_flags_def)

lemma add_flags_Cons: "add_flags fs (add_flags [ch] flags) = add_flags (ch # fs) flags"
  by (auto simp: add_flags_def)

lemma add_flags_Nil [simp]: "add_flags [] flags = flags"
  by (simp add: add_flags_def)

lemma loop_flags:
  "cstr (fst s) p fs \<Longrightarrow> pf_state c = st_flags \<Longrightarrow> dropWhile flag_char fs \<noteq> [] \<Longrightarrow>
   vsnprintf_loop n p s ap c = vsnprintf_loop n (p + length (takeWhile flag_char fs)) s ap
     (c\<lparr>pf_flags := add_flags (takeWhile flag_char fs) (pf_flags c), pf_state := st_width\<rparr>)"
proof (induction fs arbitrary: p c)
  case (Cons ch fs)
  show ?case
  proof (cases "flag_char ch")
    case True
    then show ?thesis
      using loop_flag [OF Cons.prems(1,2)] Cons.IH [of "Suc p" "c\<lparr>pf_flags := add_flags [ch] (pf_flags c)\<rparr>"] Cons.prems
      by (simp add: pf_flag_char cstr_Cons add_flags_Cons)
  next
    case False
    then show ?thesis
      using loop_flag [OF Cons.prems(1,2)] by (simp add: pf_flag_char)
  qed
qed simp

lemma decimal_Cons: "decimal v (ch # ds) = decimal (v * 10 + (uint ch - 48)) ds"
  by (simp add: decimal_def)

lemma decimal_Nil [simp]: "decimal v [] = v"
  by (simp add: decimal_def)

lemma dec_char_uint: "dec_char ch \<longleftrightarrow> 48 \<le> uint ch \<and> uint ch \<le> 57"
  by (simp add: dec_char_def word_le_def)

lemma decimal_le: "0 \<le> v \<Longrightarrow> \<forall>ch \<in> set ds. dec_char ch \<Longrightarrow> v \<le> decimal v ds"
proof (induction ds arbitrary: v)
  case (Cons ch ds)
  then have ch: "48 \<le> uint ch" by (simp add: dec_char_uint)
  have "v * 10 + (uint ch - 48) \<le> decimal (v * 10 + (uint ch - 48)) ds"
    using Cons ch by (intro Cons.IH) auto
  then show ?case using ch Cons.prems(1) unfolding decimal_Cons by linarith
qed simp

lemma pf_digit_decimal:
  assumes "0 \<le> v" "\<forall>ch \<in> set (ch # ds). dec_char ch" "decimal v (ch # ds) < 2 ^ 31"
  shows "pf_digit v ch = Some (v * 10 + (uint ch - 48))"
  using assms decimal_le [of "v * 10 + (uint ch - 48)" ds] by (simp add: pf_digit_def Let_def decimal_Cons dec_char_uint)

lemma loop_width_digits:
  "cstr (fst s) p (ds @ fs) \<Longrightarrow> pf_state c = st_width \<Longrightarrow> \<forall>ch \<in> set ds. dec_char ch \<Longrightarrow> 0 \<le> pf_width c \<Longrightarrow>
   decimal (pf_width c) ds < 2 ^ 31 \<Longrightarrow>
   vsnprintf_loop n p s ap c = vsnprintf_loop n (p + length ds) s ap (c\<lparr>pf_width := decimal (pf_width c) ds\<rparr>)"
proof (induction ds arbitrary: p c)
  case (Cons ch ds)
  let ?w = "pf_width c * 10 + (uint ch - 48)"
  have "0 \<le> ?w" using Cons.prems by (simp add: dec_char_uint)
  moreover have "pf_width_step ch c ap = Some (False, c\<lparr>pf_width := ?w\<rparr>, ap)"
    using Cons.prems pf_digit_decimal [of "pf_width c" ch ds] by (simp add: pf_width_step_def dec_char_def)
  ultimately show ?case
    using loop_width [of s p ch "ds @ fs" c] Cons.IH [of "Suc p" "c\<lparr>pf_width := ?w\<rparr>"] Cons.prems
    by (simp add: cstr_Cons decimal_Cons)
qed simp

lemma loop_prec_digits:
  "cstr (fst s) p (ds @ fs) \<Longrightarrow> pf_state c = st_prec \<Longrightarrow> \<forall>ch \<in> set ds. dec_char ch \<Longrightarrow> 0 \<le> pf_prec c \<Longrightarrow>
   decimal (pf_prec c) ds < 2 ^ 31 \<Longrightarrow>
   vsnprintf_loop n p s ap c = vsnprintf_loop n (p + length ds) s ap (c\<lparr>pf_prec := decimal (pf_prec c) ds\<rparr>)"
proof (induction ds arbitrary: p c)
  case (Cons ch ds)
  let ?w = "pf_prec c * 10 + (uint ch - 48)"
  have "0 \<le> ?w" using Cons.prems by (simp add: dec_char_uint)
  moreover have "pf_prec_step ch c ap = Some (False, c\<lparr>pf_prec := ?w\<rparr>, ap)"
    using Cons.prems pf_digit_decimal [of "pf_prec c" ch ds] by (simp add: pf_prec_step_def dec_char_def)
  ultimately show ?case
    using loop_prec [of s p ch "ds @ fs" c] Cons.IH [of "Suc p" "c\<lparr>pf_prec := ?w\<rparr>"] Cons.prems
    by (simp add: cstr_Cons decimal_Cons)
qed simp


text \<open>The number of a directive leaves the machine in its state, at a character that is no part of a number.\<close>

lemma drop_takeWhile: "drop (length (takeWhile P xs)) xs = dropWhile P xs"
  by (rule dropWhile_eq_drop [symmetric])

lemma fmt_number_cases:
  assumes "fmt_number fs ap = Some (v, fs', ap')"
  obtains (star) w where "fs = 42 # fs'" "va_int ap = Some (w, ap')" "v = sint w" "fs' = [] \<or> \<not> dec_char (hd fs') \<and> hd fs' \<noteq> 42"
  | (digits) ds where "fs = ds @ fs'" "\<forall>ch \<in> set ds. dec_char ch" "v = decimal 0 ds" "v < 2 ^ 31" "ap' = ap"
      "fs' = [] \<or> \<not> dec_char (hd fs') \<and> hd fs' \<noteq> 42"
proof (cases "take 1 fs = [42]")
  case True
  then obtain gs where fs: "fs = 42 # gs" by (cases fs) auto
  with assms obtain w where "va_int ap = Some (w, ap')" "v = sint w" "gs = fs'" "fs' = [] \<or> \<not> dec_char (hd fs') \<and> hd fs' \<noteq> 42"
    by (auto simp: fmt_number_def split: bind_splits if_splits)
  with fs show ?thesis using star by blast
next
  case False
  with assms have "v = decimal 0 (takeWhile dec_char fs)" "v < 2 ^ 31" "ap' = ap" "fs' = dropWhile dec_char fs" "take 1 fs' \<noteq> [42]"
    by (auto simp: fmt_number_def Let_def split: if_splits)
  moreover have "fs' = [] \<or> \<not> dec_char (hd fs') \<and> hd fs' \<noteq> 42"
  proof (cases fs')
    case (Cons a list)
    with calculation(4,5) hd_dropWhile [of dec_char fs] show ?thesis by (metis list.distinct(1) list.sel(1) take0 take_Cons_numeral take_Suc_Cons One_nat_def)
  qed simp
  ultimately show ?thesis
    by (intro digits [of "takeWhile dec_char fs"]) (auto dest: set_takeWhileD)
qed

definition neg_width :: "int \<Rightarrow> pf_ctl \<Rightarrow> pf_ctl" where
  "neg_width w c = c\<lparr>pf_width := \<bar>w\<bar>, pf_flags := (pf_flags c)\<lparr>FL_MINUS := FL_MINUS (pf_flags c) \<or> w < 0\<rparr>\<rparr>"

lemma loop_number_width:
  assumes "cstr (fst s) p fs" "pf_state c = st_width" "pf_width c = 0" "fmt_number fs ap = Some (w, fs', ap')" "w \<noteq> - (2 ^ 31)"
  shows "\<exists>k \<le> length fs. fs' = drop k fs \<and> (fs' = [] \<or> \<not> dec_char (hd fs') \<and> hd fs' \<noteq> 42) \<and>
    vsnprintf_loop n p s ap c = vsnprintf_loop n (p + k) s ap' (neg_width w c)"
  using assms(4)
proof (cases rule: fmt_number_cases)
  case (star v)
  have "pf_width_step 42 c ap = Some (False, neg_width w c, ap')"
    using star assms(3,5) by (simp add: pf_width_step_def neg_width_def)
  then show ?thesis
    using loop_width [of s p 42 fs' c n ap] assms star by (intro exI [of _ 1]) simp
next
  case (digits ds)
  then have "0 \<le> w" using decimal_le [of 0 ds] by simp
  then have "neg_width w c = c\<lparr>pf_width := decimal (pf_width c) ds\<rparr>"
    using digits(3) assms(3) by (simp add: neg_width_def)
  then show ?thesis
    using loop_width_digits [of s p ds fs' c n ap] digits assms by (intro exI [of _ "length ds"]) simp
qed

lemma loop_number_prec:
  assumes "cstr (fst s) p fs" "pf_state c = st_prec" "pf_prec c = 0" "fmt_number fs ap = Some (v, fs', ap')"
  shows "\<exists>k \<le> length fs. fs' = drop k fs \<and> (fs' = [] \<or> \<not> dec_char (hd fs') \<and> hd fs' \<noteq> 42) \<and>
    vsnprintf_loop n p s ap c = vsnprintf_loop n (p + k) s ap' (c\<lparr>pf_prec := (if v < 0 then - 1 else v)\<rparr>)"
  using assms(4)
proof (cases rule: fmt_number_cases)
  case (star w)
  have "pf_prec_step 42 c ap = Some (False, c\<lparr>pf_prec := (if v < 0 then - 1 else v)\<rparr>, ap')"
    using star assms(3) by (simp add: pf_prec_step_def)
  then show ?thesis
    using loop_prec [of s p 42 fs' c n ap] assms star by (intro exI [of _ 1]) simp
next
  case (digits ds)
  then have "0 \<le> v" using decimal_le [of 0 ds] by simp
  then show ?thesis
    using loop_prec_digits [of s p ds fs' c n ap] digits assms by (intro exI [of _ "length ds"]) simp
qed

lemma loop_modifiers:
  "cstr (fst s) p fs \<Longrightarrow> pf_state c = st_modifiers \<Longrightarrow>
   vsnprintf_loop n p s ap c = vsnprintf_loop n (p + length (takeWhile modifier_char fs)) s ap
     (c\<lparr>pf_rank := foldl (\<lambda>r ch. the (pf_modifier ch r)) (pf_rank c) (takeWhile modifier_char fs)\<rparr>)"
proof (induction fs arbitrary: p c)
  case (Cons ch fs)
  show ?case
  proof (cases "modifier_char ch")
    case True
    then obtain r where "pf_modifier ch (pf_rank c) = Some r"
      by (auto simp: modifier_char_def pf_modifier_def)
    then show ?thesis
      using loop_modifier [OF Cons.prems(1,2), of n ap] Cons.IH [of "Suc p" "c\<lparr>pf_rank := r\<rparr>"] Cons.prems True
      by (simp add: cstr_Cons)
  qed simp
qed simp

lemma modifier_rank_fold:
  assumes "modifier_rank ms = Some r"
  shows "foldl (\<lambda>r ch. the (pf_modifier ch r)) rank_int ms = r" "pf_canonical r = r"
  using assms unfolding modifier_rank_def
  by (auto simp: pf_modifier_def rank_char_def rank_short_def rank_int_def rank_long_def rank_longlong_def pf_canonical_def
    split: if_splits)


lemma loop_width_end:
  assumes "cstr (fst s) p (ch # fs)" "pf_state c = st_width" "\<not> dec_char ch" "ch \<noteq> 42"
  shows "vsnprintf_loop n p s ap c = (if ch = 46 then vsnprintf_loop n (Suc p) s ap (c\<lparr>pf_prec := 0, pf_state := st_prec\<rparr>)
    else vsnprintf_loop n p s ap (c\<lparr>pf_state := st_modifiers\<rparr>))"
proof -
  have "pf_width_step ch c ap = Some (if ch = 46 then (False, c\<lparr>pf_prec := 0, pf_state := st_prec\<rparr>, ap) else (True, c\<lparr>pf_state := st_modifiers\<rparr>, ap))"
    using assms(3,4) by (auto simp: pf_width_step_def dec_char_def)
  then show ?thesis using loop_width [OF assms(1,2)] by simp
qed

lemma loop_prec_end:
  assumes "cstr (fst s) p (ch # fs)" "pf_state c = st_prec" "\<not> dec_char ch" "ch \<noteq> 42"
  shows "vsnprintf_loop n p s ap c = vsnprintf_loop n p s ap (c\<lparr>pf_state := st_modifiers\<rparr>)"
proof -
  have "pf_prec_step ch c ap = Some (True, c\<lparr>pf_state := st_modifiers\<rparr>, ap)"
    using assms(3,4) by (auto simp: pf_prec_step_def dec_char_def)
  then show ?thesis using loop_prec [OF assms(1,2)] by simp
qed

lemma loop_precision:
  assumes "cstr (fst s) p fs" "pf_state c = st_width" "pf_prec c = - 1" "fs = [] \<or> \<not> dec_char (hd fs) \<and> hd fs \<noteq> 42"
    and "(if take 1 fs = [46] then fmt_number (tl fs) ap else Some (- 1, fs, ap)) = Some (v, fs', ap')" "fs' \<noteq> []"
  shows "\<exists>k \<le> length fs. fs' = drop k fs \<and> vsnprintf_loop n p s ap c = vsnprintf_loop n (p + k) s ap'
    (c\<lparr>pf_prec := (if v < 0 then - 1 else v), pf_state := st_modifiers\<rparr>)"
proof (cases "take 1 fs = [46]")
  case True
  then obtain gs where fs: "fs = 46 # gs" by (cases fs) auto
  let ?c = "c\<lparr>pf_prec := 0, pf_state := st_prec\<rparr>"
  have "cstr (fst s) (Suc p) gs" using assms(1) fs by (simp add: cstr_Cons)
  moreover have "fmt_number gs ap = Some (v, fs', ap')" using assms(5) fs by simp
  ultimately obtain k where k: "k \<le> length gs" "fs' = drop k gs" "\<not> dec_char (hd fs') \<and> hd fs' \<noteq> 42"
    and loop: "vsnprintf_loop n (Suc p) s ap ?c = vsnprintf_loop n (Suc p + k) s ap' (?c\<lparr>pf_prec := (if v < 0 then - 1 else v)\<rparr>)"
    using loop_number_prec [of s "Suc p" gs ?c ap v fs' ap' n] assms(6) by auto
  have "cstr (fst s) (Suc p + k) (hd fs' # tl fs')"
    using cstr_drop [OF \<open>cstr (fst s) (Suc p) gs\<close> k(1)] k(2) assms(6) by simp
  from loop_prec_end [OF this, of "?c\<lparr>pf_prec := (if v < 0 then - 1 else v)\<rparr>"] k(3)
  have "vsnprintf_loop n (Suc p + k) s ap' (?c\<lparr>pf_prec := (if v < 0 then - 1 else v)\<rparr>) =
      vsnprintf_loop n (Suc p + k) s ap' (c\<lparr>pf_prec := (if v < 0 then - 1 else v), pf_state := st_modifiers\<rparr>)"
    by simp
  then show ?thesis
    using loop loop_width_end [of s p 46 gs c n ap] assms fs k by (intro exI [of _ "Suc k"]) simp
next
  case False
  then have fs': "v = - 1" "fs' = fs" "ap' = ap" using assms(5) by auto
  then obtain ch gs where fs: "fs = ch # gs" using assms(6) by (cases fs) auto
  have "c\<lparr>pf_prec := - 1, pf_state := st_modifiers\<rparr> = c\<lparr>pf_state := st_modifiers\<rparr>" using assms(3) by (cases c) simp
  moreover have "vsnprintf_loop n p s ap c = vsnprintf_loop n p s ap (c\<lparr>pf_state := st_modifiers\<rparr>)"
    using loop_width_end [of s p ch gs c n ap] assms False fs by simp
  ultimately have "vsnprintf_loop n p s ap c = vsnprintf_loop n p s ap (c\<lparr>pf_prec := - 1, pf_state := st_modifiers\<rparr>)"
    by (simp only:)
  with fs fs' show ?thesis
    by (intro exI [of _ 0]) simp
qed

lemma loop_directive:
  assumes "cstr (fst s) p fs" "directive fs ap = Some (c, ch, fs', ap')"
  shows "\<exists>k < length fs. drop k fs = ch # fs' \<and> \<not> modifier_char ch \<and> pf_state c = st_modifiers \<and> pf_canonical (pf_rank c) = pf_rank c \<and>
    vsnprintf_loop n p s ap (pf_init\<lparr>pf_state := st_flags\<rparr>) = vsnprintf_loop n (p + k) s ap' c"
proof -
  let ?fl = "takeWhile flag_char fs" and ?fs0 = "dropWhile flag_char fs"
  obtain w fs1 ap1 v fs2 r where w: "fmt_number ?fs0 ap = Some (w, fs1, ap1)" "w \<noteq> - (2 ^ 31)"
    and v: "(if take 1 fs1 = [46] then fmt_number (tl fs1) ap1 else Some (- 1, fs1, ap1)) = Some (v, fs2, ap')"
    and r: "modifier_rank (takeWhile modifier_char fs2) = Some r" and fs2: "dropWhile modifier_char fs2 = ch # fs'"
    and c: "c = \<lparr>pf_state = st_modifiers,
      pf_flags = (add_flags ?fl no_flags)\<lparr>FL_MINUS := FL_MINUS (add_flags ?fl no_flags) \<or> w < 0\<rparr>,
      pf_rank = r, pf_width = \<bar>w\<bar>, pf_prec = (if v < 0 then - 1 else v)\<rparr>"
    using assms(2) unfolding directive_def Let_def by (auto split: bind_splits list.splits if_split_asm)
  let ?c0 = "pf_init\<lparr>pf_flags := add_flags ?fl no_flags, pf_state := st_width\<rparr>"
  have c0: "cstr (fst s) (p + length ?fl) ?fs0"
    using cstr_drop [OF assms(1), of "length ?fl"] by (simp add: drop_takeWhile length_takeWhile_le)
  obtain k1 where k1: "k1 \<le> length ?fs0" "fs1 = drop k1 ?fs0" "fs1 = [] \<or> \<not> dec_char (hd fs1) \<and> hd fs1 \<noteq> 42"
    and l1: "vsnprintf_loop n (p + length ?fl) s ap ?c0 = vsnprintf_loop n (p + length ?fl + k1) s ap1 (neg_width w ?c0)"
    using loop_number_width [OF c0 _ _ w, of ?c0 n] by (auto simp: pf_init_def)
  have ne: "fs2 \<noteq> []" using fs2 by auto
  have c1: "cstr (fst s) (p + length ?fl + k1) fs1" using cstr_drop [OF c0 k1(1)] k1(2) by simp
  obtain k2 where k2: "k2 \<le> length fs1" "fs2 = drop k2 fs1"
    and l2: "vsnprintf_loop n (p + length ?fl + k1) s ap1 (neg_width w ?c0) = vsnprintf_loop n (p + length ?fl + k1 + k2) s ap'
      ((neg_width w ?c0)\<lparr>pf_prec := (if v < 0 then - 1 else v), pf_state := st_modifiers\<rparr>)"
    using loop_precision [OF c1 _ _ k1(3) v ne, of "neg_width w ?c0" n] by (auto simp: pf_init_def neg_width_def)
  let ?c2 = "(neg_width w ?c0)\<lparr>pf_prec := (if v < 0 then - 1 else v), pf_state := st_modifiers\<rparr>"
  let ?k3 = "length (takeWhile modifier_char fs2)"
  have c2: "cstr (fst s) (p + length ?fl + k1 + k2) fs2" using cstr_drop [OF c1 k2(1)] k2(2) by simp
  have l3: "vsnprintf_loop n (p + length ?fl + k1 + k2) s ap' ?c2 = vsnprintf_loop n (p + length ?fl + k1 + k2 + ?k3) s ap' c"
    using loop_modifiers [OF c2, of ?c2 n ap'] modifier_rank_fold(1) [OF r] by (simp add: c pf_init_def neg_width_def)
  have ne0: "?fs0 \<noteq> []" using ne k1(2) k2(2) by (metis drop_Nil)
  have "vsnprintf_loop n p s ap (pf_init\<lparr>pf_state := st_flags\<rparr>) = vsnprintf_loop n (p + (length ?fl + k1 + k2 + ?k3)) s ap' c"
    using loop_flags [OF assms(1) _ ne0, of "pf_init\<lparr>pf_state := st_flags\<rparr>" n ap] l1 l2 l3 by (simp add: pf_init_def add.assoc)
  moreover have dr: "drop (length ?fl + k1 + k2 + ?k3) fs = ch # fs'"
    using fs2 unfolding k2(2) k1(2) by (simp add: drop_takeWhile [symmetric] add.commute add.left_commute)
  moreover have "length ?fl + k1 + k2 + ?k3 < length fs" using dr by (metis drop_eq_Nil list.distinct(1) not_le)
  moreover have "\<not> modifier_char ch" using fs2 hd_dropWhile [of modifier_char fs2] by simp
  ultimately show ?thesis using modifier_rank_fold(2) [OF r] c by auto
qed


lemma emits_int:
  assumes "int_string flags base width prec val = Some xs"
  shows "emits buf n K m0 (\<lambda>(m, q, out). do {
     (m, sz) \<leftarrow> format_int m q (if out < n then n - out else 0) val flags base width prec; Some (m, q + sz, out + sz) }) xs"
proof (rule emits_block)
  fix m q k
  have n: "(if k < n then n - k else 0) = n - k" by simp
  assume "mapped m q (min (n - k) (length xs))"
  then show "\<exists>q'. (case (m, q, k) of (m, q, out) \<Rightarrow> do {
     (m, sz) \<leftarrow> format_int m q (if out < n then n - out else 0) val flags base width prec; Some (m, q + sz, out + sz) })
    = Some (put m q (take (n - k) xs), q', k + length xs) \<and> (k + length xs < n \<longrightarrow> q' = q + length xs)"
    using format_int_string [OF assms] by (simp add: n)
qed

definition strs_apart :: "addr \<Rightarrow> nat \<Rightarrow> nat \<Rightarrow> mem \<Rightarrow> (addr \<Rightarrow> byte list option) \<Rightarrow> bool" where
  "strs_apart buf n K m str \<longleftrightarrow> (\<forall>p xs. str p = Some xs \<longrightarrow> apart buf n K m p xs)"

lemma pf_convert_field:
  assumes f: "fmt_field str ch c ap = Some (xs, ap')" and str: "strs_apart buf n K m0 str"
    and s: "sink_rel buf n K m0 s ys" "length ys + length xs \<le> K"
  shows "\<exists>s'. pf_convert n ch c ap s = Some (s', ap') \<and> sink_rel buf n K m0 s' (ys @ xs)"
proof (cases "pf_integer ch c ap")
  case (Some r)
  with f obtain flags base prec val where r: "r = Some ((flags, base, prec, val), ap')"
    and xs: "int_string flags base (pf_width c) prec val = Some xs"
    by (auto simp: fmt_field_def split: bind_splits)
  obtain m q k where sq: "s = (m, q, k)" by (cases s)
  from emitsE [OF emits_int [OF xs] s] obtain s' where "(case s of (m, q, out) \<Rightarrow> do {
     (m, sz) \<leftarrow> format_int m q (if out < n then n - out else 0) val flags base (pf_width c) prec; Some (m, q + sz, out + sz) }) = Some s'"
    "sink_rel buf n K m0 s' (ys @ xs)" .
  moreover have "(if k < n then n - k else 0) = n - k" by simp
  ultimately show ?thesis
    using Some r by (auto simp: pf_convert_def sq split: bind_splits)
next
  case None
  note int = this
  show ?thesis
  proof (cases "pf_string ch c ap")
    case (Some r)
    with f None obtain sarg width prec zs where r: "r = Some ((sarg, width, prec), ap')"
      and zs: "(case sarg of AtMem p \<Rightarrow> str p | Lit xs \<Rightarrow> Some xs) = Some zs" "string_field (pf_flags c) zs width prec = Some xs"
      by (auto simp: fmt_field_def split: bind_splits)
    have "sarg_holds buf n K m0 sarg zs" using zs(1) str by (cases sarg) (auto simp: strs_apart_def)
    from emitsE [OF emits_string [OF this zs(2)] s] obtain s' where
      "emit_string n (pf_flags c) sarg width prec s = Some s'" "sink_rel buf n K m0 s' (ys @ xs)" .
    with int Some r show ?thesis by (auto simp: pf_convert_def)
  next
    case None
    with int f have "xs = [ch]" "ap' = ap" "ch \<noteq> 110" by (auto simp: fmt_field_def split: if_splits)
    from emitsE [OF emits_EMIT s [unfolded \<open>xs = [ch]\<close>]] obtain s' where
      "EMIT n ch s = Some s'" "sink_rel buf n K m0 s' (ys @ [ch])" .
    with int None \<open>xs = [ch]\<close> \<open>ap' = ap\<close> \<open>ch \<noteq> 110\<close> show ?thesis by (auto simp: pf_convert_def)
  qed
qed

lemma vsnprintf_loop_fmt:
  "fmt str fs ap = Some xs \<Longrightarrow> strs_apart buf n K m0 str \<Longrightarrow> apart buf n K m0 p fs \<Longrightarrow> sink_rel buf n K m0 s ys \<Longrightarrow>
    length ys + length xs \<le> K \<Longrightarrow> pf_state c = st_normal \<Longrightarrow>
    \<exists>s'. vsnprintf_loop n p s ap c = Some s' \<and> sink_rel buf n K m0 s' (ys @ xs)"
proof (induction str fs ap arbitrary: xs p s ys c rule: fmt.induct)
  case (1 str ap)
  then show ?case using loop_Nil [OF sink_rel_cstr [OF 1(4,3)]] by simp
next
  case (2 str ch fs ap)
  note prems = 2(3-8)
  note cs = sink_rel_cstr [OF prems(4,3)]
  have ap1: "apart buf n K m0 (Suc p) fs" using apart_drop [OF prems(3), of 1] by simp
  show ?case
  proof (cases "ch = 37")
    case False
    with prems(1) obtain zs where zs: "fmt str fs ap = Some zs" "xs = ch # zs" by auto
    have "length ys + length [ch] \<le> K" using prems(5) zs by simp
    from emitsE [OF emits_EMIT prems(4) this] obtain s1 where s1: "EMIT n ch s = Some s1" "sink_rel buf n K m0 s1 (ys @ [ch])" .
    from 2(1) [OF False zs(1) prems(2) ap1 s1(2) _ prems(6)] prems(5) zs(2) show ?thesis
      using loop_normal [OF cs prems(6)] s1(1) False by auto
  next
    case True
    with prems(1) obtain c1 cv fs1 ap1 xs1 ap2 xs2 where d: "directive fs ap = Some (c1, cv, fs1, ap1)"
      and f: "fmt_field str cv c1 ap1 = Some (xs1, ap2)" and r: "fmt str fs1 ap2 = Some xs2" and xs: "xs = xs1 @ xs2"
      by (auto split: bind_splits)
    have nn: "\<not> ch \<noteq> 37" using True by simp
    have cs1: "cstr (fst s) (Suc p) fs" using cs by (simp add: cstr_Cons)
    from loop_directive [OF cs1 d, of n] obtain k where k: "k < length fs" "drop k fs = cv # fs1" "\<not> modifier_char cv"
      "pf_state c1 = st_modifiers" "pf_canonical (pf_rank c1) = pf_rank c1"
      and l: "vsnprintf_loop n (Suc p) s ap (pf_init\<lparr>pf_state := st_flags\<rparr>) = vsnprintf_loop n (Suc p + k) s ap1 c1" by auto
    have apk: "apart buf n K m0 (Suc p + k) (cv # fs1)"
      using apart_drop [OF ap1, of k] k by simp
    from pf_convert_field [OF f prems(2,4)] prems(5) xs obtain s1 where
      s1: "pf_convert n cv c1 ap1 s = Some (s1, ap2)" "sink_rel buf n K m0 s1 (ys @ xs1)" by auto
    have "pf_modifier cv (pf_rank c1) = None" using k(3) by (simp add: modifier_char_def pf_modifier_def)
    moreover have "c1\<lparr>pf_rank := pf_canonical (pf_rank c1)\<rparr> = c1" using k(5) by (cases c1) simp
    ultimately have l2: "vsnprintf_loop n (Suc p + k) s ap1 c1 = vsnprintf_loop n (Suc (Suc p + k)) s1 ap2 (c1\<lparr>pf_state := st_normal\<rparr>)"
      using loop_modifier [OF sink_rel_cstr [OF prems(4) apk] k(4), of n ap1] s1(1) by (simp only: option.case) simp
    have "apart buf n K m0 (Suc (Suc p + k)) fs1" using apart_drop [OF apk, of 1] by simp
    from 2(2) [OF nn d refl refl refl f refl r prems(2) this s1(2), of "c1\<lparr>pf_state := st_normal\<rparr>"] prems(5) xs
    show ?thesis using loop_normal [OF cs prems(6), of n ap] True l l2 by auto
  qed
qed


text \<open>What \<open>vsnprintf\<close> leaves in the buffer: the output, cut to size, and a terminator.\<close>

definition bounded :: "nat \<Rightarrow> byte list \<Rightarrow> byte list" where
  "bounded n xs = (if n = 0 then [] else take (n - 1) xs @ [0])"

lemma vsnprintf_fmt:
  assumes "fmt str fs ap = Some xs" "apart buf n (Suc (length xs)) m format fs" "strs_apart buf n (Suc (length xs)) m str"
    and map: "mapped m buf (min n (Suc (length xs)))"
  shows "vsnprintf m buf n format ap = Some (put m buf (bounded n xs), word_of_nat (length xs))"
proof -
  have "sink_rel buf n (Suc (length xs)) m (m, buf, 0) []" using map by (simp add: sink_rel_def)
  from vsnprintf_loop_fmt [OF assms(1,3,2) this, of pf_init] obtain s where
    s: "vsnprintf_loop n format (m, buf, 0) ap pf_init = Some s" "sink_rel buf n (Suc (length xs)) m s xs"
    by (auto simp: pf_init_def)
  obtain q where sq: "s = (put m buf (take n xs), q, length xs)" and q: "length xs < n \<longrightarrow> q = buf + length xs"
    using s(2) by (cases s) (auto simp: sink_rel_def)
  consider (fits) "length xs < n" | (cut) "n \<le> length xs" "0 < n" | (none) "n = 0" by linarith
  then show ?thesis
  proof cases
    case fits
    with map have b: "0 < buf" "buf + length xs < length m" by (auto simp: mapped_def min_def split: if_splits)
    with fits q s sq show ?thesis by (simp add: vsnprintf_def bounded_def bind_wr_in put_update)
  next
    case cut
    then obtain k where n: "n = Suc k" by (cases n) auto
    with cut map have b: "0 < buf" "buf + k < length m" "k < length xs" by (auto simp: mapped_def min_def split: if_splits)
    have "put m buf (take n xs) = put m buf (take k xs @ [xs ! k])" using n b by (simp add: take_Suc_conv_app_nth)
    then have "(put m buf (take n xs))[buf + k := 0] = put m buf (take k xs @ [0])"
      using put_update [of buf "take k xs" m "xs ! k"] put_update [of buf "take k xs" m 0] b
      by (simp add: min_def) (metis list_update_overwrite)
    with cut s sq n b show ?thesis by (simp add: vsnprintf_def bounded_def wr_in)
  next
    case none
    with s sq show ?thesis by (simp add: vsnprintf_def bounded_def)
  qed
qed

section \<open>Printing and reading\<close>

lemma lcdigit:
  assumes "d < base" "base \<le> 16"
  shows "digitval (sint (lcdigits ! d)) = int d" "digit_byte (int base) (lcdigits ! d)" "lcdigits ! d \<noteq> 0"
    "\<not> space_byte (lcdigits ! d)" "lcdigits ! d \<notin> {45, 43, 120, 88}"
proof -
  from assms have "d = 0 \<or> d = 1 \<or> d = 2 \<or> d = 3 \<or> d = 4 \<or> d = 5 \<or> d = 6 \<or> d = 7 \<or> d = 8 \<or> d = 9 \<or> d = 10 \<or> d = 11
    \<or> d = 12 \<or> d = 13 \<or> d = 14 \<or> d = 15" by presburger
  then have *: "digitval (sint (lcdigits ! d)) = int d \<and> lcdigits ! d \<noteq> 0 \<and> \<not> space_byte (lcdigits ! d) \<and> lcdigits ! d \<notin> {45, 43, 120, 88}"
    by (elim disjE) (simp_all add: lcdigits_def digitval_def space_byte_def)
  then show "digitval (sint (lcdigits ! d)) = int d" "lcdigits ! d \<noteq> 0"
    "\<not> space_byte (lcdigits ! d)" "lcdigits ! d \<notin> {45, 43, 120, 88}" by blast+
  from * assms(1) show "digit_byte (int base) (lcdigits ! d)" by (simp add: digit_byte_digitval)
qed

lemma digits_value_Cons: "digits_value b (c # cs) = digitval (sint c) * b ^ length cs + digits_value b cs"
proof -
  have "foldl (\<lambda>v c. v * b + digitval (sint c)) a cs = a * b ^ length cs + foldl (\<lambda>v c. v * b + digitval (sint c)) 0 cs" for a
  proof (induction cs arbitrary: a)
    case (Cons c cs)
    show ?case using Cons [of "a * b + digitval (sint c)"] Cons [of "digitval (sint c)"] by (simp add: algebra_simps)
  qed simp
  from this [of "digitval (sint c)"] show ?thesis by (simp add: digits_value_digitval)
qed

definition plain_digits :: "nat \<Rightarrow> nat \<Rightarrow> nat \<Rightarrow> byte list" where
  "plain_digits base val k = rev (map (\<lambda>j. lcdigits ! (val div base ^ j mod base)) [0..<k])"

lemma plain_digits_Suc: "plain_digits base val (Suc k) = lcdigits ! (val div base ^ k mod base) # plain_digits base val k"
  by (simp add: plain_digits_def)

lemma plain_digits_value:
  assumes "0 < base" "base \<le> 16"
  shows "digits_value (int base) (plain_digits base val k) = int (val mod base ^ k)"
proof (induction k)
  case 0
  then show ?case by (simp add: plain_digits_def digits_value_digitval)
next
  case (Suc k)
  have "val mod base ^ Suc k = base ^ k * (val div base ^ k mod base) + val mod base ^ k"
    unfolding power_Suc2 by (rule mod_mult2_eq)
  moreover have "length (plain_digits base val k) = k" by (simp add: plain_digits_def)
  ultimately show ?case
    using Suc lcdigit(1) [of "val div base ^ k mod base" base] assms
    by (simp add: plain_digits_Suc digits_value_Cons mult.commute)
qed

lemma plain_digits_set:
  assumes "0 < base" "base \<le> 16" "c \<in> set (plain_digits base val k)"
  shows "digit_byte (int base) c" "c \<noteq> 0" "\<not> space_byte c" "c \<notin> {45, 43, 120, 88}"
proof -
  from assms(3) obtain j where "c = lcdigits ! (val div base ^ j mod base)" by (auto simp: plain_digits_def)
  with lcdigit [of "val div base ^ j mod base" base] assms(1,2)
  show "digit_byte (int base) c" "c \<noteq> 0" "\<not> space_byte c" "c \<notin> {45, 43, 120, 88}" by auto
qed

lemma umax_spec_plain:
  assumes "2 \<le> base" "base \<le> 16" "val < base ^ k" "0 < k"
  shows "umax_spec (int base) (plain_digits base val k) = (word_of_nat val, [])"
    and "umax_spec (int base) (45 # plain_digits base val k) = (- word_of_nat val, [])"
proof -
  let ?ds = "plain_digits base val k"
  have base: "0 < base" using assms(1) by simp
  note set = plain_digits_set [OF base assms(2)]
  obtain c cs where ds: "?ds = c # cs" using assms(4) plain_digits_Suc [of base val "k - 1"] by auto
  have "c \<in> set ?ds" using ds by simp
  from set(3,4) [OF this] have "\<not> space_byte c" "c \<noteq> 45 \<and> c \<noteq> 43" by auto
  then have 1: "dropWhile space_byte ?ds = ?ds" "split_sign ?ds = (False, ?ds)"
    "dropWhile space_byte (45 # ?ds) = 45 # ?ds" "split_sign (45 # ?ds) = (True, ?ds)"
    by (simp_all add: ds split_sign_def) (simp add: space_byte_def)
  have "\<not> starts_0x ?ds"
    using set(4) [of _ val k] unfolding ds by (cases cs) (auto simp: starts_0x_def)
  then have 2: "split_base (int base) ?ds = (int base, ?ds)" using assms(1) by (simp add: split_base_def)
  have 3: "takeWhile (digit_byte (int base)) ?ds = ?ds" "dropWhile (digit_byte (int base)) ?ds = []"
    using set(1) by (simp_all add: takeWhile_eq_all_conv)
  have 4: "digits_value (int base) ?ds = int val" using plain_digits_value [OF base assms(2), of val k] assms(3) by simp
  show "umax_spec (int base) ?ds = (word_of_nat val, [])" "umax_spec (int base) (45 # ?ds) = (- word_of_nat val, [])"
    unfolding umax_spec_def 1 2 Let_def prod.case 3 4 by simp_all
qed

lemma count_digits_0 [simp]: "count_digits base 0 = 0"
  by (subst count_digits.simps) simp

lemma count_digits_bounds:
  assumes "2 \<le> base"
  shows "val < base ^ count_digits base val" "val \<noteq> 0 \<Longrightarrow> base ^ (count_digits base val - 1) \<le> val"
proof -
  have "val < base ^ count_digits base val \<and> (val \<noteq> 0 \<longrightarrow> base ^ (count_digits base val - 1) \<le> val)"
    using assms
  proof (induction base val rule: count_digits.induct)
    case (1 base val)
    show ?case
    proof (cases "val = 0")
      case True
      then show ?thesis by simp
    next
      case False
      let ?k = "count_digits base (val div base)"
      have k: "count_digits base val = Suc ?k" using False 1(2) by (subst count_digits.simps) simp
      have IH: "val div base < base ^ ?k \<and> (val div base \<noteq> 0 \<longrightarrow> base ^ (?k - 1) \<le> val div base)"
        using 1 False by auto
      have "val < base ^ Suc ?k"
        using IH 1(2) by (simp add: div_less_iff_less_mult mult.commute)
      moreover have "base ^ ?k \<le> val"
      proof (cases "val div base = 0")
        case True
        then show ?thesis using False by simp
      next
        case nz: False
        then have "?k = Suc (?k - 1)" using count_digits_pos [of base "val div base"] 1(2) by simp
        then have "base ^ ?k = base * base ^ (?k - 1)" by (metis power_Suc)
        also have "\<dots> \<le> base * (val div base)" using IH nz by simp
        also have "\<dots> \<le> val" by simp
        finally show ?thesis .
      qed
      ultimately show ?thesis using k by simp
    qed
  qed
  then show "val < base ^ count_digits base val" "val \<noteq> 0 \<Longrightarrow> base ^ (count_digits base val - 1) \<le> val" by auto
qed

lemma count_digits_64:
  assumes "8 \<le> base" "val < 2 ^ 64"
  shows "count_digits base val \<le> 22"
proof (rule ccontr)
  assume "\<not> ?thesis"
  then have c: "22 \<le> count_digits base val - 1" by simp
  from c have nz: "val \<noteq> 0" by (intro notI) simp
  have "(8 :: nat) ^ 22 \<le> 8 ^ (count_digits base val - 1)" using c by (intro power_increasing) auto
  also have "\<dots> \<le> base ^ (count_digits base val - 1)" using assms(1) by (intro power_mono) auto
  also have "\<dots> \<le> val" using count_digits_bounds(2) [OF _ nz] assms(1) by simp
  finally show False using assms(2) by simp
qed


definition plain_number :: "nat \<Rightarrow> nat \<Rightarrow> byte list" where
  "plain_number base val = plain_digits base val (if val = 0 then 1 else count_digits base val)"

lemma num_string_plain:
  assumes "2 \<le> base" "\<not> FL_TICK flags" "\<not> FL_HASH flags" "\<not> FL_UPPER flags"
  shows "num_string flags base (- 1) val = plain_number base val"
proof -
  define k where "k = (if val = 0 then 1 else count_digits base val)"
  have k: "number_digits flags base (- 1) val = k"
    using assms by (auto simp: number_digits_def k_def)
  have "0 < k" using number_digits_pos [of base flags "- 1" val] assms(1) k by simp
  then have w: "num_width flags base (- 1) val = k" "tick_skip flags base k = k"
    using assms(2) by (simp_all add: num_width_def k tick_skip_def)
  have "num_char lcdigits base k val j = lcdigits ! (val div base ^ j mod base)" if "j < k" for j
    using that by (simp add: num_char_def)
  then have "map (num_char lcdigits base k val) [0..<k] = map (\<lambda>j. lcdigits ! (val div base ^ j mod base)) [0..<k]"
    by (intro map_cong) auto
  then show ?thesis
    using assms(4) by (simp add: num_string_def w k plain_number_def plain_digits_def flip: k_def)
qed

lemma plain_number:
  assumes "8 \<le> base" "base \<le> 16" "val < 2 ^ 64"
  shows "umax_spec (int base) (plain_number base val) = (word_of_nat val, [])"
    and "umax_spec (int base) (45 # plain_number base val) = (- word_of_nat val, [])"
    and "length (plain_number base val) \<le> 22" "0 \<notin> set (plain_number base val)"
proof -
  let ?k = "if val = 0 then 1 else count_digits base val"
  have "val < base ^ ?k" using count_digits_bounds(1) [of base val] assms(1) by auto
  moreover have "0 < ?k" using count_digits_pos [of base val] assms(1) by auto
  ultimately show "umax_spec (int base) (plain_number base val) = (word_of_nat val, [])"
    "umax_spec (int base) (45 # plain_number base val) = (- word_of_nat val, [])"
    using umax_spec_plain [of base val ?k] assms unfolding plain_number_def by linarith+
  show "length (plain_number base val) \<le> 22"
    using count_digits_64 [OF assms(1,3)] by (simp add: plain_number_def plain_digits_def)
  show "0 \<notin> set (plain_number base val)"
    using plain_digits_set(2) [of base] assms unfolding plain_number_def by fastforce
qed

text \<open>The conversions whose output can be read back, with their bases.\<close>

definition plain_conversion :: "byte \<Rightarrow> nat \<Rightarrow> bool" where
  "plain_conversion ch base \<longleftrightarrow> (ch, base) \<in> {(100, 10), (105, 10), (117, 10), (111, 8), (120, 16)}"

definition negative :: "byte \<Rightarrow> 64 word \<Rightarrow> bool" where
  "negative ch v \<longleftrightarrow> (ch = 100 \<or> ch = 105) \<and> sint v < 0"

lemma directive_long: "plain_conversion ch base \<Longrightarrow> directive [108, ch] ap =
    Some (\<lparr>pf_state = st_modifiers, pf_flags = no_flags, pf_rank = rank_long, pf_width = 0, pf_prec = - 1\<rparr>, ch, [], ap)"
  by (auto simp: plain_conversion_def directive_def fmt_number_def flag_char_def dec_char_def modifier_char_def modifier_rank_def no_flags_def Let_def)

lemma int_string_plain:
  assumes "8 \<le> base" "base \<le> 16"
  shows "int_string (no_flags\<lparr>FL_SIGNED := sg\<rparr>) base 0 (- 1) v =
    Some ((if sg \<and> sint v < 0 then [45] else []) @ plain_number base (unat (if sg \<and> sint v < 0 then - v else v)))"
proof -
  let ?fl = "no_flags\<lparr>FL_SIGNED := sg\<rparr>"
  have num: "num_string ?fl base (- 1) val = plain_number base val" for val
    using assms(1) by (intro num_string_plain) (auto simp: no_flags_def)
  have "length (plain_number base (unat w)) \<le> 22" for w :: "64 word"
    using assms unsigned_less [of w, where ?'a = nat] by (intro plain_number(3)) auto
  from this [of v] this [of "- v"] show ?thesis
    using assms unfolding int_string_def num by (simp add: Let_def sign_string_def prefix_string_def no_flags_def)
qed

lemma fmt_long:
  assumes "plain_conversion ch base"
  shows "fmt str [37, 108, ch] [VLong v] =
    Some ((if negative ch v then [45] else []) @ plain_number base (unat (if negative ch v then - v else v)))"
proof -
  let ?c = "\<lparr>pf_state = st_modifiers, pf_flags = no_flags, pf_rank = rank_long, pf_width = 0, pf_prec = - 1\<rparr>"
  have base: "8 \<le> base" "base \<le> 16" using assms by (auto simp: plain_conversion_def)
  have "pf_integer ch ?c [VLong v] = Some (Some ((no_flags\<lparr>FL_SIGNED := (ch = 100 \<or> ch = 105)\<rparr>, base, - 1, v), []))"
    using assms by (auto simp: plain_conversion_def pf_integer_def va_signed_def va_unsigned_def no_flags_def
      rank_char_def rank_short_def rank_int_def rank_long_def)
  then have "fmt_field str ch ?c [VLong v] =
    Some ((if negative ch v then [45] else []) @ plain_number base (unat (if negative ch v then - v else v)), [])"
    using int_string_plain [OF base, of "ch = 100 \<or> ch = 105" v] by (simp add: fmt_field_def negative_def)
  then show ?thesis using directive_long [OF assms] by simp
qed

section \<open>Properties\<close>

text \<open>C2: \<open>vsnprintf\<close> and \<open>snprintf\<close> implement the formatter \<open>fmt\<close>, which works on byte strings by the grammar of
  directives: for a format and string arguments apart from the buffer they end without a fault, write the first
  \<open>n - 1\<close> bytes of the output and a terminator and nothing else (nothing at all for \<open>n = 0\<close>), and return the length of the
  whole output. The buffer needs room for the bytes written only.\<close>

theorem vsnprintf_correct:
  assumes "fmt str fs ap = Some xs" "apart buf n (Suc (length xs)) m format fs" "strs_apart buf n (Suc (length xs)) m str"
    and "mapped m buf (min n (Suc (length xs)))"
  shows "vsnprintf m buf n format ap = Some (put m buf (bounded n xs), word_of_nat (length xs))
    \<and> snprintf m buf n format ap = vsnprintf m buf n format ap"
  using vsnprintf_fmt [OF assms] by (simp add: snprintf_def)

theorem vsnprintf_correct_witness:
  "vsnprintf [7, 0, 0, 0, 0, 0, 0, 37, 45, 52, 100, 124, 37, 115, 0, 97, 98, 0] 1 6 7 [VInt 42, VPtr 15]
    = Some ([7, 52, 50, 32, 32, 124, 0, 37, 45, 52, 100, 124, 37, 115, 0, 97, 98, 0], 7)"
proof -
  let ?m = "[7, 0, 0, 0, 0, 0, 0, 37, 45, 52, 100, 124, 37, 115, 0, 97, 98, 0] :: mem"
  let ?str = "\<lambda>p. if p = 15 then Some [97, 98] else None" and ?out = "[52, 50, 32, 32, 124, 97, 98] :: byte list"
  let ?c = "\<lparr>pf_state = st_modifiers, pf_flags = no_flags\<lparr>FL_MINUS := True\<rparr>, pf_rank = rank_int, pf_width = 4, pf_prec = - 1\<rparr>"
  have d: "directive [45, 52, 100, 124, 37, 115] ap = Some (?c, 100, [124, 37, 115], ap)" for ap
    by (simp add: directive_def fmt_number_def flag_char_def dec_char_def decimal_def modifier_char_def modifier_rank_def Let_def
      add_flags_def no_flags_def)
  have e: "directive [115] ap = Some (\<lparr>pf_state = st_modifiers, pf_flags = no_flags, pf_rank = rank_int, pf_width = 0, pf_prec = - 1\<rparr>, 115, [], ap)" for ap
    by (simp add: directive_def fmt_number_def flag_char_def dec_char_def decimal_def modifier_char_def modifier_rank_def Let_def
      add_flags_def no_flags_def)
  have "num_string (no_flags\<lparr>FL_MINUS := True, FL_SIGNED := True\<rparr>) 10 (- 1) 42 = plain_number 10 42"
    by (intro num_string_plain) (simp_all add: no_flags_def)
  moreover have "count_digits 10 42 = Suc (Suc 0)" by (simp add: count_digits.simps)
  ultimately have n: "num_string (no_flags\<lparr>FL_MINUS := True, FL_SIGNED := True\<rparr>) 10 (- 1) 42 = [52, 50]"
    by (simp add: plain_number_def plain_digits_Suc lcdigits_def) (simp add: plain_digits_def)
  have r: "replicate 2 (32 :: byte) = [32, 32]" by (simp add: numeral_2_eq_2)
  have f: "fmt_field ?str 100 ?c [VInt 42, VPtr 15] = Some ([52, 50, 32, 32], [VPtr 15])"
    using n r by (simp add: fmt_field_def pf_integer_def va_signed_def rank_int_def rank_char_def rank_short_def int_string_def Let_def
      sign_string_def prefix_string_def no_flags_def)
  have o: "fmt ?str [37, 45, 52, 100, 124, 37, 115] [VInt 42, VPtr 15] = Some ?out"
    using f by (simp add: d e) (simp add: fmt_field_def pf_integer_def pf_string_def string_field_def no_flags_def)
  have a: "apart 1 6 (Suc (length ?out)) ?m 7 [37, 45, 52, 100, 124, 37, 115]" "strs_apart 1 6 (Suc (length ?out)) ?m ?str"
    "mapped ?m 1 (min 6 (Suc (length ?out)))"
    by (auto simp: apart_def cstr_simps disjoint_ranges_def strs_apart_def mapped_def split: if_splits)
  from vsnprintf_correct [OF o a] show ?thesis by (simp add: bounded_def put_def)
qed

lemma vasprintf_fmt:
  assumes "fmt str fs ap = Some xs" "length xs < 2 ^ 31 - 1" "cstr m format fs" "strs_apart NULL 0 0 m str"
    and "malloc m (Suc (length xs)) = Some (m', p)"
    and "p \<noteq> NULL \<Longrightarrow> mapped m' p (Suc (length xs)) \<and> apart p (Suc (length xs)) (Suc (length xs)) m' format fs
      \<and> strs_apart p (Suc (length xs)) (Suc (length xs)) m' str"
  shows "vasprintf malloc m format ap = Some (if p = NULL then (m', NULL, - 1)
      else (put m' p (xs @ [0]), p, word_of_nat (length xs)))"
proof -
  let ?k = "Suc (length xs)"
  have 1: "vsnprintf m NULL 0 format ap = Some (m, word_of_nat (length xs))"
    using vsnprintf_fmt [OF assms(1), of NULL 0 m format] assms(3,4)
    by (simp add: apart_def strs_apart_def disjoint_ranges_def bounded_def)
  have "scast (word_of_nat ?k :: 32 word) = (word_of_nat ?k :: 64 word)" using assms(2) by (intro scast_of_nat) simp
  then have "unat (scast (word_of_nat (length xs) + 1 :: 32 word) :: 64 word) = ?k"
    using assms(2) unat_of_nat64 [of ?k] by (simp add: add.commute)
  moreover have "vsnprintf m' p ?k format ap = Some (put m' p (xs @ [0]), word_of_nat (length xs))" if "p \<noteq> NULL"
    using vsnprintf_fmt [OF assms(1), of p ?k m' format] assms(6) that by (simp add: bounded_def)
  ultimately show ?thesis using 1 assms(5) by (simp add: vasprintf_def)
qed

text \<open>\<open>vasprintf\<close> and \<open>asprintf\<close> allocate exactly the size of the output and its terminator and leave the
  whole output there, or return -1 when the allocator fails, for every allocator that hands out a mapped block apart from the
  format and the strings.\<close>

theorem vasprintf_correct:
  assumes "fmt str fs ap = Some xs" "length xs < 2 ^ 31 - 1" "cstr m format fs" "strs_apart NULL 0 0 m str"
    and "malloc m (Suc (length xs)) = Some (m', p)"
    and "p \<noteq> NULL \<Longrightarrow> mapped m' p (Suc (length xs)) \<and> apart p (Suc (length xs)) (Suc (length xs)) m' format fs
      \<and> strs_apart p (Suc (length xs)) (Suc (length xs)) m' str"
  shows "vasprintf malloc m format ap = Some (if p = NULL then (m', NULL, - 1)
      else (put m' p (xs @ [0]), p, word_of_nat (length xs)))
    \<and> asprintf malloc m format ap = vasprintf malloc m format ap"
proof
  show "vasprintf malloc m format ap = Some (if p = NULL then (m', NULL, - 1)
      else (put m' p (xs @ [0]), p, word_of_nat (length xs)))"
    using assms by (rule vasprintf_fmt)
  show "asprintf malloc m format ap = vasprintf malloc m format ap" by (simp add: vasprintf_def asprintf_def)
qed

theorem vasprintf_correct_witness:
  "vasprintf (\<lambda>m k. Some (m @ replicate k 9, length m)) [7, 37, 108, 120, 0] 1 [VLong 2748]
    = Some ([7, 37, 108, 120, 0, 97, 98, 99, 0], 5, 3)"
proof -
  let ?malloc = "\<lambda>m k. Some (m @ replicate k 9, length m) :: (mem \<times> addr) option"
  have "fmt (\<lambda>p. None) [37, 108, 120] [VLong 2748] = Some [97, 98, 99]"
    using fmt_long [of 120 16 "\<lambda>p. None" 2748]
    by (simp add: plain_conversion_def negative_def plain_number_def plain_digits_Suc lcdigits_def count_digits.simps)
      (simp add: plain_digits_def)
  from vasprintf_correct [OF this, of "[7, 37, 108, 120, 0]" 1 ?malloc] show ?thesis
    by (simp add: apart_def cstr_simps disjoint_ranges_def strs_apart_def mapped_def put_def numeral_3_eq_3)
qed

text \<open>C11: printing a 64-bit integer with \<^verbatim>\<open>%ld\<close>, \<^verbatim>\<open>%li\<close>, \<^verbatim>\<open>%lu\<close>, \<^verbatim>\<open>%lo\<close> or \<^verbatim>\<open>%lx\<close> and reading it in the same base with
  \<open>strtoul\<close> or \<open>strtol\<close> gives the integer back, for every value, and the end pointer is the end of the output; a buffer of 24
  bytes is always enough.\<close>

theorem print_read_roundtrip:
  assumes "plain_conversion ch base" "apart buf 24 24 m format [37, 108, ch]" "mapped m buf 24"
  shows "\<exists>m' r. snprintf m buf 24 format [VLong v] = Some (m', r) \<and> strtoul m' buf (int base) = Some (v, buf + unat r)
    \<and> strtol m' buf (int base) = Some (sint v, buf + unat r)"
proof -
  let ?neg = "negative ch v"
  define val where "val = unat (if ?neg then - v else v)"
  define xs where "xs = (if ?neg then [45] else []) @ plain_number base val"
  have base: "8 \<le> base" "base \<le> 16" using assms(1) by (auto simp: plain_conversion_def)
  have val: "val < 2 ^ 64" unfolding val_def using unsigned_less [where ?'a = nat and ?'b = 64] by simp
  note num = plain_number [OF base val]
  have f: "fmt (\<lambda>p. None) [37, 108, ch] [VLong v] = Some xs" using fmt_long [OF assms(1)] by (simp add: xs_def val_def)
  have len: "length xs \<le> 23" "0 \<notin> set xs" using num(3,4) by (auto simp: xs_def)
  have "apart buf 24 (Suc (length xs)) m format [37, 108, ch]" "mapped m buf (min 24 (Suc (length xs)))"
    using assms(2,3) len by (auto simp: apart_def disjoint_ranges_def mapped_def min_def)
  then have "vsnprintf m buf 24 format [VLong v] = Some (put m buf (bounded 24 xs), word_of_nat (length xs))"
    by (intro vsnprintf_fmt [OF f]) (auto simp: strs_apart_def)
  moreover have "bounded 24 xs = xs @ [0]" using len by (simp add: bounded_def)
  ultimately have s: "snprintf m buf 24 format [VLong v] = Some (put m buf (xs @ [0]), word_of_nat (length xs))"
    by (simp add: snprintf_def)
  have "cstr (put m buf (xs @ [0])) buf xs"
    using assms(3) len by (intro cstr_put) (auto simp: mapped_def)
  then have n: "nstr (put m buf (xs @ [0])) buf size_max xs"
    using nstr_cstr [of "put m buf (xs @ [0])" buf xs size_max] len(1) by (simp add: size_max_eq)
  have "umax_spec (int base) xs = (if ?neg then - word_of_nat val else word_of_nat val, [])"
    using num(1,2) by (simp add: xs_def)
  also have "\<dots> = (v, [])" by (simp add: val_def)
  finally have "strntoumax (put m buf (xs @ [0])) buf (int base) size_max = Some (v, buf + length xs)"
    using strntoumax_nstr [OF n, of "int base"] by simp
  moreover have "unat (word_of_nat (length xs) :: 32 word) = length xs" using len(1) by (simp add: unsigned_of_nat take_bit_nat_eq_self)
  ultimately show ?thesis using s by (simp add: strtoul_def strtol_def)
qed

theorem print_read_roundtrip_witness:
  "\<exists>m' r. snprintf ([7, 37, 108, 120, 0] @ replicate 24 9) 5 24 1 [VLong 2748] = Some (m', r) \<and> strtoul m' 5 16 = Some (2748, 5 + unat r)"
  using print_read_roundtrip [of 120 16 5 "[7, 37, 108, 120, 0] @ replicate 24 9" 1 2748]
  by (auto simp: plain_conversion_def apart_def disjoint_ranges_def mapped_def cstr_simps)

end
