(* ===== verification/Getopt.thy ===== *)
theory Getopt
  imports Printf
begin

text \<open>
  Command line options: \<^verbatim>\<open>libc/src/getopt.c\<close> and \<^verbatim>\<open>libc/src/getopt_long.c\<close>. The global variables and the private state of the
  functions are one record (\<^verbatim>\<open>opterr\<close>, which is never read, is left out). The vector of arguments is a list of pointers to strings in memory, with the terminating
  null pointer, and comes with its address, which the functions compare; reading beyond the vector is a fault.
\<close>

section \<open>Definitions\<close>

record opt_state =
  optarg :: addr
  optind :: int
  optopt :: int
  optptr :: addr
  last_optstring :: addr
  last_argv :: addr

definition argv_at :: "addr list \<Rightarrow> int \<Rightarrow> addr option" where
  "argv_at argv i = (if 0 \<le> i \<and> nat i < length argv then Some (argv ! nat i) else None)"

text \<open>The test that starts a new query.\<close>

definition opt_reset :: "int \<Rightarrow> addr \<Rightarrow> addr \<Rightarrow> opt_state \<Rightarrow> opt_state" where
  "opt_reset argc vec optstring g =
     (if optstring \<noteq> last_optstring g \<or> vec \<noteq> last_argv g \<or> optind g < 1 \<or> optind g > argc
      then g\<lparr>last_optstring := optstring, last_argv := vec, optind := 1, optptr := NULL\<rparr>
      else g)"

text \<open>The part on single letters, the same in both functions: \<open>opt_seek\<close> moves to a new argument, \<open>opt_take\<close> takes one letter.
  The difference of the pointers is an unsigned number, so it is large for a pointer below \<open>carg\<close>.\<close>

definition opt_seek :: "addr \<Rightarrow> nat \<Rightarrow> opt_state \<Rightarrow> opt_state" where
  "opt_seek carg l g = (if optptr g < carg \<or> optptr g - carg > l then g\<lparr>optptr := carg + 1\<rparr> else g)"

definition opt_take :: "mem \<Rightarrow> addr list \<Rightarrow> addr \<Rightarrow> opt_state \<Rightarrow> (int \<times> opt_state) option" where
  "opt_take m argv optstring g = do {
     ch \<leftarrow> rd m (optptr g);
     let opt = sint ch;
     let g = g\<lparr>optptr := optptr g + 1\<rparr>;
     osptr \<leftarrow> (if opt \<noteq> 58 then strchr m optstring (scast ch) else Some NULL);
     if osptr \<noteq> NULL then do {
       o1 \<leftarrow> rd m (osptr + 1);
       c \<leftarrow> rd m (optptr g);
       if o1 = 58 then
         if c \<noteq> 0 then Some (opt, g\<lparr>optarg := optptr g, optind := optind g + 1\<rparr>)
         else do {
           a \<leftarrow> argv_at argv (optind g + 1);
           if a \<noteq> NULL then Some (opt, g\<lparr>optarg := a, optind := optind g + 2\<rparr>)
           else do {
             o0 \<leftarrow> rd m optstring;
             Some (if o0 = 58 then 58 else 63, g\<lparr>optind := optind g + 1\<rparr>)
           }
         }
       else Some (opt, if c = 0 then g\<lparr>optind := optind g + 1\<rparr> else g)
     }
     else do {
       c \<leftarrow> rd m (optptr g);
       let g = g\<lparr>optopt := opt\<rparr>;
       Some (63, if c = 0 then g\<lparr>optind := optind g + 1\<rparr> else g)
     }
   }"

definition opt_letter :: "mem \<Rightarrow> addr list \<Rightarrow> addr \<Rightarrow> addr \<Rightarrow> opt_state \<Rightarrow> (int \<times> opt_state) option" where
  "opt_letter m argv optstring carg g = do {
     l \<leftarrow> strlen m carg;
     opt_take m argv optstring (opt_seek carg l g)
   }"

definition getopt :: "mem \<Rightarrow> int \<Rightarrow> addr \<Rightarrow> addr list \<Rightarrow> addr \<Rightarrow> opt_state \<Rightarrow> (int \<times> opt_state) option" where
  "getopt m argc vec argv optstring g = do {
     let g = opt_reset argc vec optstring g;
     carg \<leftarrow> argv_at argv (optind g);
     if carg = NULL then Some (- 1, g)
     else do {
       c0 \<leftarrow> rd m carg;
       if c0 \<noteq> 45 then Some (- 1, g)
       else do {
         c1 \<leftarrow> rd m (carg + 1);
         if c1 = 0 then Some (- 1, g)
         else do {
           ends \<leftarrow> (if c1 = 45 then do { c2 \<leftarrow> rd m (carg + 2); Some (c2 = 0) } else Some False);
           if ends then Some (- 1, g\<lparr>optind := optind g + 1\<rparr>)
           else opt_letter m argv optstring carg g
         }
       }
     }
   }"

record option_t =
  opt_name :: addr
  has_arg :: int
  opt_flag :: addr
  opt_val :: int

function option_matches :: "mem \<Rightarrow> addr \<Rightarrow> addr \<Rightarrow> addr option" where
  "option_matches m arg_str name = do {
     a \<leftarrow> rd m arg_str;
     b \<leftarrow> rd m name;
     if a \<noteq> 0 \<and> a \<noteq> 61 then
       if a \<noteq> b then Some NULL else option_matches m (arg_str + 1) (name + 1)
     else if b \<noteq> 0 then Some NULL
     else Some arg_str
   }"
  by pat_completeness auto
termination
  by (relation "measure (\<lambda>(m, p, q). length m - p)") auto

declare option_matches.simps [simp del]

text \<open>The loop over the long options: the option found with its index and the end of its name in the argument. A table without
  the terminating entry is read beyond its end.\<close>

fun find_long :: "mem \<Rightarrow> addr \<Rightarrow> option_t list \<Rightarrow> nat \<Rightarrow> (option_t \<times> nat \<times> addr) option option" where
  "find_long m arg [] i = None"
| "find_long m arg (lo # los) i =
     (if opt_name lo = NULL then Some None
      else do {
        e \<leftarrow> option_matches m arg (opt_name lo);
        if e \<noteq> NULL then Some (Some (lo, i, e)) else find_long m arg los (i + 1)
      })"

definition getopt_long :: "mem \<Rightarrow> int \<Rightarrow> addr \<Rightarrow> addr list \<Rightarrow> addr \<Rightarrow> option_t list \<Rightarrow> addr \<Rightarrow> opt_state \<Rightarrow> (int \<times> mem \<times> opt_state) option" where
  "getopt_long m argc vec argv optstring longopts longindex g = do {
     let g = opt_reset argc vec optstring g;
     carg \<leftarrow> argv_at argv (optind g);
     if carg = NULL then Some (- 1, m, g)
     else do {
       c0 \<leftarrow> rd m carg;
       if c0 \<noteq> 45 then Some (- 1, m, g)
       else do {
         c1 \<leftarrow> rd m (carg + 1);
         if c1 = 0 then Some (- 1, m, g)
         else if c1 = 45 then do {
           let g = g\<lparr>optind := optind g + 1\<rparr>;
           c2 \<leftarrow> rd m (carg + 2);
           if c2 = 0 then Some (- 1, m, g)
           else do {
             r \<leftarrow> find_long m (carg + 2) longopts 0;
             case r of
               None \<Rightarrow> Some (63, m, g)
             | Some (lo, i, opt_end) \<Rightarrow> do {
                 m \<leftarrow> (if longindex \<noteq> NULL then wr_bytes m longindex 4 i else Some m);
                 ce \<leftarrow> rd m opt_end;
                 a \<leftarrow> (if ce \<noteq> 61 \<and> has_arg lo = 1 then argv_at argv (optind g) else Some NULL);
                 let g = (if ce = 61 then if has_arg lo \<noteq> 0 then g\<lparr>optarg := opt_end + 1\<rparr> else g
                          else if has_arg lo = 1 then if a = NULL then g\<lparr>optarg := a\<rparr> else g\<lparr>optarg := a, optind := optind g + 1\<rparr>
                          else g);
                 if (if ce = 61 then has_arg lo = 0 else has_arg lo = 1 \<and> a = NULL) then Some (63, m, g)
                 else if opt_flag lo \<noteq> NULL then do {
                   m \<leftarrow> wr_bytes m (opt_flag lo) 4 (unat (word_of_int (opt_val lo) :: 32 word));
                   Some (0, m, g)
                 }
                 else Some (opt_val lo, m, g)
               }
           }
         }
         else do {
           (r, g) \<leftarrow> opt_letter m argv optstring carg g;
           Some (r, m, g)
         }
       }
     }
   }"

section \<open>Specification\<close>

text \<open>A state is what is left of the current group of letters and the arguments behind it.\<close>

datatype opt_event = Done | Flag byte | WithArg byte "byte list" | Missing byte | Unknown byte

definition takes_arg :: "byte list \<Rightarrow> byte \<Rightarrow> bool" where
  "takes_arg os c \<longleftrightarrow> take 1 (tl (dropWhile (\<lambda>x. x \<noteq> c) os)) = [58]"

definition opt_group :: "byte list \<Rightarrow> byte \<Rightarrow> byte list \<Rightarrow> byte list list \<Rightarrow> opt_event \<times> byte list \<times> byte list list" where
  "opt_group os c cl args =
     (if c = 58 \<or> c \<notin> set os then (Unknown c, cl, args)
      else if takes_arg os c then
        if cl \<noteq> [] then (WithArg c cl, [], args)
        else (case args of [] \<Rightarrow> (Missing c, [], []) | a # args \<Rightarrow> (WithArg c a, [], args))
      else (Flag c, cl, args))"

definition is_option :: "byte list \<Rightarrow> bool" where
  "is_option a \<longleftrightarrow> take 1 a = [45] \<and> 2 \<le> length a \<and> a \<noteq> [45, 45]"

fun opt_next :: "byte list \<Rightarrow> byte list \<times> byte list list \<Rightarrow> opt_event \<times> byte list \<times> byte list list" where
  "opt_next os (c # cl, args) = opt_group os c cl args"
| "opt_next os ([], []) = (Done, [], [])"
| "opt_next os ([], a # args) =
     (if is_option a then opt_group os (hd (tl a)) (tl (tl a)) args
      else (Done, [], if a = [45, 45] then args else a # args))"

fun opt_events :: "byte list \<Rightarrow> byte list \<times> byte list list \<Rightarrow> nat \<Rightarrow> opt_event list" where
  "opt_events os st 0 = []"
| "opt_events os st (Suc n) = fst (opt_next os st) # opt_events os (snd (opt_next os st)) n"

fun getopt_calls :: "mem \<Rightarrow> int \<Rightarrow> addr \<Rightarrow> addr list \<Rightarrow> addr \<Rightarrow> opt_state \<Rightarrow> nat \<Rightarrow> (int \<times> opt_state) list option" where
  "getopt_calls m argc vec argv optstring g 0 = Some []"
| "getopt_calls m argc vec argv optstring g (Suc n) = do {
     (r, g) \<leftarrow> getopt m argc vec argv optstring g;
     rs \<leftarrow> getopt_calls m argc vec argv optstring g n;
     Some ((r, g) # rs)
   }"

text \<open>What a call reports: the value returned, and the variable that goes with it.\<close>

fun reports :: "mem \<Rightarrow> byte list \<Rightarrow> opt_event \<Rightarrow> int \<times> opt_state \<Rightarrow> bool" where
  "reports m os Done (r, g) \<longleftrightarrow> r = - 1"
| "reports m os (Flag c) (r, g) \<longleftrightarrow> r = sint c"
| "reports m os (WithArg c a) (r, g) \<longleftrightarrow> r = sint c \<and> cstr m (optarg g) a"
| "reports m os (Missing c) (r, g) \<longleftrightarrow> r = (if take 1 os = [58] then 58 else 63)"
| "reports m os (Unknown c) (r, g) \<longleftrightarrow> r = 63 \<and> optopt g = sint c"

definition args_at :: "mem \<Rightarrow> addr list \<Rightarrow> byte list list \<Rightarrow> bool" where
  "args_at m argv args \<longleftrightarrow> length argv = Suc (length args) \<and> argv ! length args = NULL \<and>
     (\<forall>i < length args. cstr m (argv ! i) (args ! i)) \<and>
     (\<forall>i < length args. \<forall>j < length args. i \<noteq> j \<longrightarrow>
        disjoint_ranges (argv ! i) (Suc (length (args ! i))) (argv ! j) (Suc (length (args ! j))))"

definition outside :: "addr \<Rightarrow> addr \<Rightarrow> byte list \<Rightarrow> bool" where
  "outside p q a \<longleftrightarrow> p < q \<or> q + length a < p"

fun opt_rel :: "addr list \<Rightarrow> byte list list \<Rightarrow> opt_state \<Rightarrow> byte list \<times> byte list list \<Rightarrow> bool" where
  "opt_rel argv args g (cl, rest) \<longleftrightarrow> (\<exists>i. optind g = int i \<and> 1 \<le> i \<and> i \<le> length args \<and>
     (if cl = [] then rest = drop i args \<and> (\<forall>j. i \<le> j \<and> j < length args \<longrightarrow> outside (optptr g) (argv ! j) (args ! j))
      else i < length args \<and> is_option (args ! i) \<and> rest = drop (Suc i) args \<and>
        (\<exists>k. 1 \<le> k \<and> optptr g = argv ! i + k \<and> drop k (args ! i) = cl)))"

section \<open>Refinement\<close>

lemma strchr_byte:
  "cstr m s os \<Longrightarrow> c \<noteq> 0 \<Longrightarrow> strchr_loop m s c = Some (if c \<in> set os then s + length (takeWhile (\<lambda>x. x \<noteq> c) os) else NULL)"
  by (induction os arbitrary: s) (auto simp: cstr_simps strchr_loop.simps mem_simps)

lemma scast_byte: "ucast (scast (c :: byte) :: 32 word) = c"
proof (rule bit_word_eqI)
  fix n
  assume "n < LENGTH(8)"
  then have "n < 7 \<or> n = 7" by auto
  then show "bit (ucast (scast c :: 32 word) :: byte) n = bit c n" by (auto simp: bit_unsigned_iff bit_signed_iff)
qed

lemma sint_58: "sint c = 58 \<longleftrightarrow> c = (58 :: byte)"
  using signed_word_eqI [of c "58 :: byte"] by auto

lemma takes_arg_read:
  assumes "cstr m s os" "c \<in> set os"
  shows "m ! Suc (s + length (takeWhile (\<lambda>x. x \<noteq> c) os)) = 58 \<longleftrightarrow> takes_arg os c"
    and "Suc (s + length (takeWhile (\<lambda>x. x \<noteq> c) os)) < length m"
proof -
  let ?k = "length (takeWhile (\<lambda>x. x \<noteq> c) os)"
  have k: "?k < length os" using assms(2) by (induction os) auto
  have "dropWhile (\<lambda>x. x \<noteq> c) os = drop ?k os" by (simp add: dropWhile_eq_drop)
  then have t: "takes_arg os c \<longleftrightarrow> take 1 (drop (Suc ?k) os) = [58]" by (simp add: takes_arg_def drop_Suc tl_drop)
  have "cstr m (s + Suc ?k) (drop (Suc ?k) os)" using k by (intro cstr_drop [OF assms(1)]) simp
  with t show "m ! Suc (s + ?k) = 58 \<longleftrightarrow> takes_arg os c" "Suc (s + ?k) < length m"
    by (cases "drop (Suc ?k) os"; auto simp: cstr_simps)+
qed

lemma opt_rel_next:
  assumes "args_at m argv args" "i < length args" "i < i'" "i' \<le> length args" "optind g = int i'"
    and "argv ! i \<le> optptr g" "optptr g \<le> argv ! i + length (args ! i)"
  shows "opt_rel argv args g ([], drop i' args)"
proof -
  have "outside (optptr g) (argv ! j) (args ! j)" if "i' \<le> j" "j < length args" for j
  proof -
    have "disjoint_ranges (argv ! i) (Suc (length (args ! i))) (argv ! j) (Suc (length (args ! j)))"
      using assms(1-3) that by (auto simp: args_at_def)
    with assms(6,7) show ?thesis by (auto simp: disjoint_ranges_def outside_def)
  qed
  with assms show ?thesis by simp
qed

lemma opt_rel_more:
  assumes "args_at m argv args" "i < length args" "1 \<le> i" "is_option (args ! i)"
    and g: "optptr g = argv ! i + k" "1 \<le> k" "k \<le> length (args ! i)" "drop k (args ! i) = cl"
    and o: "optind g = int (if cl = [] then Suc i else i)"
  shows "opt_rel argv args g (cl, drop (Suc i) args)"
proof (cases "cl = []")
  case True
  then show ?thesis using opt_rel_next [OF assms(1,2), of "Suc i" g] g o assms(2) by simp
next
  case False
  then show ?thesis using assms by auto
qed

lemma opt_take_eq:
  assumes os: "cstr m optstring os" and p: "cstr m (optptr g) (c # cl)"
  shows "opt_take m argv optstring g =
    (let g1 = g\<lparr>optptr := Suc (optptr g)\<rparr> in
     if c = 58 \<or> c \<notin> set os then
       Some (63, if cl = [] then g1\<lparr>optopt := sint c, optind := optind g + 1\<rparr> else g1\<lparr>optopt := sint c\<rparr>)
     else if \<not> takes_arg os c then Some (sint c, if cl = [] then g1\<lparr>optind := optind g + 1\<rparr> else g1)
     else if cl \<noteq> [] then Some (sint c, g1\<lparr>optarg := Suc (optptr g), optind := optind g + 1\<rparr>)
     else do {
       a \<leftarrow> argv_at argv (optind g + 1);
       if a \<noteq> NULL then Some (sint c, g1\<lparr>optarg := a, optind := optind g + 2\<rparr>)
       else Some (if take 1 os = [58] then 58 else 63, g1\<lparr>optind := optind g + 1\<rparr>)
     })"
proof -
  have c: "m ! optptr g = c" "c \<noteq> 0" "cstr m (Suc (optptr g)) cl" "0 < optptr g" "Suc (optptr g) < length m"
    using p cstr_mapped [OF p] by (auto simp: cstr_Cons mapped_def)
  have z: "m ! Suc (optptr g) = 0 \<longleftrightarrow> cl = []" using c(3) by (cases cl) (auto simp: cstr_simps)
  have s: "strchr m optstring (scast c) = Some (if c \<in> set os then optstring + length (takeWhile (\<lambda>x. x \<noteq> c) os) else NULL)"
    using strchr_byte [OF os c(2)] by (simp add: strchr_def scast_byte)
  have o: "0 < optstring" "optstring < length m" "m ! optstring = 58 \<longleftrightarrow> take 1 os = [58]"
    using os by (cases os; auto simp: cstr_simps)+
  show ?thesis
    using c z s o takes_arg_read [OF os, of c] by (cases "c \<in> set os"; cases "argv_at argv (optind g + 1)") (auto simp: opt_take_def mem_simps Let_def sint_58)
qed

lemma opt_take_next:
  fixes argv args g i c cl k os
  defines "ev \<equiv> opt_group os c cl (drop (Suc i) args)"
  assumes args: "args_at m argv args" and os: "cstr m optstring os" and i: "optind g = int i" "1 \<le> i" "i < length args" "is_option (args ! i)"
    and k: "1 \<le> k" "optptr g = argv ! i + k" "drop k (args ! i) = c # cl"
  shows "\<exists>r g'. opt_take m argv optstring g = Some (r, g') \<and> reports m os (fst ev) (r, g') \<and> opt_rel argv args g' (snd ev) \<and>
    last_optstring g' = last_optstring g \<and> last_argv g' = last_argv g"
proof -
  have a: "cstr m (argv ! i) (args ! i)" using args i(3) by (simp add: args_at_def)
  have len: "length (args ! i) = Suc (k + length cl)" using arg_cong [OF k(3), of length] by simp
  have p: "cstr m (optptr g) (c # cl)" using cstr_drop [OF a, of k] len k by simp
  have d: "drop (Suc k) (args ! i) = cl" using k(3) by (metis drop_Suc tl_drop list.sel(3))
  have more: "opt_rel argv args g' (cl, drop (Suc i) args)"
    if "optptr g' = Suc (optptr g)" "optind g' = int (if cl = [] then Suc i else i)" for g'
    using that d len k(2) by (intro opt_rel_more [OF args i(3,2,4), of g' "Suc k"]) auto
  have nxt: "opt_rel argv args g' ([], drop i' args)"
    if "optptr g' = Suc (optptr g)" "optind g' = int i'" "i < i'" "i' \<le> length args" for g' i'
    using that len k(2) by (intro opt_rel_next [OF args i(3) that(3,4,2)]) auto
  have av: "argv_at argv (int i + 1) = Some (argv ! Suc i)" "argv ! Suc i = NULL \<longleftrightarrow> Suc i = length args"
    using args i(3) by (auto simp: argv_at_def args_at_def cstr_def nat_add_distrib) (metis Suc_lessI gr0_conv_Suc nat.distinct(1))
  note eq = opt_take_eq [OF os p, of argv]
  show ?thesis
  proof (cases "c = 58 \<or> c \<notin> set os \<or> \<not> takes_arg os c \<or> cl \<noteq> [] \<or> Suc i = length args")
    case True
    let ?g = "g\<lparr>optptr := Suc (optptr g)\<rparr>"
    have "opt_rel argv args (?g\<lparr>optarg := x, optind := int i + 1\<rparr>) ([], drop (Suc i) args)"
      "opt_rel argv args (?g\<lparr>optind := int i + 1\<rparr>) ([], drop (Suc i) args)" for x
      using i(3) by (intro nxt; simp)+
    moreover have "cl = [] \<Longrightarrow> opt_rel argv args (?g\<lparr>optopt := x, optind := int i + 1\<rparr>) (cl, drop (Suc i) args)"
      "cl = [] \<Longrightarrow> opt_rel argv args (?g\<lparr>optind := int i + 1\<rparr>) (cl, drop (Suc i) args)"
      "cl \<noteq> [] \<Longrightarrow> opt_rel argv args (?g\<lparr>optopt := x\<rparr>) (cl, drop (Suc i) args)"
      "cl \<noteq> [] \<Longrightarrow> opt_rel argv args ?g (cl, drop (Suc i) args)" for x
      using i(1) by (intro more; simp)+
    moreover have "cstr m (Suc (optptr g)) cl" using p by (simp add: cstr_Cons)
    ultimately show ?thesis using True eq av i(1) by (auto simp: ev_def opt_group_def Let_def simp del: opt_rel.simps)
  next
    case False
    let ?g = "g\<lparr>optptr := Suc (optptr g), optarg := argv ! Suc i, optind := int i + 2\<rparr>"
    have l: "Suc i < length args" using False i(3) by simp
    have "opt_take m argv optstring g = Some (sint c, ?g)" using False eq av i(1) by (simp add: Let_def)
    moreover have "opt_rel argv args ?g ([], drop (Suc (Suc i)) args)" using l by (intro nxt) auto
    moreover have "drop (Suc i) args = args ! Suc i # drop (Suc (Suc i)) args" using l by (simp add: Cons_nth_drop_Suc)
    moreover have "cstr m (argv ! Suc i) (args ! Suc i)" using args l by (simp add: args_at_def)
    ultimately show ?thesis using False by (simp add: ev_def opt_group_def)
  qed
qed

lemma getopt_carg:
  assumes "argv_at argv (optind g) = Some carg" "opt_reset argc vec optstring g = g" "cstr m carg a"
  shows "getopt m argc vec argv optstring g =
    (if is_option a then opt_take m argv optstring (opt_seek carg (length a) g)
     else Some (- 1, if a = [45, 45] then g\<lparr>optind := optind g + 1\<rparr> else g))"
proof -
  have "strlen m carg = Some (length a)" using assms(3) by (rule strlen_cstr)
  with assms show ?thesis
    by (cases a; cases "tl a"; cases "tl (tl a)") (auto simp: getopt_def opt_letter_def is_option_def cstr_simps mem_simps)
qed

lemma getopt_step:
  assumes args: "args_at m argv args" and os: "cstr m optstring os" and rel: "opt_rel argv args g st"
    and q: "last_optstring g = optstring" "last_argv g = vec"
  shows "\<exists>r g'. getopt m (int (length args)) vec argv optstring g = Some (r, g') \<and> reports m os (fst (opt_next os st)) (r, g') \<and>
    opt_rel argv args g' (snd (opt_next os st)) \<and> last_optstring g' = optstring \<and> last_argv g' = vec"
proof -
  obtain cl rest where st: "st = (cl, rest)" by (cases st)
  with rel obtain i where i: "optind g = int i" "1 \<le> i" "i \<le> length args" by auto
  have reset: "opt_reset (int (length args)) vec optstring g = g" using i q by (simp add: opt_reset_def)
  have carg: "argv_at argv (optind g) = Some (argv ! i)" using i args by (simp add: argv_at_def args_at_def)
  have letter: "getopt m (int (length args)) vec argv optstring g = opt_take m argv optstring (opt_seek (argv ! i) (length (args ! i)) g)"
    if "i < length args" "is_option (args ! i)"
    using getopt_carg [OF carg reset, of m "args ! i"] args that by (simp add: args_at_def)
  show ?thesis
  proof (cases cl)
    case (Cons c cl')
    with rel st i obtain k where k: "i < length args" "is_option (args ! i)" "rest = drop (Suc i) args"
      "1 \<le> k" "optptr g = argv ! i + k" "drop k (args ! i) = c # cl'"
      by auto
    moreover from k(6) have "k < length (args ! i)" by (metis drop_all list.distinct(1) not_le)
    ultimately show ?thesis
      using opt_take_next [OF args os i(1,2) k(1,2,4,5,6)] letter q Cons st by (simp add: opt_seek_def)
  next
    case Nil
    with rel st i have n: "rest = drop i args" "\<forall>j. i \<le> j \<and> j < length args \<longrightarrow> outside (optptr g) (argv ! j) (args ! j)" by auto
    show ?thesis
    proof (cases "i < length args \<and> is_option (args ! i)")
      case True
      then obtain c cl' where a: "args ! i = 45 # c # cl'" by (auto simp: is_option_def take_Suc numeral_2_eq_2 Suc_le_length_iff)
      have "opt_seek (argv ! i) (length (args ! i)) g = g\<lparr>optptr := argv ! i + 1\<rparr>"
        using n(2) True by (auto simp: opt_seek_def outside_def)
      moreover have "rest = (45 # c # cl') # drop (Suc i) args" using n(1) True a by (metis Cons_nth_drop_Suc)
      ultimately show ?thesis
        using opt_take_next [OF args os, of "g\<lparr>optptr := argv ! i + 1\<rparr>" i 1 c cl'] letter q Nil st i True a by simp
    next
      case False
      show ?thesis
      proof (cases "i = length args")
        case True
        with args carg reset have "getopt m (int (length args)) vec argv optstring g = Some (- 1, g)"
          by (simp add: getopt_def args_at_def)
        with True st Nil n rel q show ?thesis by simp
      next
        case l: False
        with i(3) have l: "i < length args" by simp
        let ?g = "if args ! i = [45, 45] then g\<lparr>optind := optind g + 1\<rparr> else g"
        have "getopt m (int (length args)) vec argv optstring g = Some (- 1, ?g)"
          using getopt_carg [OF carg reset, of m "args ! i"] args False l by (simp add: args_at_def)
        moreover have "rest = args ! i # drop (Suc i) args" using n(1) l by (simp add: Cons_nth_drop_Suc)
        moreover have "opt_rel argv args (g\<lparr>optind := optind g + 1\<rparr>) ([], drop (Suc i) args)"
          using l n(2) i by (auto intro!: exI [of _ "Suc i"])
        ultimately show ?thesis
          using False l st Nil rel q by (auto simp del: opt_rel.simps)
      qed
    qed
  qed
qed

lemma getopt_run:
  "args_at m argv args \<Longrightarrow> cstr m optstring os \<Longrightarrow> opt_rel argv args g st \<Longrightarrow> last_optstring g = optstring \<Longrightarrow> last_argv g = vec \<Longrightarrow>
   \<exists>rs. getopt_calls m (int (length args)) vec argv optstring g n = Some rs \<and> list_all2 (reports m os) (opt_events os st n) rs"
proof (induction n arbitrary: g st)
  case (Suc n)
  from getopt_step [OF Suc.prems] obtain r g' where
    s: "getopt m (int (length args)) vec argv optstring g = Some (r, g')" "reports m os (fst (opt_next os st)) (r, g')"
    "opt_rel argv args g' (snd (opt_next os st))" "last_optstring g' = optstring" "last_argv g' = vec"
    by blast
  from Suc.IH [OF Suc.prems(1,2) s(3-5)] obtain rs where
    "getopt_calls m (int (length args)) vec argv optstring g' n = Some rs" "list_all2 (reports m os) (opt_events os (snd (opt_next os st)) n) rs"
    by blast
  with s(1,2) show ?case by simp
qed simp

lemma opt_reset_rel:
  assumes "args_at m argv args" "args \<noteq> []" "optstring \<noteq> last_optstring g \<or> vec \<noteq> last_argv g"
  shows "opt_rel argv args (opt_reset (int (length args)) vec optstring g) ([], tl args)"
proof -
  have "0 < argv ! j" if "j < length args" for j using assms(1) that by (auto simp: args_at_def cstr_def)
  with assms(2,3) show ?thesis by (auto simp: opt_reset_def outside_def drop_Suc Suc_le_eq intro!: exI [of _ 1])
qed

subsection \<open>Long options\<close>

text \<open>A name matches if it is the text of the argument up to an equals sign or the end; the first entry of the table whose name
  matches is taken.\<close>

lemma option_matches_name:
  "cstr m p a \<Longrightarrow> cstr m q name \<Longrightarrow>
   option_matches m p q = Some (if takeWhile (\<lambda>c. c \<noteq> 61) a = name then p + length name else NULL)"
proof (induction a arbitrary: p q name)
  case Nil
  then show ?case by (cases name; subst option_matches.simps) (auto simp: cstr_simps mem_simps)
next
  case (Cons x a)
  then show ?case
    using Cons.IH [of "Suc p" "Suc q" "tl name"]
    by (cases name; subst option_matches.simps) (auto simp: cstr_simps mem_simps)
qed

lemma find_long_first:
  assumes "cstr m arg a" "opt_name z = NULL"
  shows "(\<forall>lo \<in> set los. cstr m (opt_name lo) (name lo)) \<Longrightarrow>
    find_long m arg (los @ [z]) i = Some (map_option (\<lambda>j. (los ! j, i + j, arg + length (name (los ! j))))
      (first_at (\<lambda>j. name (los ! j) = takeWhile (\<lambda>c. c \<noteq> 61) a) (length los)))"
proof (induction los arbitrary: i)
  case Nil
  then show ?case using assms(2) by (simp add: first_at_def)
next
  case (Cons lo los)
  have "0 < opt_name lo" "0 < arg" using Cons.prems assms(1) by (auto simp: cstr_def)
  then show ?case
    using option_matches_name [OF assms(1), of "opt_name lo" "name lo"] Cons by (auto simp: first_at_Suc option.map_comp comp_def)
qed

section \<open>Properties\<close>

text \<open>C7: a new query of \<open>getopt\<close> parses the command line: called any number of times on arguments that lie apart in memory,
  it never faults and reports the events of the grammar in order, with groups of letters, attached and separate
  arguments, missing arguments, unknown letters and the end of the options, whatever was parsed before.\<close>

theorem getopt_parses:
  assumes "args_at m argv args" "args \<noteq> []" "cstr m optstring os" "optstring \<noteq> last_optstring g \<or> vec \<noteq> last_argv g"
  shows "\<exists>rs. getopt_calls m (int (length args)) vec argv optstring g n = Some rs \<and>
    list_all2 (reports m os) (opt_events os ([], tl args) n) rs"
proof -
  let ?g = "opt_reset (int (length args)) vec optstring g"
  have "getopt_calls m (int (length args)) vec argv optstring ?g n = getopt_calls m (int (length args)) vec argv optstring g n"
    using assms(2) by (cases n) (simp_all add: getopt_def opt_reset_def Suc_le_eq)
  moreover have "last_optstring ?g = optstring" "last_argv ?g = vec" by (auto simp: opt_reset_def)
  ultimately show ?thesis
    using getopt_run [OF assms(1,3) opt_reset_rel [OF assms(1,2,4)], of vec n] by simp
qed

theorem getopt_parses_witness:
  "\<exists>g1 g2 g3. getopt_calls [7, 97, 0, 45, 118, 111, 102, 0, 120, 0, 118, 111, 58, 0] 3 90 [1, 3, 8, 0] 10
     \<lparr>optarg = 0, optind = 0, optopt = 0, optptr = 0, last_optstring = 0, last_argv = 0\<rparr> 3 =
     Some [(118, g1), (111, g2), (- 1, g3)] \<and> cstr [7, 97, 0, 45, 118, 111, 102, 0, 120, 0, 118, 111, 58, 0] (optarg g2) [102]"
proof -
  let ?m = "[7, 97, 0, 45, 118, 111, 102, 0, 120, 0, 118, 111, 58, 0] :: mem" and ?args = "[[97], [45, 118, 111, 102], [120]] :: byte list list"
  let ?g = "\<lparr>optarg = 0, optind = 0, optopt = 0, optptr = 0, last_optstring = 0, last_argv = 0\<rparr>"
  have "args_at ?m [1, 3, 8, 0] ?args" by (auto simp: args_at_def cstr_simps disjoint_ranges_def less_Suc_eq)
  moreover have "cstr ?m 10 [118, 111, 58]" by (simp add: cstr_simps)
  ultimately obtain rs where rs: "getopt_calls ?m 3 90 [1, 3, 8, 0] 10 ?g 3 = Some rs"
    "list_all2 (reports ?m [118, 111, 58]) (opt_events [118, 111, 58] ([], tl ?args) 3) rs"
    using getopt_parses [of ?m "[1, 3, 8, 0]" ?args 10 "[118, 111, 58]" ?g 90 3] by auto
  have "opt_events [118, 111, 58] ([], tl ?args) 3 = [Flag 118, WithArg 111 [102], Done]"
    by (simp add: numeral_3_eq_3 is_option_def opt_group_def takes_arg_def)
  with rs show ?thesis by (auto simp: list_all2_Cons1)
qed

end
