(* ===== verification/Sscanf.thy ===== *)
theory Sscanf
  imports Printf
begin

text \<open>
  Formatted input: \<^verbatim>\<open>libc/src/vsscanf.c\<close> and \<^verbatim>\<open>sscanf\<close>. The local variables of the C function are a record; one call of
  \<open>scan_step\<close> is one run of the body of its loop, and a \<open>True\<close> in front of the new state says that the character is
  processed again. The loop is a \<open>partial_function\<close>, because results are stored through pointers and may
  overwrite the format. In the configuration of \<^verbatim>\<open>klibc/poet.h\<close> the function ends in a failed assertion, \<open>None\<close>; the
  first argument says whether the original streams (\<^verbatim>\<open>KLIBC_STREAMS_ORIG\<close>) are configured instead.
\<close>

unbundle bit_operations_syntax

section \<open>Definitions\<close>

datatype bail = bail_none | bail_eof | bail_err

datatype scan_state = sc_normal | sc_flags | sc_width | sc_modifiers | sc_match_init | sc_match | sc_match_range

text \<open>The special rank of pointers is \<^verbatim>\<open>INT_MAX\<close>.\<close>

definition rank_ptr :: int where "rank_ptr = 2 ^ 31 - 1"

record scan =
  sc_mem :: mem
  sc_q :: addr
  sc_ap :: "varg list"
  sc_state :: scan_state
  sc_splat :: bool
  sc_given :: bool
  sc_rank :: int
  sc_wid :: "32 word"
  sc_sarg :: addr
  sc_bail :: bail
  sc_converted :: int
  sc_matchmap :: "64 word list"
  sc_matchinv :: bool
  sc_range :: byte

function skipspace :: "mem \<Rightarrow> addr \<Rightarrow> addr option" where
  "skipspace m p = do {
     c \<leftarrow> rd m p;
     sp \<leftarrow> isspace (uint c);
     if sp \<noteq> 0 then skipspace m (p + 1) else Some p
   }"
  by pat_completeness auto
termination
  by (relation "measure (\<lambda>(m, p). length m - p)") auto

definition set_bit :: "64 word list \<Rightarrow> nat \<Rightarrow> 64 word list" where
  "set_bit bitmap bt = bitmap[bt div 64 := (bitmap ! (bt div 64)) OR push_bit (bt mod 64) 1]"

definition test_bit :: "64 word list \<Rightarrow> nat \<Rightarrow> bool" where
  "test_bit bitmap bt \<longleftrightarrow> drop_bit (bt mod 64) (bitmap ! (bt div 64)) AND 1 \<noteq> 0"

subsection \<open>Conversions\<close>

text \<open>The label \<^verbatim>\<open>set_integer\<close>: the value is stored with the size of the rank.\<close>

definition scan_store :: "64 word \<Rightarrow> scan \<Rightarrow> scan option" where
  "scan_store val s =
     (if sc_splat s then Some s
      else do {
        (p, ap) \<leftarrow> va_ptr (sc_ap s);
        m \<leftarrow> wr_bytes (sc_mem s) p
          (if sc_rank s = rank_char then 1 else if sc_rank s = rank_short then 2 else if sc_rank s = rank_int then 4 else 8) (unat val);
        Some (s\<lparr>sc_mem := m, sc_ap := ap\<rparr>)
      })"

text \<open>The label \<^verbatim>\<open>scan_int\<close>.\<close>

definition scan_int :: "int \<Rightarrow> scan \<Rightarrow> scan option" where
  "scan_int base s = do {
     q \<leftarrow> skipspace (sc_mem s) (sc_q s);
     let s = s\<lparr>sc_q := q\<rparr>;
     c \<leftarrow> rd (sc_mem s) q;
     if c = 0 then Some (s\<lparr>sc_bail := bail_eof\<rparr>)
     else do {
       (val, qq) \<leftarrow> strntoumax (sc_mem s) q base (unat (sc_wid s));
       if qq = q then Some (s\<lparr>sc_bail := bail_err\<rparr>)
       else scan_store val (s\<lparr>sc_q := qq, sc_converted := sc_converted s + (if sc_splat s then 0 else 1)\<rparr>)
     }
   }"

text \<open>The loops of \<^verbatim>\<open>%c\<close>; the first one, for a dropped value, does not advance. The result says whether the end of the
  input was reached.\<close>

fun scan_c_splat :: "mem \<Rightarrow> addr \<Rightarrow> nat \<Rightarrow> bool option" where
  "scan_c_splat m q 0 = Some False"
| "scan_c_splat m q (Suc width) = do { c \<leftarrow> rd m q; if c = 0 then Some True else scan_c_splat m q width }"

fun scan_c_copy :: "mem \<Rightarrow> addr \<Rightarrow> addr \<Rightarrow> nat \<Rightarrow> (mem \<times> addr \<times> addr \<times> bool) option" where
  "scan_c_copy m q sarg 0 = Some (m, q, sarg, False)"
| "scan_c_copy m q sarg (Suc width) = do {
     c \<leftarrow> rd m q;
     if c = 0 then Some (m, q, sarg, True)
     else do { m \<leftarrow> wr m sarg c; scan_c_copy m (q + 1) (sarg + 1) width }
   }"

definition scan_char :: "scan \<Rightarrow> scan option" where
  "scan_char s = (let width = (if sc_given s then unat (sc_wid s) else 1) in
     if sc_splat s then do {
       eof \<leftarrow> scan_c_splat (sc_mem s) (sc_q s) width;
       Some (if eof then s\<lparr>sc_bail := bail_eof\<rparr> else s)
     }
     else do {
       (sarg, ap) \<leftarrow> va_ptr (sc_ap s);
       (m, q, sarg, eof) \<leftarrow> scan_c_copy (sc_mem s) (sc_q s) sarg width;
       let s = s\<lparr>sc_mem := m, sc_q := q, sc_ap := ap, sc_sarg := sarg\<rparr>;
       Some (if eof then s\<lparr>sc_bail := bail_eof\<rparr> else s\<lparr>sc_converted := sc_converted s + 1\<rparr>)
     })"

text \<open>The loops of \<^verbatim>\<open>%s\<close>, with and without storing; the last component is the last character looked at.\<close>

fun scan_s_loop :: "bool \<Rightarrow> mem \<Rightarrow> addr \<Rightarrow> addr \<Rightarrow> nat \<Rightarrow> byte \<Rightarrow> (mem \<times> addr \<times> addr \<times> byte) option" where
  "scan_s_loop splat m q sp 0 uc = Some (m, q, sp, uc)"
| "scan_s_loop splat m q sp (Suc width) uc = do {
     uc \<leftarrow> rd m q;
     space \<leftarrow> isspace (uint uc);
     if uc \<noteq> 0 \<and> space = 0 then
       (if splat then scan_s_loop splat m (q + 1) sp width uc
        else do { m \<leftarrow> wr m sp uc; scan_s_loop splat m (q + 1) (sp + 1) width uc })
     else Some (m, q, sp, uc)
   }"

definition scan_string :: "scan \<Rightarrow> scan option" where
  "scan_string s =
     (if sc_splat s then do {
        (m, q, _, uc) \<leftarrow> scan_s_loop True (sc_mem s) (sc_q s) NULL (unat (sc_wid s)) 1;
        let s = s\<lparr>sc_q := q\<rparr>;
        Some (if uc = 0 then s\<lparr>sc_bail := bail_eof\<rparr> else s)
      }
      else do {
        (sarg, ap) \<leftarrow> va_ptr (sc_ap s);
        (m, q, sp, uc) \<leftarrow> scan_s_loop False (sc_mem s) (sc_q s) sarg (unat (sc_wid s)) 1;
        m \<leftarrow> (if sarg \<noteq> sp then wr m sp 0 else Some m);
        let s = s\<lparr>sc_mem := m, sc_q := q, sc_ap := ap, sc_sarg := sarg,
          sc_converted := sc_converted s + (if sarg \<noteq> sp then 1 else 0)\<rparr>;
        Some (if uc = 0 then s\<lparr>sc_bail := bail_eof\<rparr> else s)
      })"

definition scan_convert :: "addr \<Rightarrow> byte \<Rightarrow> scan \<Rightarrow> scan option" where
  "scan_convert buffer ch s =
     (if ch = 80 \<or> ch = 112 then scan_int 0 (s\<lparr>sc_rank := rank_ptr\<rparr>)
      else if ch = 105 then scan_int 0 s
      else if ch = 100 then scan_int 10 s
      else if ch = 111 then scan_int 8 s
      else if ch = 117 then scan_int 10 s
      else if ch = 120 \<or> ch = 88 then scan_int 16 s
      else if ch = 110 then scan_store (word_of_nat (sc_q s - buffer)) s
      else if ch = 99 then scan_char s
      else if ch = 115 then scan_string s
      else if ch = 91 then do {
        (sarg, ap) \<leftarrow> (if sc_splat s then Some (NULL, sc_ap s) else va_ptr (sc_ap s));
        Some (s\<lparr>sc_sarg := sarg, sc_ap := ap, sc_state := sc_match_init, sc_matchinv := False, sc_matchmap := replicate 4 0\<rparr>)
      }
      else if ch = 37 then do {
        c \<leftarrow> rd (sc_mem s) (sc_q s);
        Some (if c = 37 then s\<lparr>sc_q := sc_q s + 1\<rparr> else s\<lparr>sc_bail := bail_err\<rparr>)
      }
      else Some (s\<lparr>sc_bail := bail_err\<rparr>))"

text \<open>The loop at the label \<^verbatim>\<open>match_run\<close>; the width is tested, but never counted down.\<close>

partial_function (option) match_loop :: "bool \<Rightarrow> 64 word list \<Rightarrow> bool \<Rightarrow> mem \<Rightarrow> addr \<Rightarrow> addr \<Rightarrow> byte \<Rightarrow> (mem \<times> addr \<times> addr \<times> byte) option" where
  [code]: "match_loop wide bitmap neg m q sarg uc =
     (if \<not> wide then Some (m, q, sarg, uc)
      else do {
        uc \<leftarrow> rd m q;
        if uc \<noteq> 0 \<and> test_bit bitmap (unat uc) \<noteq> neg then
          (if sarg \<noteq> NULL then do { m \<leftarrow> wr m sarg uc; match_loop wide bitmap neg m (q + 1) (sarg + 1) uc }
           else match_loop wide bitmap neg m (q + 1) sarg uc)
        else Some (m, q, sarg, uc)
      })"

definition match_run :: "scan \<Rightarrow> scan option" where
  "match_run s = do {
     (m, q, sarg, uc) \<leftarrow> match_loop (sc_wid s \<noteq> 0) (sc_matchmap s) (sc_matchinv s) (sc_mem s) (sc_q s) (sc_sarg s) 1;
     let hit = (q \<noteq> sc_q s \<and> sarg \<noteq> NULL);
     m \<leftarrow> (if hit then wr m sarg 0 else Some m);
     let s = s\<lparr>sc_mem := m, sc_q := q, sc_sarg := sarg\<rparr>;
     let s = (if hit then s\<lparr>sc_converted := sc_converted s + 1\<rparr> else s\<lparr>sc_bail := bail_err\<rparr>);
     Some (if uc = 0 then s\<lparr>sc_bail := bail_eof\<rparr> else s)
   }"

subsection \<open>The loop over the format\<close>

definition scan_modifier :: "byte \<Rightarrow> int \<Rightarrow> int option" where
  "scan_modifier ch rank =
     (if ch = 104 then Some (rank - 1)
      else if ch = 108 then Some (rank + 1)
      else if ch = 106 then Some rank_longlong
      else if ch = 122 then Some rank_long
      else if ch = 116 then Some rank_long
      else if ch = 76 \<or> ch = 113 then Some rank_longlong
      else None)"

definition scan_step :: "addr \<Rightarrow> byte \<Rightarrow> scan \<Rightarrow> (bool \<times> scan) option" where
  "scan_step buffer ch s = (case sc_state s of
     sc_normal \<Rightarrow>
       if ch = 37 then
         Some (False, s\<lparr>sc_state := sc_flags, sc_splat := False, sc_given := False, sc_rank := rank_int, sc_wid := - 1\<rparr>)
       else do {
         space \<leftarrow> isspace (uint ch);
         if space \<noteq> 0 then do { q \<leftarrow> skipspace (sc_mem s) (sc_q s); Some (False, s\<lparr>sc_q := q\<rparr>) }
         else do {
           c \<leftarrow> rd (sc_mem s) (sc_q s);
           Some (False, if c = ch then s\<lparr>sc_q := sc_q s + 1\<rparr> else s\<lparr>sc_bail := bail_err\<rparr>)
         }
       }
   | sc_flags \<Rightarrow>
       if ch = 42 then Some (False, s\<lparr>sc_splat := True\<rparr>)
       else if ch \<ge> 48 \<and> ch \<le> 57 then Some (False, s\<lparr>sc_wid := ucast ch - 48, sc_state := sc_width, sc_given := True\<rparr>)
       else Some (True, s\<lparr>sc_state := sc_modifiers\<rparr>)
   | sc_width \<Rightarrow>
       if ch \<ge> 48 \<and> ch \<le> 57 then Some (False, s\<lparr>sc_wid := sc_wid s * 10 + (ucast ch - 48)\<rparr>)
       else Some (True, s\<lparr>sc_state := sc_modifiers\<rparr>)
   | sc_modifiers \<Rightarrow>
       (case scan_modifier ch (sc_rank s) of
          Some rank \<Rightarrow> Some (False, s\<lparr>sc_rank := rank\<rparr>)
        | None \<Rightarrow> do {
            s \<leftarrow> scan_convert buffer ch (s\<lparr>sc_state := sc_normal, sc_rank := pf_canonical (sc_rank s)\<rparr>);
            Some (False, s)
          })
   | sc_match_init \<Rightarrow>
       Some (False, if ch = 94 then s\<lparr>sc_matchinv := True\<rparr>
         else s\<lparr>sc_matchmap := set_bit (sc_matchmap s) (unat ch), sc_state := sc_match\<rparr>)
   | sc_match \<Rightarrow>
       if ch = 93 then do { s \<leftarrow> match_run s; Some (False, s) }
       else if ch = 45 then Some (False, s\<lparr>sc_range := ch, sc_state := sc_match_range\<rparr>)
       else Some (False, s\<lparr>sc_matchmap := set_bit (sc_matchmap s) (unat ch)\<rparr>)
   | sc_match_range \<Rightarrow>
       if ch = 93 then do { s \<leftarrow> match_run (s\<lparr>sc_matchmap := set_bit (sc_matchmap s) 45\<rparr>); Some (False, s) }
       else Some (False, s\<lparr>sc_matchmap := foldl set_bit (sc_matchmap s) [unat (sc_range s)..<unat ch], sc_state := sc_match\<rparr>))"

partial_function (option) scan_loop :: "addr \<Rightarrow> addr \<Rightarrow> scan \<Rightarrow> scan option" where
  [code]: "scan_loop buffer p s = do {
     ch \<leftarrow> rd (sc_mem s) p;
     if ch = 0 \<or> sc_bail s \<noteq> bail_none then Some s
     else do {
       (again, s) \<leftarrow> scan_step buffer ch s;
       scan_loop buffer (if again then p else p + 1) s
     }
   }"

definition scan_init :: "mem \<Rightarrow> addr \<Rightarrow> varg list \<Rightarrow> scan" where
  "scan_init m buffer ap = \<lparr>sc_mem = m, sc_q = buffer, sc_ap = ap, sc_state = sc_normal, sc_splat = False, sc_given = False,
     sc_rank = rank_int, sc_wid = - 1, sc_sarg = NULL, sc_bail = bail_none, sc_converted = 0, sc_matchmap = replicate 4 0,
     sc_matchinv = False, sc_range = 0\<rparr>"

definition vsscanf :: "bool \<Rightarrow> mem \<Rightarrow> addr \<Rightarrow> addr \<Rightarrow> varg list \<Rightarrow> (mem \<times> int) option" where
  "vsscanf streams_orig m buffer format ap =
     (if \<not> streams_orig then None
      else do {
        s \<leftarrow> scan_loop buffer format (scan_init m buffer ap);
        Some (sc_mem s, if sc_bail s = bail_eof \<and> sc_converted s = 0 then - 1 else sc_converted s)
      })"

definition sscanf :: "bool \<Rightarrow> mem \<Rightarrow> addr \<Rightarrow> addr \<Rightarrow> varg list \<Rightarrow> (mem \<times> int) option" where
  "sscanf streams_orig m str format ap = vsscanf streams_orig m str format ap"

declare skipspace.simps [simp del]

section \<open>Lemmas\<close>

lemma ucast_byte_of_int: "ucast (word_of_int k :: 64 word) = (word_of_int k :: byte)"
  by transfer (simp add: min_def)

lemma skipspace_none: "cstr m q (c # cs) \<Longrightarrow> \<not> space_byte c \<Longrightarrow> skipspace m q = Some q"
  by (subst skipspace.simps) (simp add: cstr_Cons mem_simps isspace_byte)

lemma loop_step:
  assumes "cstr (sc_mem s) p (ch # fs)" "sc_bail s = bail_none"
  shows "scan_loop buffer p s = do { (again, s) \<leftarrow> scan_step buffer ch s; scan_loop buffer (if again then p else Suc p) s }"
  using assms unfolding Suc_eq_plus1 by (subst scan_loop.simps) (simp add: cstr_Cons mem_simps)

lemma loop_end: "cstr (sc_mem s) p [] \<Longrightarrow> scan_loop buffer p s = Some s"
  by (subst scan_loop.simps) (simp add: cstr_Nil mem_simps)

definition idle :: "scan \<Rightarrow> bool" where
  "idle s \<longleftrightarrow> sc_state s = sc_normal \<and> sc_bail s = bail_none"

lemma loop_literal:
  assumes "idle s" "cstr (sc_mem s) p (ch # fs)" "cstr (sc_mem s) (sc_q s) (ch # cs)" "ch \<noteq> 37" "\<not> space_byte ch"
  shows "scan_loop buffer p s = scan_loop buffer (Suc p) (s\<lparr>sc_q := Suc (sc_q s)\<rparr>)"
  using assms loop_step [OF assms(2), of buffer]
  by (simp add: scan_step_def idle_def isspace_byte cstr_Cons mem_simps)

lemma scan_int_decimal:
  assumes "cstr (sc_mem s) (sc_q s) (ds @ rest)" "ds \<noteq> []" "\<forall>c \<in> set ds. digit_byte 10 c"
    "rest = [] \<or> \<not> digit_byte 10 (hd rest)" "length ds \<le> unat (sc_wid s)" "\<not> sc_splat s"
  shows "scan_int 10 s = scan_store (word_of_int (digits_value 10 ds)) (s\<lparr>sc_q := sc_q s + length ds, sc_converted := sc_converted s + 1\<rparr>)"
proof -
  obtain c cs where ds: "ds = c # cs" using assms(2) by (cases ds) auto
  have c: "cstr (sc_mem s) (sc_q s) (c # cs @ rest)" using assms(1) ds by simp
  have "\<not> space_byte c" using digit10_plain assms(3) ds by simp
  then have sk: "skipspace (sc_mem s) (sc_q s) = Some (sc_q s)" using skipspace_none [OF c] by simp
  have st: "strntoumax (sc_mem s) (sc_q s) 10 (unat (sc_wid s)) = Some (word_of_int (digits_value 10 ds), sc_q s + length ds)"
    using assms by (intro strntoumax_decimal) auto
  have eq: "s\<lparr>sc_q := sc_q s\<rparr> = s" by simp
  show ?thesis
    using sk st c assms(2,6) unfolding scan_int_def by (simp add: eq cstr_Cons mem_simps)
qed

text \<open>One \<^verbatim>\<open>%hhu\<close>: the byte is stored, and the scan goes on behind the digits.\<close>

lemma loop_hhu:
  assumes "idle s" "cstr (sc_mem s) p ([37, 104, 104, 117] @ fs)" "cstr (sc_mem s) (sc_q s) (ds @ rest)" "ds \<noteq> []"
    "\<forall>c \<in> set ds. digit_byte 10 c" "rest = [] \<or> \<not> digit_byte 10 (hd rest)" "length ds < 2 ^ 32" "sc_ap s = VPtr d # ap"
    "mapped (sc_mem s) d 1"
  shows "\<exists>s'. scan_loop buffer p s = scan_loop buffer (p + 4) s' \<and> idle s' \<and>
    sc_mem s' = (sc_mem s)[d := word_of_int (digits_value 10 ds)] \<and> sc_q s' = sc_q s + length ds \<and> sc_ap s' = ap \<and>
    sc_converted s' = sc_converted s + 1"
proof -
  note c = assms(2) [simplified]
  have c1: "cstr (sc_mem s) (Suc p) (104 # 104 # 117 # fs)" and c2: "cstr (sc_mem s) (Suc (Suc p)) (104 # 117 # fs)"
    and c3: "cstr (sc_mem s) (Suc (Suc (Suc p))) (117 # fs)"
    using c by (simp_all add: cstr_Cons)
  have p4: "p + 4 = Suc (Suc (Suc (Suc p)))" by simp
  have st: "sc_state s = sc_normal" "sc_bail s = bail_none" using assms(1) by (auto simp: idle_def)
  let ?s0 = "s\<lparr>sc_state := sc_flags, sc_splat := False, sc_given := False, sc_rank := rank_int, sc_wid := - 1\<rparr>"
  let ?s1 = "?s0\<lparr>sc_state := sc_modifiers\<rparr>"
  let ?s2 = "?s1\<lparr>sc_rank := rank_int - 1\<rparr>" and ?s3 = "?s1\<lparr>sc_rank := rank_int - 1 - 1\<rparr>"
  let ?s4 = "?s1\<lparr>sc_state := sc_normal, sc_rank := rank_char\<rparr>"
  have "scan_loop buffer p s = scan_loop buffer (Suc p) ?s0"
    using loop_step [OF c st(2), of buffer] st(1) by (simp add: scan_step_def)
  also have "\<dots> = scan_loop buffer (Suc p) ?s1"
    using loop_step [of ?s0 "Suc p" 104 _ buffer] c1 st by (simp add: scan_step_def)
  also have "\<dots> = scan_loop buffer (Suc (Suc p)) ?s2"
    using loop_step [of ?s1 "Suc p" 104 _ buffer] c1 st by (simp add: scan_step_def scan_modifier_def)
  also have "\<dots> = scan_loop buffer (Suc (Suc (Suc p))) ?s3"
    using loop_step [of ?s2 "Suc (Suc p)" 104 _ buffer] c2 st by (simp add: scan_step_def scan_modifier_def)
  also have "\<dots> = do { s \<leftarrow> scan_int 10 ?s4; scan_loop buffer (Suc (Suc (Suc (Suc p)))) s }"
    using loop_step [of ?s3 "Suc (Suc (Suc p))" 117 _ buffer] c3 st
    by (simp add: scan_step_def scan_modifier_def scan_convert_def pf_canonical_def rank_char_def rank_int_def rank_longlong_def)
  also have "scan_int 10 ?s4 = scan_store (word_of_int (digits_value 10 ds)) (?s4\<lparr>sc_q := sc_q s + length ds, sc_converted := sc_converted s + 1\<rparr>)"
    using scan_int_decimal [of ?s4 ds rest] assms by (simp add: unsigned_minus_1_eq_mask mask_eq_exp_minus_1)
  also have "\<dots> = Some (?s4\<lparr>sc_q := sc_q s + length ds, sc_converted := sc_converted s + 1,
      sc_mem := (sc_mem s)[d := word_of_int (digits_value 10 ds)], sc_ap := ap\<rparr>)"
    using assms(8,9) by (simp add: scan_store_def mapped_def mem_simps ucast_byte_of_int)
  finally have "scan_loop buffer p s = scan_loop buffer (p + 4) (?s4\<lparr>sc_q := sc_q s + length ds, sc_converted := sc_converted s + 1,
      sc_mem := (sc_mem s)[d := word_of_int (digits_value 10 ds)], sc_ap := ap\<rparr>)" unfolding p4 by simp
  with st show ?thesis by (intro exI) (auto simp: idle_def)
qed

text \<open>Numbers separated by points, and the format that reads them into bytes.\<close>

fun dotted :: "byte list list \<Rightarrow> byte list" where
  "dotted [] = []"
| "dotted [ds] = ds"
| "dotted (ds # dss) = ds @ 46 # dotted dss"

fun hhus :: "'a list \<Rightarrow> byte list" where
  "hhus [] = []"
| "hhus [x] = [37, 104, 104, 117]"
| "hhus (x # xs) = [37, 104, 104, 117] @ 46 # hhus xs"

fun ptrs :: "addr \<Rightarrow> 'a list \<Rightarrow> varg list" where
  "ptrs d [] = []"
| "ptrs d (x # xs) = VPtr d # ptrs (Suc d) xs"

lemma digit10_46: "\<not> digit_byte 10 46"
  by (simp add: digit10)

lemma loop_dotted:
  "idle s \<Longrightarrow> dss \<noteq> [] \<Longrightarrow> cstr (sc_mem s) p (hhus dss) \<Longrightarrow> cstr (sc_mem s) (sc_q s) (dotted dss) \<Longrightarrow>
   \<forall>ds \<in> set dss. ds \<noteq> [] \<and> length ds < 2 ^ 32 \<and> (\<forall>c \<in> set ds. digit_byte 10 c) \<Longrightarrow>
   sc_ap s = ptrs d dss \<Longrightarrow> mapped (sc_mem s) d (length dss) \<Longrightarrow>
   disjoint_ranges d (length dss) p (Suc (length (hhus dss))) \<Longrightarrow>
   disjoint_ranges d (length dss) (sc_q s) (Suc (length (dotted dss))) \<Longrightarrow>
   \<exists>s'. scan_loop buffer p s = Some s' \<and> sc_mem s' = put (sc_mem s) d (map (\<lambda>ds. word_of_int (digits_value 10 ds)) dss) \<and>
     sc_bail s' = bail_none \<and> sc_converted s' = sc_converted s + int (length dss)"
proof (induction dss arbitrary: s p d rule: dotted.induct)
  case (2 ds)
  let ?v = "word_of_int (digits_value 10 ds) :: byte"
  have m: "mapped (sc_mem s) d 1" using 2(7) by simp
  obtain s' where s': "scan_loop buffer p s = scan_loop buffer (p + 4) s'" "idle s'" "sc_mem s' = (sc_mem s)[d := ?v]"
    "sc_converted s' = sc_converted s + 1"
    using loop_hhu [of s p "[]" ds "[]" d "[]" buffer] 2 m by auto
  have "cstr (sc_mem s) (p + 4) []" using cstr_drop [OF 2(3), of 4] by simp
  then have "cstr (sc_mem s') (p + 4) []"
    unfolding s'(3) using 2(8) by (intro cstr_update_out) (auto simp: disjoint_ranges_def)
  with s' loop_end show ?case using m by (auto simp: put_single mapped_def idle_def)
next
  case (3 ds ds' dss)
  let ?v = "\<lambda>ds. word_of_int (digits_value 10 ds) :: byte" and ?r = "ds' # dss"
  have m: "mapped (sc_mem s) d 1" using 3(8) by (rule mapped_mono) simp
  have ap: "sc_ap s = VPtr d # ptrs (Suc d) ?r" using 3(7) by simp
  obtain s1 where s1: "scan_loop buffer p s = scan_loop buffer (p + 4) s1" "idle s1" "sc_mem s1 = (sc_mem s)[d := ?v ds]"
    "sc_q s1 = sc_q s + length ds" "sc_ap s1 = ptrs (Suc d) ?r" "sc_converted s1 = sc_converted s + 1"
    using loop_hhu [of s p "46 # hhus ?r" ds "46 # dotted ?r" d _ buffer] 3 m ap digit10_46 by auto
  have f1: "cstr (sc_mem s1) (p + 4) (46 # hhus ?r)"
    unfolding s1(3) using cstr_drop [OF 3(4), of 4] 3(9) by (intro cstr_update_out) (auto simp: disjoint_ranges_def)
  have q1: "cstr (sc_mem s1) (sc_q s1) (46 # dotted ?r)"
    unfolding s1(3,4) using cstr_drop [OF 3(5), of "length ds"] 3(10) by (intro cstr_update_out) (auto simp: disjoint_ranges_def)
  let ?s2 = "s1\<lparr>sc_q := Suc (sc_q s1)\<rparr>"
  have l: "scan_loop buffer (p + 4) s1 = scan_loop buffer (Suc (p + 4)) ?s2"
    using f1 q1 s1(2) by (intro loop_literal) (auto simp: space_byte_def)
  have "\<exists>s'. scan_loop buffer (Suc (p + 4)) ?s2 = Some s' \<and> sc_mem s' = put (sc_mem ?s2) (Suc d) (map ?v ?r) \<and>
     sc_bail s' = bail_none \<and> sc_converted s' = sc_converted ?s2 + int (length ?r)"
  proof (rule 3(1))
    show "idle ?s2" using s1(2) by (simp add: idle_def)
    show "cstr (sc_mem ?s2) (Suc (p + 4)) (hhus ?r)" "cstr (sc_mem ?s2) (sc_q ?s2) (dotted ?r)"
      using f1 q1 by (simp_all add: cstr_Cons)
    show "mapped (sc_mem ?s2) (Suc d) (length ?r)" using 3(8) s1(3) by (auto simp: mapped_def)
    show "disjoint_ranges (Suc d) (length ?r) (Suc (p + 4)) (Suc (length (hhus ?r)))"
      using 3(9) by (auto simp: disjoint_ranges_def)
    show "disjoint_ranges (Suc d) (length ?r) (sc_q ?s2) (Suc (length (dotted ?r)))"
      using 3(10) s1(4) by (auto simp: disjoint_ranges_def)
  qed (use 3 s1 in auto)
  moreover have "put (sc_mem ?s2) (Suc d) (map ?v ?r) = put (sc_mem s) d (map ?v (ds # ?r))"
    using 3(8) s1(3) put_Cons [of d "map ?v ?r" "sc_mem s" "?v ds"] by (simp add: mapped_def)
  ultimately show ?case using s1(1,6) l by auto
qed simp

lemma vsscanf_dotted:
  assumes "dss \<noteq> []" "cstr m format (hhus dss)" "cstr m buffer (dotted dss)"
    "\<forall>ds \<in> set dss. ds \<noteq> [] \<and> length ds < 2 ^ 32 \<and> (\<forall>c \<in> set ds. digit_byte 10 c)" "mapped m d (length dss)"
    "disjoint_ranges d (length dss) format (Suc (length (hhus dss)))" "disjoint_ranges d (length dss) buffer (Suc (length (dotted dss)))"
  shows "vsscanf True m buffer format (ptrs d dss) =
    Some (put m d (map (\<lambda>ds. word_of_int (digits_value 10 ds)) dss), int (length dss))"
  using loop_dotted [of "scan_init m buffer (ptrs d dss)" dss format d buffer] assms
  by (auto simp: vsscanf_def scan_init_def idle_def)

section \<open>Scan sets\<close>

lemma test_bit_iff: "test_bit bm i \<longleftrightarrow> bit (bm ! (i div 64)) (i mod 64)"
  by (simp add: test_bit_def bit_iff_odd_drop_bit and_one_eq odd_iff_mod_2_eq_one)

lemma length_set_bit [simp]: "length (set_bit bm i) = length bm"
  by (simp add: set_bit_def)

lemma test_set_bit:
  assumes "length bm = 4" "i < 256" "j < 256"
  shows "test_bit (set_bit bm i) j \<longleftrightarrow> i = j \<or> test_bit bm j"
proof -
  have "i div 64 < 4" using assms(2) by simp
  moreover have "i = j \<longleftrightarrow> i div 64 = j div 64 \<and> i mod 64 = j mod 64"
    by (metis div_mult_mod_eq)
  ultimately show ?thesis
    using assms(1) by (auto simp: test_bit_iff set_bit_def nth_list_update bit_or_iff bit_exp_iff possible_bit_word)
qed

lemma test_set_bits:
  assumes "length bm = 4" "\<forall>i \<in> set is. i < 256" "j < 256"
  shows "test_bit (foldl set_bit bm is) j \<longleftrightarrow> j \<in> set is \<or> test_bit bm j"
  using assms
proof (induction "is" arbitrary: bm)
  case (Cons i "is")
  then show ?case using Cons.IH [of "set_bit bm i"] by (auto simp: test_set_bit)
qed simp

text \<open>In a scan set that starts with a range, as in \<^verbatim>\<open>%[0-9]\<close>, the loop takes the dash itself for the start of the range and
  leaves out its end: the set that is matched is the first character and everything from the dash up to, but
  without, the last character.\<close>

theorem scanset_range:
  assumes "sc_state s = sc_match_init" "sc_matchmap s = replicate 4 0" "a \<noteq> 94" "b \<noteq> 93"
  shows "\<exists>s1 s2 s3. scan_step buffer a s = Some (False, s1) \<and> scan_step buffer 45 s1 = Some (False, s2) \<and>
    scan_step buffer b s2 = Some (False, s3) \<and> sc_state s3 = sc_match \<and>
    (\<forall>c :: byte. test_bit (sc_matchmap s3) (unat c) \<longleftrightarrow> c = a \<or> 45 \<le> c \<and> c < b)"
proof -
  let ?bm = "set_bit (replicate 4 0) (unat a)"
  have "test_bit (foldl set_bit ?bm [45..<unat b]) (unat c) \<longleftrightarrow> c = a \<or> 45 \<le> c \<and> c < b" for c
  proof -
    have "\<forall>i \<in> set [45..<unat b]. i < 256" using unat_byte [of b] by auto
    moreover have "\<not> test_bit (replicate 4 0) (unat c)"
      using unat_byte [of c] by (simp add: test_bit_iff div_less_iff_less_mult)
    ultimately show ?thesis
      using test_set_bits [of ?bm "[45..<unat b]" "unat c"] test_set_bit [of "replicate 4 0" "unat a" "unat c"] unat_byte [of a] unat_byte [of c]
      by (auto simp: word_le_nat_alt word_less_nat_alt unat_eq_iff)
  qed
  then show ?thesis using assms by (simp add: scan_step_def)
qed

theorem scanset_range_witness:
  "\<exists>s1 s2 s3. scan_step 1 48 ((scan_init [] 1 [])\<lparr>sc_state := sc_match_init\<rparr>) = Some (False, s1) \<and> scan_step 1 45 s1 = Some (False, s2) \<and>
    scan_step 1 57 s2 = Some (False, s3) \<and> \<not> test_bit (sc_matchmap s3) (unat (57 :: byte)) \<and> test_bit (sc_matchmap s3) (unat (46 :: byte))"
proof -
  let ?s = "(scan_init [] 1 [])\<lparr>sc_state := sc_match_init\<rparr>"
  obtain s1 s2 s3 where "scan_step 1 48 ?s = Some (False, s1)" "scan_step 1 45 s1 = Some (False, s2)" "scan_step 1 57 s2 = Some (False, s3)"
    and c: "\<And>c :: byte. test_bit (sc_matchmap s3) (unat c) \<longleftrightarrow> c = 48 \<or> 45 \<le> c \<and> c < 57"
    using scanset_range [of ?s 48 57 1] by (auto simp: scan_init_def)
  with c [of 57] c [of 46] show ?thesis by auto
qed

end
