(* ===== verification/Inet.thy ===== *)
theory Inet
  imports Sscanf
begin

text \<open>
  Internet addresses as text: \<^verbatim>\<open>libc/src/inet/inet_aton.c\<close>, \<^verbatim>\<open>inet_addr.c\<close>, \<^verbatim>\<open>inet_ntoa.c\<close>, \<^verbatim>\<open>inet_ntop.c\<close> and \<^verbatim>\<open>inet_pton.c\<close>, built on
  \<^verbatim>\<open>sscanf\<close> and \<^verbatim>\<open>snprintf\<close>. The addresses of string literals, of static buffers and of local variables whose address is
  taken are arguments. An IPv4 address is the 32-bit word \<^verbatim>\<open>s_addr\<close> as it lies in memory on a little endian machine.
\<close>

section \<open>Definitions\<close>

definition AF_INET :: int where "AF_INET = 2"
definition AF_INET6 :: int where "AF_INET6 = 10"
definition ENOSPC :: int where "ENOSPC = 28"
definition EAFNOSUPPORT :: int where "EAFNOSUPPORT = 97"

definition load32 :: "mem \<Rightarrow> addr \<Rightarrow> 32 word option" where
  "load32 m p = do {
     a \<leftarrow> rd m p;
     b \<leftarrow> rd m (p + 1);
     c \<leftarrow> rd m (p + 2);
     d \<leftarrow> rd m (p + 3);
     Some (word_of_nat (unat a + 2 ^ 8 * unat b + 2 ^ 16 * unat c + 2 ^ 24 * unat d))
   }"

text \<open>Byte \<open>i\<close> of an address.\<close>

definition addr_byte :: "32 word \<Rightarrow> nat \<Rightarrow> byte" where
  "addr_byte a i = ucast (drop_bit (8 * i) a)"

definition byte_arg :: "byte \<Rightarrow> varg" where
  "byte_arg b = VInt (ucast b)"

definition inet_aton :: "bool \<Rightarrow> addr \<Rightarrow> addr \<Rightarrow> mem \<Rightarrow> addr \<Rightarrow> addr \<Rightarrow> (mem \<times> int) option" where
  "inet_aton streams_orig form a m str adr = do {
     (m, r) \<leftarrow> sscanf streams_orig m str form [VPtr a, VPtr (a + 1), VPtr (a + 2), VPtr (a + 3)];
     if r = 4 then do { l \<leftarrow> load32 m a; m \<leftarrow> wr_bytes m adr 4 (unat l); Some (m, 1) }
     else Some (m, 0)
   }"

definition INADDR_NONE :: "32 word" where "INADDR_NONE = 0xffffffff"

definition inet_addr :: "bool \<Rightarrow> addr \<Rightarrow> addr \<Rightarrow> addr \<Rightarrow> mem \<Rightarrow> addr \<Rightarrow> (mem \<times> 32 word) option" where
  "inet_addr streams_orig form a loc m str = do {
     (m, rv) \<leftarrow> inet_aton streams_orig form a m str loc;
     if rv \<noteq> 0 then do { l \<leftarrow> load32 m loc; Some (m, l) } else Some (m, INADDR_NONE)
   }"

definition inet_ntoa :: "addr \<Rightarrow> addr \<Rightarrow> mem \<Rightarrow> 32 word \<Rightarrow> (mem \<times> addr) option" where
  "inet_ntoa form name m adr = do {
     (m, _) \<leftarrow> sprintf m name form [byte_arg (addr_byte adr 0), byte_arg (addr_byte adr 1), byte_arg (addr_byte adr 2), byte_arg (addr_byte adr 3)];
     Some (m, name)
   }"

text \<open>The arguments of the IPv6 format: eight numbers of two bytes in network order.\<close>

fun ntohs_args :: "mem \<Rightarrow> addr \<Rightarrow> nat \<Rightarrow> varg list option" where
  "ntohs_args m p 0 = Some []"
| "ntohs_args m p (Suc k) = do {
     hi \<leftarrow> rd m p;
     lo \<leftarrow> rd m (p + 1);
     ap \<leftarrow> ntohs_args m (p + 2) k;
     Some (VInt (word_of_nat (256 * unat hi + unat lo)) # ap)
   }"

text \<open>The result is the memory, the pointer and the error number, if one is set.\<close>

definition inet_ntop :: "addr \<Rightarrow> addr \<Rightarrow> mem \<Rightarrow> int \<Rightarrow> addr \<Rightarrow> addr \<Rightarrow> nat \<Rightarrow> (mem \<times> addr \<times> int option) option" where
  "inet_ntop fmt4 fmt6 m af cp buf len =
     (if af = AF_INET \<or> af = AF_INET6 then do {
        (m, xlen) \<leftarrow>
          (if af = AF_INET then do {
             b0 \<leftarrow> rd m cp;
             b1 \<leftarrow> rd m (cp + 1);
             b2 \<leftarrow> rd m (cp + 2);
             b3 \<leftarrow> rd m (cp + 3);
             snprintf m buf len fmt4 [byte_arg b0, byte_arg b1, byte_arg b2, byte_arg b3]
           }
           else do { ap \<leftarrow> ntohs_args m cp 8; snprintf m buf len fmt6 ap });
        if unat (scast xlen :: 64 word) > len then Some (m, NULL, Some ENOSPC) else Some (m, buf, None)
      }
      else Some (m, NULL, Some EAFNOSUPPORT))"

definition hexval :: "int \<Rightarrow> int" where
  "hexval ch = (if 48 \<le> ch \<and> ch \<le> 57 then ch - 48
     else if 65 \<le> ch \<and> ch \<le> 70 then ch - 65 + 10
     else if 97 \<le> ch \<and> ch \<le> 102 then ch - 97 + 10 else - 1)"

text \<open>The first loop of \<^verbatim>\<open>inet_pton\<close>: the numbers of colons and double colons; \<open>Some None\<close> for an invalid character.\<close>

function pton_count :: "mem \<Rightarrow> addr \<Rightarrow> int \<Rightarrow> int \<Rightarrow> (int \<times> int) option option" where
  "pton_count m p colons dcolons = do {
     c \<leftarrow> rd m p;
     if c = 0 then Some (Some (colons, dcolons))
     else if c = 58 then do {
       c1 \<leftarrow> rd m (p + 1);
       pton_count m (p + 1) (colons + 1) (if c1 = 58 then dcolons + 1 else dcolons)
     }
     else do {
       x \<leftarrow> isxdigit (sint c);
       if x = 0 then Some None else pton_count m (p + 1) colons dcolons
     }
   }"
  by pat_completeness auto
termination
  by (relation "measure (\<lambda>(m, p, colons, dcolons). length m - p)") auto

text \<open>The second loop; \<open>d\<close> is the address of the result and \<open>i\<close> the index of the group of two bytes.\<close>

function pton_fill :: "mem \<Rightarrow> addr \<Rightarrow> addr \<Rightarrow> int \<Rightarrow> int \<Rightarrow> mem option" where
  "pton_fill m d p colons i = do {
     c \<leftarrow> rd m p;
     if c = 0 then Some m
     else if c = 58 then do {
       c1 \<leftarrow> rd m (p + 1);
       pton_fill m d (p + 1) colons (if c1 = 58 then i + (8 - colons) else i + 1)
     }
     else if 0 \<le> i \<and> i < 8 then do {
       hi \<leftarrow> rd m (d + 2 * nat i);
       lo \<leftarrow> rd m (d + 2 * nat i + 1);
       let v = (uint hi * 256 + uint lo) * 16 + hexval (sint c);
       m \<leftarrow> wr m (d + 2 * nat i) (word_of_int (v div 256));
       m \<leftarrow> wr m (d + 2 * nat i + 1) (word_of_int v);
       pton_fill m d (p + 1) colons i
     }
     else None
   }"
  by pat_completeness auto
termination
  by (relation "measure (\<lambda>(m, d, p, colons, i). length m - p)") auto

text \<open>Both loops of the IPv6 case start at \<^verbatim>\<open>dst\<close>, not at \<^verbatim>\<open>src\<close>.\<close>

definition inet_pton :: "bool \<Rightarrow> addr \<Rightarrow> addr \<Rightarrow> mem \<Rightarrow> int \<Rightarrow> addr \<Rightarrow> addr \<Rightarrow> (mem \<times> int \<times> int option) option" where
  "inet_pton streams_orig form a m af src dst =
     (if af = AF_INET then do { (m, r) \<leftarrow> inet_aton streams_orig form a m src dst; Some (m, r, None) }
      else if af = AF_INET6 then do {
        r \<leftarrow> pton_count m dst 0 0;
        case r of
          None \<Rightarrow> Some (m, 0, None)
        | Some (colons, dcolons) \<Rightarrow>
            if colons > 7 \<or> dcolons > 1 \<or> (dcolons = 0 \<and> colons \<noteq> 7) then Some (m, 0, None)
            else do {
              (m, _) \<leftarrow> memset m dst 0 16;
              m \<leftarrow> pton_fill m dst dst colons 0;
              Some (m, 1, None)
            }
      }
      else Some (m, - 1, Some EAFNOSUPPORT))"

declare pton_count.simps [simp del] pton_fill.simps [simp del]

section \<open>Printing and reading addresses\<close>

definition fields :: "32 word \<Rightarrow> byte list list" where
  "fields adr = map (\<lambda>i. plain_number 10 (unat (addr_byte adr i))) [0, 1, 2, 3]"

definition ntoa_format :: "byte list" where
  "ntoa_format = [37, 117, 46, 37, 117, 46, 37, 117, 46, 37, 117]"

definition aton_format :: "byte list" where
  "aton_format = [37, 104, 104, 117, 46, 37, 104, 104, 117, 46, 37, 104, 104, 117, 46, 37, 104, 104, 117]"

lemma directive_u: "directive (117 # fs) ap =
    Some (\<lparr>pf_state = st_modifiers, pf_flags = no_flags, pf_rank = rank_int, pf_width = 0, pf_prec = - 1\<rparr>, 117, fs, ap)"
  by (simp add: directive_def fmt_number_def flag_char_def dec_char_def decimal_def modifier_char_def modifier_rank_def add_flags_def no_flags_def Let_def)

lemma fmt_u: "fmt str (37 # 117 # fs) (VInt w # ap) = map_option ((@) (plain_number 10 (unat w))) (fmt str fs ap)"
proof -
  let ?c = "\<lparr>pf_state = st_modifiers, pf_flags = no_flags, pf_rank = rank_int, pf_width = 0, pf_prec = - 1\<rparr>"
  have "no_flags\<lparr>FL_SIGNED := False\<rparr> = no_flags" by (simp add: no_flags_def)
  then have "int_string no_flags 10 0 (- 1) (ucast w) = Some (plain_number 10 (unat w))"
    using int_string_plain [of 10 False "ucast w"] unsigned_less [of w, where ?'a = nat]
    by (simp add: unsigned_ucast_eq take_bit_nat_eq_self)
  then have "fmt_field str 117 ?c (VInt w # ap) = Some (plain_number 10 (unat w), ap)"
    by (simp add: fmt_field_def pf_integer_def va_unsigned_def rank_char_def rank_short_def rank_int_def Let_def)
  then show ?thesis by (cases "fmt str fs ap") (simp_all add: directive_u)
qed

lemma fmt_dot: "fmt str (46 # fs) ap = map_option ((#) 46) (fmt str fs ap)"
  by simp

lemma unat_byte_arg: "unat (ucast (b :: byte) :: 32 word) = unat b"
  using unat_byte [of b] by (simp add: unsigned_ucast_eq take_bit_nat_eq_self)

lemma fmt_quad:
  "fmt str ntoa_format [byte_arg b0, byte_arg b1, byte_arg b2, byte_arg b3]
   = Some (dotted (map (\<lambda>b. plain_number 10 (unat b)) [b0, b1, b2, b3]))"
  by (simp add: ntoa_format_def byte_arg_def fmt_u fmt_dot unat_byte_arg del: fmt.simps(2))

lemma fmt_address:
  "fmt str ntoa_format [byte_arg (addr_byte adr 0), byte_arg (addr_byte adr 1), byte_arg (addr_byte adr 2), byte_arg (addr_byte adr 3)]
   = Some (dotted (fields adr))"
  unfolding fmt_quad by (simp add: fields_def)

lemma byte_number:
  fixes b :: byte
  defines "ds \<equiv> plain_number 10 (unat b)"
  shows "ds \<noteq> []" "length ds \<le> 3" "\<forall>c \<in> set ds. digit_byte 10 c" "word_of_int (digits_value 10 ds) = b"
proof -
  let ?v = "unat b" and ?k = "if unat b = 0 then 1 else count_digits 10 (unat b)"
  have v: "?v < 256" by (rule unat_byte)
  have k: "?v < 10 ^ ?k" "0 < ?k" using count_digits_bounds(1) [of 10 ?v] count_digits_pos [of 10 ?v] by auto
  have "?k \<le> 3"
  proof (rule ccontr)
    assume "\<not> ?thesis"
    then have "?v \<noteq> 0" "3 \<le> count_digits 10 ?v - 1" by (auto split: if_splits)
    then have "10 ^ 3 \<le> (10 :: nat) ^ (count_digits 10 ?v - 1)" by (intro power_increasing) auto
    with count_digits_bounds(2) [of 10 ?v] \<open>?v \<noteq> 0\<close> v show False by simp
  qed
  moreover have len: "length ds = ?k" by (simp add: ds_def plain_number_def plain_digits_def)
  ultimately show "ds \<noteq> []" "length ds \<le> 3" using k(2) by auto
  show "\<forall>c \<in> set ds. digit_byte 10 c" using plain_digits_set(1) [of 10] by (auto simp: ds_def plain_number_def)
  have "digits_value 10 ds = int ?v"
    using plain_digits_value [of 10 ?v ?k] k(1) by (simp add: ds_def plain_number_def)
  then show "word_of_int (digits_value 10 ds) = b" by simp
qed

lemma quad_length: "length (dotted (map (\<lambda>b. plain_number 10 (unat b)) [b0, b1, b2, b3 :: byte])) \<le> 15"
  using byte_number(2) [of b0] byte_number(2) [of b1] byte_number(2) [of b2] byte_number(2) [of b3] by simp

lemma fields_length: "length (dotted (fields adr)) \<le> 15"
  using quad_length [of "addr_byte adr 0" "addr_byte adr 1" "addr_byte adr 2" "addr_byte adr 3"] by (simp add: fields_def)

lemma fields_nonzero: "0 \<notin> set (dotted (fields adr))"
proof -
  have "0 \<notin> set (plain_number 10 (unat b))" for b :: byte
    using plain_number(4) [of 10 "unat b"] unat_byte [of b] by simp
  then show ?thesis by (simp add: fields_def)
qed

lemma fields_values:
  "map (\<lambda>ds. word_of_int (digits_value 10 ds)) (fields adr) = [addr_byte adr 0, addr_byte adr 1, addr_byte adr 2, addr_byte adr 3]"
  by (simp add: fields_def byte_number(4))

lemma inet_ntoa_dotted:
  assumes "cstr m form ntoa_format" "mapped m name 16" "disjoint_ranges name 16 form 12"
  shows "inet_ntoa form name m adr = Some (put m name (dotted (fields adr) @ [0]), name)"
proof -
  let ?xs = "dotted (fields adr)"
  have "apart name (2 ^ 64 - 1) (Suc (length ?xs)) m form ntoa_format" "mapped m name (min (2 ^ 64 - 1) (Suc (length ?xs)))"
    using assms fields_length [of adr] by (auto simp: apart_def disjoint_ranges_def mapped_def ntoa_format_def)
  note s = vsnprintf_fmt [OF fmt_address [of "\<lambda>p. None"] this(1) _ this(2)]
  moreover have "bounded (2 ^ 64 - 1) ?xs = ?xs @ [0]" using fields_length [of adr] by (simp add: bounded_def)
  ultimately show ?thesis by (simp add: inet_ntoa_def sprintf_def strs_apart_def)
qed

lemma unat_addr_byte: "unat (addr_byte adr i) = unat adr div 2 ^ (8 * i) mod 2 ^ 8"
  unfolding addr_byte_def unsigned_ucast_eq unat_drop_bit by (simp add: take_bit_eq_mod)

lemma four_bytes:
  fixes n :: nat
  shows "n mod 256 + 256 * (n div 256 mod 256) + 65536 * (n div 65536 mod 256) + 16777216 * (n div 16777216) = n"
proof -
  define a b c where abc: "a = n div 256" "b = a div 256" "c = b div 256"
  have d: "n div 65536 = b" "n div 16777216 = c" by (simp_all add: abc flip: div_mult2_eq)
  have lin: "x + 256 * y + 65536 * z + 16777216 * c = n" if "n = x + 256 * a" "a = y + 256 * b" "b = z + 256 * c" for x y z
    using that by simp
  show ?thesis unfolding d abc(1) [symmetric] by (rule lin) (simp_all add: abc)
qed

lemma addr_of_bytes:
  "word_of_nat (unat (addr_byte adr 0) + 2 ^ 8 * unat (addr_byte adr 1) + 2 ^ 16 * unat (addr_byte adr 2) + 2 ^ 24 * unat (addr_byte adr 3)) = adr"
proof -
  let ?n = "unat adr"
  have "?n < 2 ^ 32" using unsigned_less [of adr, where ?'a = nat] by simp
  moreover note unat_addr_byte
  ultimately have "unat (addr_byte adr 0) + 2 ^ 8 * unat (addr_byte adr 1) + 2 ^ 16 * unat (addr_byte adr 2) + 2 ^ 24 * unat (addr_byte adr 3) = ?n"
    using four_bytes [of ?n] by (simp add: less_mult_imp_div_less)
  then show ?thesis by simp
qed

lemma load32_put:
  assumes "0 < p" "p + 4 \<le> length m"
  shows "load32 (put m p [addr_byte adr 0, addr_byte adr 1, addr_byte adr 2, addr_byte adr 3]) p = Some adr"
  using assms addr_of_bytes [of adr] by (simp add: load32_def mem_simps nth_put)

lemma wr_bytes_word:
  assumes "0 < p" "p + 4 \<le> length m"
  shows "wr_bytes m p 4 (unat adr) = Some (put m p [addr_byte adr 0, addr_byte adr 1, addr_byte adr 2, addr_byte adr 3])"
proof -
  have four: "(4 :: nat) = Suc (Suc (Suc (Suc 0)))" by simp
  have b: "word_of_nat (unat adr div 2 ^ (8 * i)) = addr_byte adr i" for i
    by (simp add: word_unat_eq_iff unat_addr_byte unsigned_of_nat take_bit_eq_mod)
  have "put m p [addr_byte adr 0, addr_byte adr 1, addr_byte adr 2, addr_byte adr 3]
    = m[p := addr_byte adr 0, p + 1 := addr_byte adr 1, p + 2 := addr_byte adr 2, p + 3 := addr_byte adr 3]"
    using assms by (intro nth_equalityI) (auto simp: nth_put nth_list_update nth_Cons')
  with b [of 0] b [of 1] b [of 2] b [of 3] show ?thesis
    unfolding four using assms by (simp add: mem_simps numeral_3_eq_3 flip: div_mult2_eq)
qed

lemma inet_aton_dotted:
  assumes "cstr m form aton_format" "cstr m str (dotted (fields adr))" "mapped m a 4" "mapped m out 4"
    "disjoint_ranges a 4 form 20" "disjoint_ranges a 4 str 16"
  shows "\<exists>m'. inet_aton True form a m str out = Some (m', 1) \<and> load32 m' out = Some adr"
proof -
  let ?bs = "[addr_byte adr 0, addr_byte adr 1, addr_byte adr 2, addr_byte adr 3]"
  have f: "hhus (fields adr) = aton_format" "ptrs a (fields adr) = [VPtr a, VPtr (a + 1), VPtr (a + 2), VPtr (a + 3)]" "length (fields adr) = 4"
    "fields adr \<noteq> []"
    by (simp_all add: fields_def aton_format_def)
  have d: "\<forall>ds \<in> set (fields adr). ds \<noteq> [] \<and> length ds < 2 ^ 32 \<and> (\<forall>c \<in> set ds. digit_byte 10 c)"
    using byte_number(1,3) le_less_trans [OF byte_number(2)] by (auto simp: fields_def)
  have "disjoint_ranges a 4 str (Suc (length (dotted (fields adr))))" "disjoint_ranges a 4 form (Suc (length aton_format))"
    using assms(5,6) fields_length [of adr] by (auto simp: disjoint_ranges_def aton_format_def)
  with vsscanf_dotted [OF f(4), of m form str a] assms(1-3) d f
  have "vsscanf True m str form [VPtr a, VPtr (a + 1), VPtr (a + 2), VPtr (a + 3)] = Some (put m a ?bs, 4)"
    unfolding fields_values by simp
  moreover have "load32 (put m a ?bs) a = Some adr" using assms(3) by (intro load32_put) (auto simp: mapped_def)
  moreover have "length (put m a ?bs) = length m" using assms(3) by (simp add: mapped_def)
  ultimately show ?thesis
    using wr_bytes_word [of out "put m a ?bs" adr] load32_put [of out "put m a ?bs" adr] assms(4)
    by (simp add: inet_aton_def sscanf_def mapped_def)
qed

lemma inet_aton_False: "inet_aton False form a m str out = None"
  by (simp add: inet_aton_def sscanf_def vsscanf_def)

section \<open>Properties\<close>

text \<open>C27: in a library built with \<^verbatim>\<open>KLIBC_STREAMS_ORIG\<close>, printing an address with \<open>inet_ntoa\<close> and reading the text back gives
  the address, for all addresses: \<open>inet_ntoa\<close> stays within its 16 bytes, \<open>inet_aton\<close> succeeds on its result and stores the
  address, and \<open>inet_addr\<close> returns it. In the library as it is configured only the printing works: \<open>inet_aton\<close> and
  \<open>inet_addr\<close> stop at the failing assertion of \<open>vsscanf\<close>, whatever they are given.\<close>

theorem inet_roundtrip:
  assumes "cstr m form4 ntoa_format" "cstr m form aton_format" "mapped m name 16" "mapped m a 4" "mapped m out 4"
    "disjoint_ranges name 16 form4 12" "disjoint_ranges name 16 form 20" "disjoint_ranges a 4 form 20" "disjoint_ranges a 4 name 16"
  shows "\<exists>xs m2. length xs \<le> 16 \<and> inet_ntoa form4 name m adr = Some (put m name xs, name) \<and>
    inet_aton True form a (put m name xs) name out = Some (m2, 1) \<and> load32 m2 out = Some adr \<and>
    inet_addr True form a out (put m name xs) name = Some (m2, adr) \<and>
    inet_aton False form a m1 str out = None \<and> inet_addr False form a out m1 str = None"
proof -
  let ?xs = "dotted (fields adr) @ [0]"
  have len: "length ?xs \<le> 16" using fields_length [of adr] by simp
  have "cstr (put m name ?xs) form aton_format"
    using assms(2,3,7) len by (intro cstr_put_out) (auto simp: mapped_def disjoint_ranges_def aton_format_def)
  moreover have "cstr (put m name ?xs) name (dotted (fields adr))"
    using assms(3) len fields_nonzero by (intro cstr_put) (auto simp: mapped_def)
  moreover have "length (put m name ?xs) = length m" using assms(3) len by (auto simp: mapped_def)
  ultimately obtain m2 where "inet_aton True form a (put m name ?xs) name out = Some (m2, 1)" "load32 m2 out = Some adr"
    using inet_aton_dotted [of "put m name ?xs" form name adr a out] assms(4,5,8,9) by (auto simp: mapped_def)
  with inet_ntoa_dotted [OF assms(1,3,6)] len show ?thesis
    by (intro exI [of _ ?xs] exI [of _ m2]) (simp add: inet_addr_def inet_aton_False)
qed

theorem inet_roundtrip_witness:
  "\<exists>xs m2. inet_ntoa 1 33 ([7] @ ntoa_format @ [0] @ aton_format @ replicate 26 0) 0x0100007f =
      Some (put ([7] @ ntoa_format @ [0] @ aton_format @ replicate 26 0) 33 xs, 33) \<and>
    inet_addr True 13 49 53 (put ([7] @ ntoa_format @ [0] @ aton_format @ replicate 26 0) 33 xs) 33 = Some (m2, 0x0100007f)"
proof -
  let ?m = "[7] @ ntoa_format @ [0] @ aton_format @ replicate 26 0"
  have "cstr ?m 1 ntoa_format" "cstr ?m 13 aton_format" "length ?m = 58"
    by (simp_all add: ntoa_format_def aton_format_def cstr_simps)
  then show ?thesis using inet_roundtrip [of ?m 1 13 33 49 53 "0x0100007f" ?m 33] by (auto simp: mapped_def disjoint_ranges_def)
qed

text \<open>\<open>inet_ntop\<close> for IPv4 writes the dotted form, cut to the room of the buffer, and reports \<open>ENOSPC\<close> only when the text
  is longer than the buffer: for a text exactly as long as the buffer the result is reported as valid although its last
  character is cut off.\<close>

theorem inet_ntop_ipv4:
  fixes m cp
  defines "xs \<equiv> dotted (map (\<lambda>i. plain_number 10 (unat (m ! (cp + i)))) [0, 1, 2, 3])"
  assumes "cstr m form4 ntoa_format" "mapped m cp 4" "mapped m buf len" "disjoint_ranges buf len form4 12"
  shows "inet_ntop form4 form6 m AF_INET cp buf len =
    Some (put m buf (bounded len xs), if length xs > len then NULL else buf, if length xs > len then Some ENOSPC else None)"
proof -
  let ?ap = "[byte_arg (m ! cp), byte_arg (m ! (cp + 1)), byte_arg (m ! (cp + 2)), byte_arg (m ! (cp + 3))]"
  have f: "fmt (\<lambda>p. None) ntoa_format ?ap = Some xs" unfolding fmt_quad by (simp add: xs_def)
  have "apart buf len (Suc (length xs)) m form4 ntoa_format" "mapped m buf (min len (Suc (length xs)))"
    using assms(2,4,5) by (auto simp: apart_def disjoint_ranges_def mapped_def ntoa_format_def)
  from vsnprintf_fmt [OF f this(1) _ this(2)]
  have v: "vsnprintf m buf len form4 ?ap = Some (put m buf (bounded len xs), word_of_nat (length xs))"
    by (simp add: strs_apart_def)
  have l: "length xs \<le> 15" using quad_length [of "m ! cp" "m ! (cp + 1)" "m ! (cp + 2)" "m ! (cp + 3)"] by (simp add: xs_def)
  have "unat (scast (word_of_nat (length xs) :: 32 word) :: 64 word) = length xs"
    using l scast_of_nat [of "length xs"] by (simp add: unsigned_of_nat take_bit_nat_eq_self)
  with v assms(3) show ?thesis
    by (simp add: inet_ntop_def mem_simps mapped_def snprintf_def)
qed

theorem inet_ntop_ipv4_witness:
  "inet_ntop 1 0 ([7] @ ntoa_format @ [0, 1, 2, 3, 4] @ replicate 7 9) AF_INET 13 17 7 =
    Some ([7] @ ntoa_format @ [0, 1, 2, 3, 4, 49, 46, 50, 46, 51, 46, 0], 17, None)"
proof -
  let ?m = "[7] @ ntoa_format @ [0, 1, 2, 3, 4] @ replicate 7 9"
  have n: "plain_number 10 (Suc 0) = [49]" "plain_number 10 2 = [50]" "plain_number 10 3 = [51]" "plain_number 10 4 = [52]"
    by (simp_all add: plain_number_def plain_digits_def count_digits.simps lcdigits_def)
  have "cstr ?m 1 ntoa_format" "length ?m = 24" "?m ! 13 = 1" "?m ! 14 = 2" "?m ! 15 = 3" "?m ! 16 = 4"
    by (simp_all add: ntoa_format_def cstr_simps)
  with inet_ntop_ipv4 [of ?m 1 13 17 7 0] show ?thesis
    by (simp add: mapped_def disjoint_ranges_def n bounded_def put_def ntoa_format_def)
qed

text \<open>\<open>inet_pton\<close> for IPv6 reads the text at its destination instead of its source: the source is never looked at,
  and when it succeeds the result is the address of sixteen zero bytes.\<close>

theorem inet_pton_ignores_source:
  assumes "mapped m dst 16" "inet_pton so form a m AF_INET6 src dst = Some (m', 1, e)"
  shows "m' = put m dst (replicate 16 0) \<and> (\<forall>src'. inet_pton so form a m AF_INET6 src' dst = Some (m', 1, e))"
proof -
  let ?m = "put m dst (replicate 16 0)"
  have s: "memset m dst 0 16 = Some (?m, dst)" using memset_loop_put [OF assms(1)] by (simp add: memset_def)
  have "?m ! dst = 0" "0 < dst" "dst < length ?m" using assms(1) by (auto simp: mapped_def nth_put)
  then have f: "pton_fill ?m dst dst colons 0 = Some ?m" for colons
    by (subst pton_fill.simps) (simp add: mem_simps)
  from assms(2) have "m' = ?m"
    by (auto simp: inet_pton_def s f AF_INET_def AF_INET6_def split: bind_splits option.splits if_splits)
  with assms(2) show ?thesis by (simp add: inet_pton_def AF_INET_def AF_INET6_def)
qed

theorem inet_pton_ignores_source_witness:
  "inet_pton True 0 0 ([7, 58, 58, 0] @ replicate 13 5) AF_INET6 0 1 = Some (7 # replicate 16 0, 1, None)"
proof -
  let ?m = "[7, 58, 58, 0] @ replicate 13 5 :: mem"
  have "pton_count ?m 1 0 0 = Some (Some (2, 1))" by (simp add: pton_count.simps mem_simps)
  moreover have "memset ?m 1 0 16 = Some (put ?m 1 (replicate 16 0), 1)"
    using memset_loop_put [of ?m 1 16 0] by (simp add: memset_def mapped_def)
  moreover have "pton_fill (put ?m 1 (replicate 16 0)) 1 1 2 0 = Some (put ?m 1 (replicate 16 0))"
    by (simp add: pton_fill.simps mem_simps nth_put)
  ultimately obtain m' where "inet_pton True 0 0 ?m AF_INET6 0 1 = Some (m', 1, None)"
    by (simp add: inet_pton_def AF_INET_def AF_INET6_def del: append.simps)
  with inet_pton_ignores_source [of ?m 1 True 0 0 0 m' None] show ?thesis by (simp add: mapped_def put_def)
qed

end
