(* ===== verification/Intervals.thy ===== *)
theory Intervals
  imports CPrelude
begin

text \<open>
  The interval domain of the explorer: the bounds of \<^verbatim>\<open>src/Domain/Interval/Type.hs\<close>, the addresses of \<^verbatim>\<open>src/Domain/MemAddr.hs\<close> and the values of
  \<^verbatim>\<open>src/Domain/Interval/Value.hs\<close> with their order, lattice operations, widening and arithmetic. A Haskell \<^verbatim>\<open>Int\<close> is an integer with the wrap-around
  written out; an \<^verbatim>\<open>error\<close> is \<open>None\<close>, raised at once although Haskell raises it only when the value is needed. The constants of the
  analysed language and the symbols come from another package: they are type variables, and the operations on constants
  are arguments. The lemmas show which operations are sound for the sets of integers the values stand for.
\<close>

section \<open>Bounds\<close>

definition wrap :: "int \<Rightarrow> int" where
  "wrap n = (n + 2 ^ 63) mod 2 ^ 64 - 2 ^ 63"

datatype InterVal = I int | PlusInf | MinusInf

fun le_IVal :: "InterVal \<Rightarrow> InterVal \<Rightarrow> bool" where
  "le_IVal (I i) PlusInf \<longleftrightarrow> True"
| "le_IVal (I i) MinusInf \<longleftrightarrow> False"
| "le_IVal (I i) (I j) \<longleftrightarrow> i \<le> j"
| "le_IVal PlusInf PlusInf \<longleftrightarrow> True"
| "le_IVal PlusInf _ \<longleftrightarrow> False"
| "le_IVal MinusInf _ \<longleftrightarrow> True"

text \<open>The order is total, so the default minimum and maximum of Haskell are the ones of the library.\<close>

instantiation InterVal :: linorder
begin

definition less_eq_InterVal :: "InterVal \<Rightarrow> InterVal \<Rightarrow> bool" where
  "less_eq_InterVal = le_IVal"

definition less_InterVal :: "InterVal \<Rightarrow> InterVal \<Rightarrow> bool" where
  "less_InterVal a b \<longleftrightarrow> le_IVal a b \<and> \<not> le_IVal b a"

instance
proof
  fix a b c :: InterVal
  show "a < b \<longleftrightarrow> a \<le> b \<and> \<not> b \<le> a" by (simp add: less_eq_InterVal_def less_InterVal_def)
  show "a \<le> a" by (cases a) (simp_all add: less_eq_InterVal_def)
  show "a \<le> b \<Longrightarrow> b \<le> c \<Longrightarrow> a \<le> c" by (cases a; cases b; cases c) (auto simp: less_eq_InterVal_def)
  show "a \<le> b \<Longrightarrow> b \<le> a \<Longrightarrow> a = b" by (cases a; cases b) (auto simp: less_eq_InterVal_def)
  show "a \<le> b \<or> b \<le> a" by (cases a; cases b) (auto simp: less_eq_InterVal_def)
qed

end

function (sequential) plusIVal :: "InterVal \<Rightarrow> InterVal \<Rightarrow> InterVal option" where
  "plusIVal PlusInf MinusInf = None"
| "plusIVal MinusInf PlusInf = None"
| "plusIVal PlusInf _ = Some PlusInf"
| "plusIVal MinusInf _ = Some MinusInf"
| "plusIVal (I a) (I b) = Some (I (wrap (a + b)))"
| "plusIVal a b = plusIVal b a"
  by pat_completeness auto
termination
  by (relation "measure (\<lambda>(a, b). case a of I _ \<Rightarrow> 1 | _ \<Rightarrow> 0)") auto

fun signumIVal :: "InterVal \<Rightarrow> InterVal" where
  "signumIVal PlusInf = I 1"
| "signumIVal MinusInf = I (- 1)"
| "signumIVal (I i) = I (sgn i)"

function (sequential) mulIVal :: "InterVal \<Rightarrow> InterVal \<Rightarrow> InterVal option" where
  "mulIVal PlusInf a = (if signumIVal a = I 0 then None else if signumIVal a = I (- 1) then Some MinusInf else Some PlusInf)"
| "mulIVal MinusInf a = (if signumIVal a = I 0 then None else if signumIVal a = I (- 1) then Some PlusInf else Some MinusInf)"
| "mulIVal (I a) (I b) = Some (I (wrap (a * b)))"
| "mulIVal a b = mulIVal b a"
  by pat_completeness auto
termination
  by (relation "measure (\<lambda>(a, b). case a of I _ \<Rightarrow> 1 | _ \<Rightarrow> 0)") auto

fun subIVal :: "InterVal \<Rightarrow> InterVal \<Rightarrow> InterVal option" where
  "subIVal PlusInf MinusInf = None"
| "subIVal MinusInf PlusInf = None"
| "subIVal PlusInf _ = Some PlusInf"
| "subIVal MinusInf _ = Some MinusInf"
| "subIVal _ PlusInf = Some MinusInf"
| "subIVal _ MinusInf = Some PlusInf"
| "subIVal (I a) (I b) = Some (I (wrap (a - b)))"

fun absIVal :: "InterVal \<Rightarrow> InterVal" where
  "absIVal PlusInf = PlusInf"
| "absIVal MinusInf = PlusInf"
| "absIVal (I i) = I (wrap \<bar>i\<bar>)"

fun negateIVal :: "InterVal \<Rightarrow> InterVal" where
  "negateIVal (I i) = I (wrap (- i))"
| "negateIVal PlusInf = MinusInf"
| "negateIVal MinusInf = PlusInf"

text \<open>Division of a \<^verbatim>\<open>Int\<close> rounds down and fails for a zero divisor and for the one quotient that does not fit.\<close>

definition div_Int :: "int \<Rightarrow> int \<Rightarrow> int option" where
  "div_Int a b = (if b = 0 \<or> a = - (2 ^ 63) \<and> b = - 1 then None else Some (a div b))"

definition divide_IVal :: "InterVal \<Rightarrow> InterVal \<Rightarrow> InterVal option" where
  "divide_IVal a b =
     (if a = I 0 then Some (I 0)
      else case b of
        PlusInf \<Rightarrow> Some (I 0)
      | MinusInf \<Rightarrow> Some (I 0)
      | I j \<Rightarrow> (case a of I i \<Rightarrow> map_option I (div_Int i j) | _ \<Rightarrow> mulIVal a b))"

section \<open>Addresses\<close>

datatype 't scope = Global | Local 't

datatype ('s, 't, 'd) mem_addr = MemAddr (addr_base: 's) (offset: 'd) (level: "'t scope")

datatype ('s, 't) mem_addr_base = MemAddrBase (base_sym: 's) (base_level: "'t scope")

definition from_addr :: "('s, 't, 'd) mem_addr \<Rightarrow> ('s, 't) mem_addr_base \<times> 'd" where
  "from_addr a = (MemAddrBase (addr_base a) (level a), offset a)"

definition to_addr :: "('s, 't) mem_addr_base \<Rightarrow> 'd \<Rightarrow> ('s, 't, 'd) mem_addr" where
  "to_addr addr v = MemAddr (base_sym addr) v (base_level addr)"

definition set_level :: "('s, 't) mem_addr_base \<Rightarrow> 't scope \<Rightarrow> ('s, 't) mem_addr_base" where
  "set_level addr sc = MemAddrBase (base_sym addr) sc"

definition set_offset :: "('s, 't, 'd) mem_addr \<Rightarrow> 'd \<Rightarrow> ('s, 't, 'd) mem_addr" where
  "set_offset m v = MemAddr (addr_base m) v (level m)"

lemma addr_laws:
  "from_addr (to_addr b v) = (b, v)" "to_addr (fst (from_addr a)) v = set_offset a v" "set_offset a (offset a) = a"
  by (simp_all add: from_addr_def to_addr_def set_offset_def)

datatype ('s, 't, 'd) mem_addrs = MemAddrTop | MemAddrs "('s, 't, 'd) mem_addr list"

fun le_addrs :: "('s, 't, 'd) mem_addrs \<Rightarrow> ('s, 't, 'd) mem_addrs \<Rightarrow> bool" where
  "le_addrs _ MemAddrTop \<longleftrightarrow> True"
| "le_addrs MemAddrTop (MemAddrs l) \<longleftrightarrow> False"
| "le_addrs (MemAddrs l1) (MemAddrs l2) \<longleftrightarrow> list_all (\<lambda>a. a \<in> set l2) l1"

text \<open>\<^verbatim>\<open>nub\<close> keeps the first of equal elements.\<close>

definition nub :: "'a list \<Rightarrow> 'a list" where
  "nub xs = rev (remdups (rev xs))"

fun meet_addrs :: "('s, 't, 'd) mem_addrs \<Rightarrow> ('s, 't, 'd) mem_addrs \<Rightarrow> ('s, 't, 'd) mem_addrs" where
  "meet_addrs MemAddrTop b = b"
| "meet_addrs a MemAddrTop = a"
| "meet_addrs (MemAddrs l1) (MemAddrs l2) = MemAddrs (filter (\<lambda>a. a \<in> set l2) l1)"

fun join_addrs :: "('s, 't, 'd) mem_addrs \<Rightarrow> ('s, 't, 'd) mem_addrs \<Rightarrow> ('s, 't, 'd) mem_addrs" where
  "join_addrs MemAddrTop b = MemAddrTop"
| "join_addrs a MemAddrTop = MemAddrTop"
| "join_addrs (MemAddrs l1) (MemAddrs l2) = MemAddrs (nub (l1 @ l2))"

definition is_global :: "('s, 't, 'd) mem_addrs \<Rightarrow> bool" where
  "is_global m = (case m of MemAddrTop \<Rightarrow> True | MemAddrs l \<Rightarrow> list_ex (\<lambda>a. level a = Global) l)"

section \<open>Values\<close>

datatype ('v, 's, 't) IntValue =
    IntTop
  | IntBot
  | IntVal "'v list"
  | InterVal InterVal InterVal
  | IntMemAddr "('s, 't, ('v, 's, 't) IntValue) mem_addrs"

fun le_IntValue :: "('v, 's, 't) IntValue \<Rightarrow> ('v, 's, 't) IntValue \<Rightarrow> bool" where
  "le_IntValue (IntVal i) (IntVal j) \<longleftrightarrow> set i \<subseteq> set j"
| "le_IntValue (InterVal a b) (InterVal c d) \<longleftrightarrow> a \<ge> c \<and> b \<le> d"
| "le_IntValue IntBot _ \<longleftrightarrow> True"
| "le_IntValue IntTop (InterVal a b) \<longleftrightarrow> a = MinusInf \<and> b = PlusInf"
| "le_IntValue a IntTop \<longleftrightarrow> True"
| "le_IntValue _ _ \<longleftrightarrow> False"

fun join_IntValue :: "('v, 's, 't) IntValue \<Rightarrow> ('v, 's, 't) IntValue \<Rightarrow> ('v, 's, 't) IntValue option" where
  "join_IntValue IntBot a = Some a"
| "join_IntValue a IntBot = Some a"
| "join_IntValue IntTop a = Some IntTop"
| "join_IntValue a IntTop = Some IntTop"
| "join_IntValue (IntVal i) (IntVal j) = Some (IntVal (nub (i @ j)))"
| "join_IntValue (IntMemAddr m1) (IntMemAddr m2) = Some (IntMemAddr (join_addrs m1 m2))"
| "join_IntValue (InterVal a b) (InterVal c d) = Some (InterVal (min a c) (max b d))"
| "join_IntValue _ _ = None"

fun meet_IntValue :: "('v, 's, 't) IntValue \<Rightarrow> ('v, 's, 't) IntValue \<Rightarrow> ('v, 's, 't) IntValue option" where
  "meet_IntValue IntBot a = Some IntBot"
| "meet_IntValue a IntBot = Some IntBot"
| "meet_IntValue IntTop a = Some a"
| "meet_IntValue a IntTop = Some a"
| "meet_IntValue (IntVal i) (IntVal j) = Some (IntVal (filter (\<lambda>x. x \<in> set j) i))"
| "meet_IntValue (IntMemAddr m1) (IntMemAddr m2) = Some (IntMemAddr (meet_addrs m1 m2))"
| "meet_IntValue (InterVal a b) (InterVal c d) =
     (let l = max a c; u = min b d in Some (if l > u then IntBot else InterVal l u))"
| "meet_IntValue _ _ = None"

definition widen_IntValue :: "('v, 's, 't) IntValue \<Rightarrow> ('v, 's, 't) IntValue \<Rightarrow> ('v, 's, 't) IntValue option" where
  "widen_IntValue v1 v2 =
     (if v1 = v2 then Some v1
      else case (v1, v2) of
        (InterVal a b, InterVal c d) \<Rightarrow>
          Some (InterVal (if c < a then MinusInf else a) (if d > b then PlusInf else b))
      | _ \<Rightarrow> None)"

fun plus_IntValue :: "('v \<Rightarrow> 'v \<Rightarrow> 'v) \<Rightarrow> ('v, 's, 't) IntValue \<Rightarrow> ('v, 's, 't) IntValue \<Rightarrow> ('v, 's, 't) IntValue option" where
  "plus_IntValue add_value IntBot _ = Some IntBot"
| "plus_IntValue add_value _ IntBot = Some IntBot"
| "plus_IntValue add_value IntTop _ = Some IntTop"
| "plus_IntValue add_value _ IntTop = Some IntTop"
| "plus_IntValue add_value (InterVal a b) (InterVal c d) =
     do { l \<leftarrow> plusIVal a c; u \<leftarrow> plusIVal b d; Some (InterVal l u) }"
| "plus_IntValue add_value (IntVal i) (IntVal j) = Some (IntVal [add_value a b. a \<leftarrow> i, b \<leftarrow> j])"
| "plus_IntValue add_value _ _ = None"

fun mult_IntValue :: "('v \<Rightarrow> 'v \<Rightarrow> 'v) \<Rightarrow> ('v, 's, 't) IntValue \<Rightarrow> ('v, 's, 't) IntValue \<Rightarrow> ('v, 's, 't) IntValue option" where
  "mult_IntValue mult_value IntBot _ = Some IntBot"
| "mult_IntValue mult_value _ IntBot = Some IntBot"
| "mult_IntValue mult_value IntTop _ = Some IntTop"
| "mult_IntValue mult_value _ IntTop = Some IntTop"
| "mult_IntValue mult_value (InterVal a b) (InterVal c d) =
     do {
       ac \<leftarrow> mulIVal a c;
       ad \<leftarrow> mulIVal a d;
       bc \<leftarrow> mulIVal b c;
       bd \<leftarrow> mulIVal b d;
       Some (InterVal (min ac (min ad (min bc bd))) (max ac (max ad (max bc bd))))
     }"
| "mult_IntValue mult_value (IntVal i) (IntVal j) = Some (IntVal [mult_value a b. a \<leftarrow> i, b \<leftarrow> j])"
| "mult_IntValue mult_value _ _ = None"

fun sub_IntValue :: "('v \<Rightarrow> 'v \<Rightarrow> 'v) \<Rightarrow> ('v, 's, 't) IntValue \<Rightarrow> ('v, 's, 't) IntValue \<Rightarrow> ('v, 's, 't) IntValue option" where
  "sub_IntValue sub_value IntBot _ = Some IntBot"
| "sub_IntValue sub_value _ IntBot = Some IntBot"
| "sub_IntValue sub_value IntTop _ = Some IntTop"
| "sub_IntValue sub_value _ IntTop = Some IntTop"
| "sub_IntValue sub_value (InterVal a b) (InterVal c d) =
     do { l \<leftarrow> subIVal a d; u \<leftarrow> subIVal b c; Some (InterVal l u) }"
| "sub_IntValue sub_value (IntVal i) (IntVal j) = Some (IntVal [sub_value a b. a \<leftarrow> i, b \<leftarrow> j])"
| "sub_IntValue sub_value _ _ = None"

fun negate_IntValue :: "('v \<Rightarrow> 'v) \<Rightarrow> ('v, 's, 't) IntValue \<Rightarrow> ('v, 's, 't) IntValue option" where
  "negate_IntValue minus_value IntBot = Some IntBot"
| "negate_IntValue minus_value IntTop = Some IntTop"
| "negate_IntValue minus_value (InterVal a b) = Some (InterVal (negateIVal a) (negateIVal b))"
| "negate_IntValue minus_value (IntVal i) = Some (IntVal (map minus_value i))"
| "negate_IntValue minus_value _ = None"

fun interval_div :: "('v, 's, 't) IntValue \<Rightarrow> ('v, 's, 't) IntValue \<Rightarrow> ('v, 's, 't) IntValue option" where
  "interval_div IntBot _ = Some IntBot"
| "interval_div _ IntBot = Some IntBot"
| "interval_div IntTop _ = Some IntTop"
| "interval_div _ IntTop = Some IntTop"
| "interval_div (InterVal a b) (InterVal c d) =
     do {
       ac \<leftarrow> divide_IVal a c;
       ad \<leftarrow> divide_IVal a d;
       bc \<leftarrow> divide_IVal b c;
       bd \<leftarrow> divide_IVal b d;
       (if c \<ge> I 1 then Some (InterVal (min ac ad) (max bc bd))
        else if d \<le> I (- 1) then Some (InterVal (min bc bd) (max ac ad))
        else None)
     }"
| "interval_div _ _ = None"

fun iDivide :: "('v \<Rightarrow> 'v \<Rightarrow> 'v) \<Rightarrow> ('v, 's, 't) IntValue \<Rightarrow> ('v, 's, 't) IntValue \<Rightarrow> ('v, 's, 't) IntValue option" where
  "iDivide div_value IntBot _ = Some IntBot"
| "iDivide div_value _ IntBot = Some IntBot"
| "iDivide div_value IntTop _ = Some IntTop"
| "iDivide div_value _ IntTop = Some IntTop"
| "iDivide div_value (IntVal i) (IntVal j) = Some (IntVal [div_value a b. a \<leftarrow> i, b \<leftarrow> j])"
| "iDivide div_value v1 v2 =
     do {
       positive \<leftarrow> meet_IntValue v2 (InterVal (I 1) PlusInf);
       q1 \<leftarrow> interval_div v1 positive;
       negative \<leftarrow> meet_IntValue v2 (InterVal MinusInf (I (- 1)));
       q2 \<leftarrow> interval_div v1 negative;
       join_IntValue q1 q2
     }"

definition interval_diff_by :: "int \<Rightarrow> ('v, 's, 't) IntValue \<Rightarrow> ('v, 's, 't) IntValue \<Rightarrow> ('v, 's, 't) IntValue option" where
  "interval_diff_by i u v =
     (case (u, v) of
        (InterVal MinusInf PlusInf, InterVal MinusInf (I b)) \<Rightarrow> Some (InterVal (I (wrap (b + i))) PlusInf)
      | (InterVal MinusInf PlusInf, InterVal (I a) PlusInf) \<Rightarrow> Some (InterVal MinusInf (I (wrap (a - i))))
      | (IntBot, _) \<Rightarrow> Some IntBot
      | (InterVal a b, IntBot) \<Rightarrow> Some (InterVal a b)
      | (InterVal (I a) (I b), InterVal (I a') (I b')) \<Rightarrow>
          (if a = a' \<and> b = b' then Some IntBot
           else if a = a' then Some (InterVal (I (wrap (b' + i))) (I b))
           else if b = b' then Some (InterVal (I a) (I (wrap (a' - i))))
           else if a < a' \<and> b > b' then Some (InterVal (I a) (I b))
           else None)
      | _ \<Rightarrow> None)"

definition interval_diff :: "('v, 's, 't) IntValue \<Rightarrow> ('v, 's, 't) IntValue \<Rightarrow> ('v, 's, 't) IntValue option" where
  "interval_diff a b = interval_diff_by 1 a b"

definition interval_diff_eq :: "('v, 's, 't) IntValue \<Rightarrow> ('v, 's, 't) IntValue \<Rightarrow> ('v, 's, 't) IntValue option" where
  "interval_diff_eq a b = interval_diff_by 0 a b"

text \<open>
  The bounds of a list of constants need their order and their integers: \<open>maximum\<close> and \<open>minimum\<close> return
  \<open>None\<close> for an empty list, and \<open>num\<close> returns \<open>None\<close> for a constant that is not an integer.
\<close>

fun upperBound :: "('v list \<Rightarrow> 'v option) \<Rightarrow> ('v \<Rightarrow> int option) \<Rightarrow> ('v, 's, 't) IntValue \<Rightarrow> InterVal option" where
  "upperBound maximum num IntBot = None"
| "upperBound maximum num (InterVal a b) = Some b"
| "upperBound maximum num IntTop = Some PlusInf"
| "upperBound maximum num (IntVal vals) = do { v \<leftarrow> maximum vals; n \<leftarrow> num v; Some (I n) }"
| "upperBound maximum num (IntMemAddr _) = None"

fun lowerBound :: "('v list \<Rightarrow> 'v option) \<Rightarrow> ('v \<Rightarrow> int option) \<Rightarrow> ('v, 's, 't) IntValue \<Rightarrow> InterVal option" where
  "lowerBound minimum num IntBot = None"
| "lowerBound minimum num IntTop = Some MinusInf"
| "lowerBound minimum num (InterVal a b) = Some a"
| "lowerBound minimum num (IntVal vals) = do { v \<leftarrow> minimum vals; n \<leftarrow> num v; Some (I n) }"
| "lowerBound minimum num (IntMemAddr _) = None"

fun diff_intval :: "('v, 's, 't) IntValue \<Rightarrow> ('v, 's, 't) IntValue \<Rightarrow> ('v, 's, 't) IntValue option" where
  "diff_intval (InterVal _ u) (InterVal _ l) = do { k \<leftarrow> plusIVal l (I 1); Some (InterVal k u) }"
| "diff_intval _ _ = None"

section \<open>Offsets\<close>

type_synonym ('v, 's, 't) offs_list = "(('v, 's, 't) IntValue \<times> ('v, 's, 't) IntValue) list"

text \<open>A bound next to another, \<open>a + 1\<close> and \<open>a - 1\<close>.\<close>

definition succ_IVal :: "InterVal \<Rightarrow> InterVal" where
  "succ_IVal a = the (plusIVal a (I 1))"

definition pred_IVal :: "InterVal \<Rightarrow> InterVal" where
  "pred_IVal a = the (subIVal a (I 1))"

function (sequential) gen_intval_list ::
    "(('v, 's, 't) IntValue \<Rightarrow> ('v, 's, 't) IntValue \<Rightarrow> ('v, 's, 't) IntValue option) \<Rightarrow>
     ('v, 's, 't) offs_list \<Rightarrow> ('v, 's, 't) offs_list \<Rightarrow> ('v, 's, 't) offs_list option" where
  "gen_intval_list f [] x2 = Some x2"
| "gen_intval_list f x1 [] = Some x1"
| "gen_intval_list f ((a, v) # x1) ((b, u) # x2) =
     (case (a, b) of
        (InterVal a1 a2, InterVal b1 b2) \<Rightarrow>
          if a1 = b1 then
            (if a2 = b2 then
               do { w \<leftarrow> f v u; r \<leftarrow> gen_intval_list f x1 x2; Some ((a, w) # r) }
             else if a2 < b2 then
               do { w \<leftarrow> f v u;
                    r \<leftarrow> gen_intval_list f x1 ((InterVal (succ_IVal a2) b2, u) # x2);
                    Some ((a, w) # r) }
             else
               do { w \<leftarrow> f v u;
                    r \<leftarrow> gen_intval_list f ((InterVal (succ_IVal b2) a2, v) # x1) x2;
                    Some ((b, w) # r) })
          else if a1 < b1 then
            (if a2 = b2 then
               do { w \<leftarrow> f v u; r \<leftarrow> gen_intval_list f x1 x2;
                    Some ((InterVal a1 (pred_IVal b1), v) # (b, w) # r) }
             else if a2 < b2 then
               (if a2 < b1 then
                  do { r \<leftarrow> gen_intval_list f x1 ((b, u) # x2); Some ((a, v) # r) }
                else
                  do { w \<leftarrow> f v u;
                       r \<leftarrow> gen_intval_list f x1 ((InterVal (succ_IVal a2) b2, v) # x2);
                       Some ((InterVal a1 (pred_IVal b1), v) # (InterVal b1 a2, w) # r) })
             else
               do { w \<leftarrow> f v u;
                    r \<leftarrow> gen_intval_list f ((InterVal (succ_IVal b2) a2, u) # x1) x2;
                    Some ((InterVal a1 (pred_IVal b1), v) # (b, w) # r) })
          else
            (if b2 = a2 then
               do { w \<leftarrow> f v u; r \<leftarrow> gen_intval_list f x1 x2;
                    Some ((InterVal b1 (pred_IVal a1), u) # (a, w) # r) }
             else if b2 < a2 then
               (if b2 < a1 then
                  do { r \<leftarrow> gen_intval_list f ((a, v) # x1) x2; Some ((b, u) # r) }
                else
                  do { w \<leftarrow> f v u;
                       r \<leftarrow> gen_intval_list f ((InterVal (succ_IVal b2) a2, u) # x1) x2;
                       Some ((InterVal b1 (pred_IVal a1), u) # (InterVal a1 b2, w) # r) })
             else
               do { w \<leftarrow> f v u;
                    r \<leftarrow> gen_intval_list f x1 ((InterVal (succ_IVal a2) b2, v) # x2);
                    Some ((InterVal b1 (pred_IVal a1), u) # (a, w) # r) })
      | _ \<Rightarrow> None)"
  by pat_completeness auto
termination
  by (relation "measure (\<lambda>(f, x1, x2). length x1 + length x2)") auto

definition join_offs :: "('v, 's, 't) offs_list \<Rightarrow> ('v, 's, 't) offs_list \<Rightarrow> ('v, 's, 't) offs_list option" where
  "join_offs = gen_intval_list join_IntValue"

definition meet_offs :: "('v, 's, 't) offs_list \<Rightarrow> ('v, 's, 't) offs_list \<Rightarrow> ('v, 's, 't) offs_list option" where
  "meet_offs = gen_intval_list meet_IntValue"

definition widen_offs :: "('v, 's, 't) offs_list \<Rightarrow> ('v, 's, 't) offs_list \<Rightarrow> ('v, 's, 't) offs_list option" where
  "widen_offs = gen_intval_list widen_IntValue"

section \<open>The integers a value stands for\<close>

lemma le_IVal_simps [simp]:
  "I i \<le> I j \<longleftrightarrow> i \<le> j" "I i < I j \<longleftrightarrow> i < j"
  "a \<le> PlusInf" "MinusInf \<le> a" "\<not> I i \<le> MinusInf" "\<not> PlusInf \<le> I i" "\<not> PlusInf \<le> MinusInf"
  "a < PlusInf \<longleftrightarrow> a \<noteq> PlusInf" "MinusInf < a \<longleftrightarrow> a \<noteq> MinusInf" "\<not> a < MinusInf" "\<not> PlusInf < a"
  by (cases a; auto simp: less_eq_InterVal_def less_InterVal_def)+

fun conc :: "('v, 's, 't) IntValue \<Rightarrow> int set" where
  "conc IntBot = {}"
| "conc (InterVal a b) = {n. a \<le> I n \<and> I n \<le> b}"
| "conc _ = UNIV"

definition in_Int :: "int \<Rightarrow> bool" where
  "in_Int n \<longleftrightarrow> - (2 ^ 63) \<le> n \<and> n < 2 ^ 63"

lemma wrap_in_Int: "in_Int n \<Longrightarrow> wrap n = n"
  by (auto simp: in_Int_def wrap_def)

text \<open>The values an analysis computes with: no value, or a non-empty interval.\<close>

fun interval :: "('v, 's, 't) IntValue \<Rightarrow> bool" where
  "interval IntBot \<longleftrightarrow> True"
| "interval (InterVal a b) \<longleftrightarrow> a \<le> b \<and> a \<noteq> PlusInf \<and> b \<noteq> MinusInf"
| "interval _ \<longleftrightarrow> False"

lemma conc_nonempty:
  assumes "interval (InterVal a b :: ('v, 's, 't) IntValue)"
  shows "conc (InterVal a b :: ('v, 's, 't) IntValue) \<noteq> {}"
proof -
  have "\<exists>n. a \<le> I n \<and> I n \<le> b"
    using assms by (cases a; cases b) (auto intro: exI [of _ "0::int"])
  then show ?thesis by auto
qed

lemma lower_subset:
  assumes "c \<noteq> PlusInf" "\<And>n. a \<le> I n \<Longrightarrow> I n \<le> b \<Longrightarrow> c \<le> I n" "a \<le> b" "a \<noteq> PlusInf" "b \<noteq> MinusInf"
  shows "c \<le> a"
proof (cases a)
  case (I i)
  then show ?thesis using assms(2) [of i] assms(3) by simp
next
  case MinusInf
  have "c \<noteq> I k" for k
  proof
    assume "c = I k"
    then show False
      using assms(2) [of "case b of I j \<Rightarrow> min (k - 1) j | _ \<Rightarrow> k - 1"] MinusInf assms(5)
      by (cases b) (auto split: if_splits)
  qed
  then show ?thesis using assms(1) by (cases c) auto
qed (use assms(4) in simp)

lemma upper_subset:
  assumes "d \<noteq> MinusInf" "\<And>n. a \<le> I n \<Longrightarrow> I n \<le> b \<Longrightarrow> I n \<le> d" "a \<le> b" "a \<noteq> PlusInf" "b \<noteq> MinusInf"
  shows "b \<le> d"
proof (cases b)
  case (I i)
  then show ?thesis using assms(2) [of i] assms(3) by simp
next
  case PlusInf
  have "d \<noteq> I k" for k
  proof
    assume "d = I k"
    then show False
      using assms(2) [of "case a of I j \<Rightarrow> max (k + 1) j | _ \<Rightarrow> k + 1"] PlusInf assms(4)
      by (cases a) (auto split: if_splits)
  qed
  then show ?thesis using assms(1) by (cases d) auto
qed (use assms(5) in simp)

lemma le_IntValue_conc:
  fixes u v :: "('v, 's, 't) IntValue"
  assumes "interval u" "interval v"
  shows "le_IntValue u v \<longleftrightarrow> conc u \<subseteq> conc v"
proof (cases u)
  case (InterVal a b)
  note u = this
  show ?thesis
  proof (cases v)
    case IntBot
    then show ?thesis using conc_nonempty [of a b] assms u by auto
  next
    case (InterVal c d)
    show ?thesis
    proof
      assume "conc u \<subseteq> conc v"
      then have "c \<le> I n \<and> I n \<le> d" if "a \<le> I n" "I n \<le> b" for n
        using that u InterVal by auto
      then show "le_IntValue u v"
        using lower_subset [of c a b] upper_subset [of d a b] assms u InterVal by auto
    qed (use u InterVal in auto)
  qed (use assms in auto)
qed (use assms in auto)

lemma join_conc:
  assumes "interval u" "interval v" "join_IntValue u v = Some j"
  shows "interval j" "le_IntValue u j" "le_IntValue v j"
    "\<And>w. interval w \<Longrightarrow> le_IntValue u w \<Longrightarrow> le_IntValue v w \<Longrightarrow> le_IntValue j w"
  subgoal using assms by (cases u; cases v) (auto simp: min_def max_def)
  subgoal using assms by (cases u; cases v) auto
  subgoal using assms by (cases u; cases v) auto
  subgoal for w using assms by (cases u; cases v; cases w) auto
  done

lemma meet_conc:
  assumes "interval u" "interval v" "meet_IntValue u v = Some m"
  shows "interval m" "conc m = conc u \<inter> conc v"
  subgoal using assms by (cases u; cases v) (auto simp: min_def max_def Let_def split: if_splits)
  subgoal using assms
    by (cases u; cases v) (auto simp: Let_def min_less_iff_disj less_max_iff_disj not_le [symmetric] split: if_splits
        dest: order_trans)
  done

text \<open>C20: on the values an analysis computes with, the order is inclusion of the integers they stand for, \<^verbatim>\<open>join\<close> is the least interval above both arguments and \<^verbatim>\<open>meet\<close> is exactly their intersection; neither raises an error.\<close>

theorem interval_lattice:
  fixes u v :: "('v, 's, 't) IntValue"
  assumes "interval u" "interval v"
  shows "\<exists>j m. join_IntValue u v = Some j \<and> meet_IntValue u v = Some m \<and> interval j \<and> interval m \<and>
    conc u \<union> conc v \<subseteq> conc j \<and> (\<forall>w :: ('v, 's, 't) IntValue. interval w \<and> conc u \<union> conc v \<subseteq> conc w \<longrightarrow> conc j \<subseteq> conc w) \<and>
    conc m = conc u \<inter> conc v \<and> (le_IntValue u v \<longleftrightarrow> conc u \<subseteq> conc v)"
proof -
  obtain j m where jm: "join_IntValue u v = Some j" "meet_IntValue u v = Some m"
    using assms by (cases u; cases v) (auto simp: Let_def)
  note j = join_conc [OF assms jm(1)]
  have least: "conc j \<subseteq> conc w" if "interval w" "conc u \<union> conc v \<subseteq> conc w" for w :: "('v, 's, 't) IntValue"
    using j(4) [OF that(1)] that assms j(1) by (simp add: le_IntValue_conc)
  show ?thesis
    using jm j(1-3) meet_conc [OF assms jm(2)] least assms by (auto simp: le_IntValue_conc)
qed

theorem interval_lattice_witness:
  "\<exists>j m. join_IntValue (InterVal (I 1) (I 4)) (InterVal (I 3) PlusInf :: (unit, unit, unit) IntValue) = Some j \<and>
    meet_IntValue (InterVal (I 1) (I 4)) (InterVal (I 3) PlusInf :: (unit, unit, unit) IntValue) = Some m \<and>
    conc m = {3, 4}"
  using interval_lattice [of "InterVal (I 1) (I 4)" "InterVal (I 3) PlusInf :: (unit, unit, unit) IntValue"]
  by auto

section \<open>Widening\<close>

lemma widen_shape:
  assumes "widen_IntValue (InterVal a b) u = Some x"
  obtains e f where "x = InterVal e f" "e = a \<or> e = MinusInf \<and> a \<noteq> MinusInf" "f = b \<or> f = PlusInf \<and> b \<noteq> PlusInf"
  using assms by (cases u) (auto simp: widen_IntValue_def split: if_splits)

lemma widen_upper:
  fixes u x :: "('v, 's, 't) IntValue"
  assumes "widen_IntValue (InterVal a b) u = Some x"
  shows "conc (InterVal a b :: ('v, 's, 't) IntValue) \<union> conc u \<subseteq> conc x"
  using assms by (cases u) (auto simp: widen_IntValue_def not_less split: if_splits intro: order_trans)

definition finite_ends :: "('v, 's, 't) IntValue \<Rightarrow> nat" where
  "finite_ends v = (case v of InterVal a b \<Rightarrow> (if a = MinusInf then 0 else 1) + (if b = PlusInf then 0 else 1) | _ \<Rightarrow> 0)"

fun widen_chain :: "('v, 's, 't) IntValue \<Rightarrow> ('v, 's, 't) IntValue list \<Rightarrow> ('v, 's, 't) IntValue list option" where
  "widen_chain x [] = Some []"
| "widen_chain x (u # us) = do { y \<leftarrow> widen_IntValue x u; ys \<leftarrow> widen_chain y us; Some (y # ys) }"

fun changes :: "'a \<Rightarrow> 'a list \<Rightarrow> nat" where
  "changes x [] = 0"
| "changes x (y # ys) = (if x = y then 0 else 1) + changes y ys"

lemma chain_changes:
  fixes us ys :: "('v, 's, 't) IntValue list"
  shows "widen_chain (InterVal a b) us = Some ys \<Longrightarrow>
    changes (InterVal a b) ys \<le> finite_ends (InterVal a b :: ('v, 's, 't) IntValue)"
proof (induction us arbitrary: a b ys)
  case (Cons u us)
  from Cons.prems obtain y zs where y: "widen_IntValue (InterVal a b) u = Some y"
    and zs: "widen_chain y us = Some zs" "ys = y # zs"
    by (auto simp: bind_eq_Some_conv)
  obtain e f where ef: "y = InterVal e f" "e = a \<or> e = MinusInf \<and> a \<noteq> MinusInf" "f = b \<or> f = PlusInf \<and> b \<noteq> PlusInf"
    using widen_shape [OF y] by blast
  have "changes y zs \<le> finite_ends y"
    using Cons.IH zs(1) unfolding ef(1) by blast
  then show ?case
    using ef zs(2) by (auto simp: finite_ends_def)
qed simp

lemma chain_upper:
  fixes us ys :: "('v, 's, 't) IntValue list"
  shows "widen_chain (InterVal a b) us = Some ys \<Longrightarrow> x \<in> set (InterVal a b # us) \<Longrightarrow>
    conc x \<subseteq> conc (last (InterVal a b # ys))"
proof (induction us arbitrary: a b ys x)
  case (Cons u us)
  from Cons.prems obtain y zs where y: "widen_IntValue (InterVal a b) u = Some y"
    and zs: "widen_chain y us = Some zs" "ys = y # zs"
    by (auto simp: bind_eq_Some_conv)
  obtain e f where ef: "y = InterVal e f"
    using widen_shape [OF y] by blast
  have step: "conc (InterVal a b :: ('v, 's, 't) IntValue) \<union> conc u \<subseteq> conc y"
    by (rule widen_upper [OF y])
  have rest: "conc t \<subseteq> conc (last (y # zs))" if "t \<in> set (y # us)" for t
    using Cons.IH [OF zs(1) [unfolded ef] that [unfolded ef]] unfolding ef .
  have "conc y \<subseteq> conc (last (y # zs))"
    by (rule rest) simp
  moreover have "conc x \<subseteq> conc y \<or> x \<in> set (y # us)"
    using step Cons.prems(2) by auto
  ultimately have "conc x \<subseteq> conc (last (y # zs))"
    using rest by blast
  then show ?case unfolding zs(2) by simp
qed simp

lemma chain_defined:
  fixes us :: "('v, 's, 't) IntValue list"
  shows "\<forall>u\<in>set us. \<exists>c d. u = InterVal c d \<Longrightarrow> \<exists>ys. widen_chain (InterVal a b) us = Some ys"
proof (induction us arbitrary: a b)
  case (Cons u us)
  then obtain c d where u: "u = InterVal c d" by auto
  then obtain y where y: "widen_IntValue (InterVal a b) u = Some y"
    by (cases "u = InterVal a b") (auto simp: widen_IntValue_def)
  then obtain e f where ef: "y = InterVal e f"
    using widen_shape by blast
  obtain zs where "widen_chain (InterVal e f) us = Some zs"
    using Cons.IH [of e f] Cons.prems by auto
  then show ?case
    using y ef by auto
qed simp

text \<open>C19: however long a sequence of intervals is, widening a first interval with them one after the other never raises an error, changes the value at most twice, and the last value contains every interval of the sequence.\<close>

theorem widening_stabilises:
  fixes us :: "('v, 's, 't) IntValue list"
  assumes "\<forall>u\<in>set us. \<exists>c d. u = InterVal c d"
  shows "\<exists>ys. widen_chain (InterVal a b) us = Some ys \<and> changes (InterVal a b) ys \<le> 2 \<and>
    (\<forall>x\<in>set (InterVal a b # us). conc x \<subseteq> conc (last (InterVal a b # ys)))"
proof -
  obtain ys where ys: "widen_chain (InterVal a b) us = Some ys"
    using chain_defined [OF assms] by blast
  have "changes (InterVal a b) ys \<le> 2"
    using chain_changes [OF ys] by (auto simp: finite_ends_def split: if_splits)
  then show ?thesis
    using ys chain_upper [OF ys] by blast
qed

theorem widening_stabilises_witness:
  "\<exists>ys. widen_chain (InterVal (I 0) (I 0)) [InterVal (I 0) (I 1), InterVal (I 0) (I 2), InterVal (I (- 1)) (I 3) :: (unit, unit, unit) IntValue]
      = Some ys \<and> changes (InterVal (I 0) (I 0)) ys \<le> 2 \<and> conc (last ys) = UNIV"
  using widening_stabilises [of "[InterVal (I 0) (I 1), InterVal (I 0) (I 2), InterVal (I (- 1)) (I 3) :: (unit, unit, unit) IntValue]" "I 0" "I 0"]
  by (simp add: widen_IntValue_def)

text \<open>C37: the negation of an interval with two different finite ends keeps their order, so that the result stands for no integer at all, although every integer of the interval has a negation.\<close>

theorem negate_interval_loses:
  assumes "in_Int a" "in_Int b" "a < b" "a \<noteq> - (2 ^ 63)"
  shows "\<exists>w. negate_IntValue minus_value (InterVal (I a) (I b) :: ('v, 's, 't) IntValue) = Some w \<and> conc w = {}"
proof -
  have "in_Int (- a)" "in_Int (- b)"
    using assms by (auto simp: in_Int_def)
  then show ?thesis using assms(3) by (auto simp: wrap_in_Int)
qed

theorem negate_interval_loses_witness:
  "\<exists>w. negate_IntValue id (InterVal (I 1) (I 2) :: (unit, unit, unit) IntValue) = Some w \<and> conc w = {}"
  using negate_interval_loses [of 1 2 id] by (simp add: in_Int_def)

section \<open>Arithmetic\<close>

text \<open>The finite ends of an interval, and that an operation on the ends of two intervals does not overflow.\<close>

fun ends :: "('v, 's, 't) IntValue \<Rightarrow> int list" where
  "ends (InterVal a b) = concat (map (\<lambda>e. case e of I n \<Rightarrow> [n] | _ \<Rightarrow> []) [a, b])"
| "ends _ = []"

definition fits :: "(int \<Rightarrow> int \<Rightarrow> int) \<Rightarrow> ('v, 's, 't) IntValue \<Rightarrow> ('v, 's, 't) IntValue \<Rightarrow> bool" where
  "fits f u v = list_all (\<lambda>p. list_all (\<lambda>q. in_Int (f p q)) (ends v)) (ends u)"

lemma plus_sound:
  assumes "x \<in> conc (InterVal a b)" "y \<in> conc (InterVal c d)" "fits (+) (InterVal a b) (InterVal c d)"
  shows "\<exists>w. plus_IntValue f (InterVal a b) (InterVal c d) = Some w \<and> x + y \<in> conc w"
  using assms by (cases a; cases b; cases c; cases d) (auto simp: fits_def wrap_in_Int)

lemma sub_sound:
  assumes "x \<in> conc (InterVal a b)" "y \<in> conc (InterVal c d)" "fits (-) (InterVal a b) (InterVal c d)"
    "sub_IntValue f (InterVal a b) (InterVal c d) = Some w"
  shows "x - y \<in> conc w"
  using assms by (cases a; cases b; cases c; cases d) (auto simp: fits_def wrap_in_Int)

lemma sub_fails:
  assumes "x \<in> conc (InterVal a b)" "y \<in> conc (InterVal c d)"
  shows "sub_IntValue f (InterVal a b) (InterVal c d) = None \<longleftrightarrow>
    a = MinusInf \<and> d = PlusInf \<or> b = PlusInf \<and> c = MinusInf"
  using assms by (cases a; cases b; cases c; cases d) auto

lemma scale_between:
  assumes "p \<le> z" "z \<le> (q :: int)"
  shows "min (k * p) (k * q) \<le> k * z \<and> k * z \<le> max (k * p) (k * q)"
proof (cases "0 \<le> k")
  case True
  then show ?thesis using assms by (auto simp: min_le_iff_disj le_max_iff_disj mult_left_mono)
next
  case False
  then show ?thesis using assms by (auto simp: min_le_iff_disj le_max_iff_disj mult_left_mono_neg)
qed

lemma min_max_chain:
  fixes r :: int
  shows "min p q \<le> r \<Longrightarrow> min k l \<le> p \<Longrightarrow> min m n \<le> q \<Longrightarrow> min k (min l (min m n)) \<le> r"
    "r \<le> max p q \<Longrightarrow> p \<le> max k l \<Longrightarrow> q \<le> max m n \<Longrightarrow> r \<le> max k (max l (max m n))"
  by linarith+

lemma product_between:
  assumes "a \<le> x" "x \<le> b" "c \<le> y" "y \<le> (d :: int)"
  shows "min (a * c) (min (a * d) (min (b * c) (b * d))) \<le> x * y \<and>
    x * y \<le> max (a * c) (max (a * d) (max (b * c) (b * d)))"
proof -
  have 1: "min (a * y) (b * y) \<le> x * y \<and> x * y \<le> max (a * y) (b * y)"
    using scale_between [of a x b y] assms by (simp add: mult.commute)
  have 2: "min (a * c) (a * d) \<le> a * y \<and> a * y \<le> max (a * c) (a * d)"
    by (rule scale_between) (use assms in auto)
  have 3: "min (b * c) (b * d) \<le> b * y \<and> b * y \<le> max (b * c) (b * d)"
    by (rule scale_between) (use assms in auto)
  show ?thesis
    using min_max_chain(1) [OF conjunct1 [OF 1] conjunct1 [OF 2] conjunct1 [OF 3]]
      min_max_chain(2) [OF conjunct2 [OF 1] conjunct2 [OF 2] conjunct2 [OF 3]] by (rule conjI)
qed

lemma min_max_I [simp]: "min (I a) (I b) = I (min a b)" "max (I a) (I b) = I (max a b)"
  by (auto simp: min_def max_def)

lemma mult_sound:
  assumes "x \<in> conc (InterVal (I a) (I b))" "y \<in> conc (InterVal (I c) (I d))"
    "fits (*) (InterVal (I a) (I b)) (InterVal (I c) (I d))"
  shows "\<exists>w. mult_IntValue f (InterVal (I a) (I b)) (InterVal (I c) (I d)) = Some w \<and> x * y \<in> conc w"
proof -
  have wraps: "wrap (a * c) = a * c" "wrap (a * d) = a * d" "wrap (b * c) = b * c" "wrap (b * d) = b * d"
    using assms(3) by (auto simp: fits_def wrap_in_Int)
  show ?thesis
    using product_between [of a x b c y d] assms(1,2) by (simp add: wraps)
qed

lemma quotient_between:
  assumes "1 \<le> c" "c \<le> y" "y \<le> d" "a \<le> x" "x \<le> (b :: int)"
  shows "min (a div c) (a div d) \<le> x div y \<and> x div y \<le> max (b div c) (b div d)"
proof
  have "a div y \<le> x div y" "x div y \<le> b div y"
    using assms by (auto intro: zdiv_mono1)
  moreover have "min (a div c) (a div d) \<le> a div y"
    using assms zdiv_mono2 [of a y d] zdiv_mono2_neg [of a c y] by (cases "0 \<le> a") auto
  moreover have "b div y \<le> max (b div c) (b div d)"
    using assms zdiv_mono2 [of b c y] zdiv_mono2_neg [of b y d] by (cases "0 \<le> b") auto
  ultimately show "min (a div c) (a div d) \<le> x div y" "x div y \<le> max (b div c) (b div d)"
    by linarith+
qed

lemma quotient_between_neg:
  assumes "d \<le> - 1" "c \<le> y" "y \<le> d" "a \<le> x" "x \<le> (b :: int)"
  shows "min (b div c) (b div d) \<le> x div y \<and> x div y \<le> max (a div c) (a div d)"
  using quotient_between [of "- d" "- y" "- c" "- b" "- x" "- a"] assms
  by (simp add: min.commute max.commute)

lemma divide_finite:
  "c \<noteq> 0 \<Longrightarrow> - (2 ^ 63) < a \<Longrightarrow> divide_IVal (I a) (I c) = Some (I (a div c))"
  by (auto simp: divide_IVal_def div_Int_def)

lemma divide_positive:
  assumes "1 \<le> c" "- (2 ^ 63) < a" "a \<le> b" "c \<le> d"
  shows "\<exists>w. interval_div (InterVal (I a) (I b) :: ('v, 's, 't) IntValue) (InterVal (I c) (I d)) = Some w \<and> interval w \<and>
    (\<forall>x y. a \<le> x \<and> x \<le> b \<and> c \<le> y \<and> y \<le> d \<longrightarrow> x div y \<in> conc w)"
proof -
  have "min (a div c) (a div d) \<le> max (b div c) (b div d)"
    using quotient_between [of c c d a a b] assms by linarith
  then show ?thesis
    using assms quotient_between [of c _ d a _ b] by (simp add: divide_finite)
qed

lemma divide_negative:
  assumes "d \<le> - 1" "- (2 ^ 63) < a" "a \<le> b" "c \<le> d"
  shows "\<exists>w. interval_div (InterVal (I a) (I b) :: ('v, 's, 't) IntValue) (InterVal (I c) (I d)) = Some w \<and> interval w \<and>
    (\<forall>x y. a \<le> x \<and> x \<le> b \<and> c \<le> y \<and> y \<le> d \<longrightarrow> x div y \<in> conc w)"
proof -
  have "min (b div c) (b div d) \<le> max (a div c) (a div d)"
    using quotient_between_neg [of d c c a a b] assms by linarith
  then show ?thesis
    using assms quotient_between_neg [of d c _ a _ b] by (simp add: divide_finite)
qed

lemma join_interval:
  fixes u v :: "('v, 's, 't) IntValue"
  assumes "interval u" "interval v"
  shows "\<exists>j. join_IntValue u v = Some j \<and> conc u \<union> conc v \<subseteq> conc j"
proof -
  obtain j where j: "join_IntValue u v = Some j"
    using assms by (cases u; cases v) auto
  then show ?thesis using join_conc [OF assms j] assms by (simp add: le_IntValue_conc)
qed

lemma divide_part_positive:
  fixes v :: "('v, 's, 't) IntValue"
  assumes "- (2 ^ 63) < a" "a \<le> b" "c \<le> d" "meet_IntValue (InterVal (I c) (I d)) (InterVal (I 1) PlusInf) = Some v"
  shows "\<exists>w. interval_div (InterVal (I a) (I b)) v = Some w \<and> interval w \<and>
    (\<forall>x y. a \<le> x \<and> x \<le> b \<and> c \<le> y \<and> y \<le> d \<and> 0 < y \<longrightarrow> x div y \<in> conc w)"
proof (cases "1 \<le> d")
  case True
  then have v: "v = InterVal (I (max c 1)) (I d)"
    using assms by (auto simp: Let_def min_def)
  show ?thesis
    using divide_positive [of "max c 1" a b d] assms True unfolding v by auto
next
  case False
  then have "v = IntBot" using assms by (auto simp: Let_def min_def max_def split: if_splits)
  then show ?thesis using False by auto
qed

lemma divide_part_negative:
  fixes v :: "('v, 's, 't) IntValue"
  assumes "- (2 ^ 63) < a" "a \<le> b" "c \<le> d" "meet_IntValue (InterVal (I c) (I d)) (InterVal MinusInf (I (- 1))) = Some v"
  shows "\<exists>w. interval_div (InterVal (I a) (I b)) v = Some w \<and> interval w \<and>
    (\<forall>x y. a \<le> x \<and> x \<le> b \<and> c \<le> y \<and> y \<le> d \<and> y < 0 \<longrightarrow> x div y \<in> conc w)"
proof (cases "c \<le> - 1")
  case True
  then have v: "v = InterVal (I c) (I (min d (- 1)))"
    using assms by (auto simp: Let_def max_def)
  show ?thesis
    using divide_negative [of "min d (- 1)" a b c] assms True unfolding v by auto
next
  case False
  then have "v = IntBot" using assms by (auto simp: Let_def min_def max_def split: if_splits)
  then show ?thesis using False by auto
qed

lemma divide_sound:
  assumes "- (2 ^ 63) < a" "x \<in> conc (InterVal (I a) (I b))" "y \<in> conc (InterVal (I c) (I d))" "y \<noteq> 0"
  shows "\<exists>w. iDivide f (InterVal (I a) (I b) :: ('v, 's, 't) IntValue) (InterVal (I c) (I d)) = Some w \<and> x div y \<in> conc w"
proof -
  have le: "a \<le> b" "c \<le> d" using assms by auto
  obtain p n :: "('v, 's, 't) IntValue" where p: "meet_IntValue (InterVal (I c) (I d)) (InterVal (I 1) PlusInf) = Some p"
    and n: "meet_IntValue (InterVal (I c) (I d)) (InterVal MinusInf (I (- 1))) = Some n"
    by (auto simp: Let_def)
  obtain q1 q2 where q1: "interval_div (InterVal (I a) (I b)) p = Some q1" "interval q1"
      "\<And>x y. a \<le> x \<and> x \<le> b \<and> c \<le> y \<and> y \<le> d \<and> 0 < y \<Longrightarrow> x div y \<in> conc q1"
    and q2: "interval_div (InterVal (I a) (I b)) n = Some q2" "interval q2"
      "\<And>x y. a \<le> x \<and> x \<le> b \<and> c \<le> y \<and> y \<le> d \<and> y < 0 \<Longrightarrow> x div y \<in> conc q2"
    using divide_part_positive [OF assms(1) le p] divide_part_negative [OF assms(1) le n] by blast
  obtain j where j: "join_IntValue q1 q2 = Some j" "conc q1 \<union> conc q2 \<subseteq> conc j"
    using join_interval [OF q1(2) q2(2)] by blast
  have "x div y \<in> conc q1 \<union> conc q2"
    using q1(3) [of x y] q2(3) [of x y] assms(2-4) by fastforce
  then show ?thesis
    using p n q1(1) q2(1) j by (auto simp del: meet_IntValue.simps)
qed

text \<open>C21: for intervals with finite ends the sum, the difference, the product and the quotient rounded down of any two members are members of the result, as long as no operation on the ends overflows and the divisor is not 0. With infinite ends the difference and the product can be errors, see \<open>sub_fails\<close>.\<close>

theorem interval_arithmetic_sound:
  fixes u v :: "('v, 's, 't) IntValue"
  assumes "u = InterVal (I a) (I b)" "v = InterVal (I c) (I d)" "x \<in> conc u" "y \<in> conc v"
  shows "(fits (+) u v \<longrightarrow> (\<exists>w. plus_IntValue f u v = Some w \<and> x + y \<in> conc w)) \<and>
    (fits (-) u v \<longrightarrow> (\<exists>w. sub_IntValue g u v = Some w \<and> x - y \<in> conc w)) \<and>
    (fits (*) u v \<longrightarrow> (\<exists>w. mult_IntValue h u v = Some w \<and> x * y \<in> conc w)) \<and>
    (- (2 ^ 63) < a \<and> y \<noteq> 0 \<longrightarrow> (\<exists>w. iDivide k u v = Some w \<and> x div y \<in> conc w))"
proof (intro conjI impI)
  note xy = assms(3,4) [unfolded assms(1,2)]
  show "\<exists>w. plus_IntValue f u v = Some w \<and> x + y \<in> conc w" if "fits (+) u v"
    using plus_sound [OF xy] that unfolding assms(1,2) by blast
  show "\<exists>w. sub_IntValue g u v = Some w \<and> x - y \<in> conc w" if "fits (-) u v"
    using sub_sound [OF xy] sub_fails [OF xy] that unfolding assms(1,2) by fastforce
  show "\<exists>w. mult_IntValue h u v = Some w \<and> x * y \<in> conc w" if "fits (*) u v"
    using mult_sound [OF xy] that unfolding assms(1,2) by blast
  show "\<exists>w. iDivide k u v = Some w \<and> x div y \<in> conc w" if "- (2 ^ 63) < a \<and> y \<noteq> 0"
    using divide_sound [OF _ xy] that unfolding assms(1,2) by blast
qed

theorem interval_arithmetic_sound_witness:
  "(\<exists>w. mult_IntValue (\<lambda>a b. a) (InterVal (I (- 2)) (I 3)) (InterVal (I (- 5)) (I 4) :: (unit, unit, unit) IntValue) = Some w \<and> 3 * (- 5) \<in> conc w) \<and>
   (\<exists>w. iDivide (\<lambda>a b. a) (InterVal (I (- 2)) (I 3)) (InterVal (I (- 5)) (I 4) :: (unit, unit, unit) IntValue) = Some w \<and> 3 div (- 5) \<in> conc w)"
  using interval_arithmetic_sound [of "InterVal (I (- 2)) (I 3)" "- 2" 3
      "InterVal (I (- 5)) (I 4) :: (unit, unit, unit) IntValue" "- 5" 4 3 "- 5" "\<lambda>a b. a" "\<lambda>a b. a" "\<lambda>a b. a" "\<lambda>a b. a"]
  by (simp add: fits_def in_Int_def del: mult_IntValue.simps iDivide.simps)

text \<open>The quotient rounds down, but C rounds towards zero: for a negative dividend that the divisor does not divide, the quotient a C program computes is not in the result.\<close>

theorem division_misses_c_quotient:
  assumes "- (2 ^ 63) < a" "a < 0" "0 < c" "\<not> c dvd a"
  shows "iDivide f (InterVal (I a) (I a) :: ('v, 's, 't) IntValue) (InterVal (I c) (I c)) = Some (InterVal (I (a div c)) (I (a div c))) \<and>
    - ((- a) div c) \<notin> conc (InterVal (I (a div c)) (I (a div c)) :: ('v, 's, 't) IntValue)"
proof -
  have "a mod c \<noteq> 0" using assms(4) by (simp add: dvd_eq_mod_eq_0)
  then have "- ((- a) div c) \<noteq> a div c" using zdiv_zminus1_eq_if [of c a] assms(3) by simp
  moreover have "1 < c" using assms(3,4) by (cases "c = 1") auto
  ultimately show ?thesis
    using assms by (auto simp: Let_def divide_finite min_def max_def)
qed

theorem division_misses_c_quotient_witness:
  "iDivide (\<lambda>a b. a) (InterVal (I (- 1)) (I (- 1)) :: (unit, unit, unit) IntValue) (InterVal (I 2) (I 2)) = Some (InterVal (I (- 1)) (I (- 1)))"
  using division_misses_c_quotient [of "- 1" 2 "\<lambda>a b. a"] by simp

section \<open>Offsets of arrays\<close>

text \<open>An offset is a non-empty interval whose ends have a successor and a predecessor.\<close>

fun offset_ok :: "('v, 's, 't) IntValue \<Rightarrow> bool" where
  "offset_ok (InterVal a b) \<longleftrightarrow> a \<le> b \<and> a \<noteq> PlusInf \<and> b \<noteq> MinusInf \<and>
     (case a of I n \<Rightarrow> - (2 ^ 63) < n \<and> n < 2 ^ 63 | _ \<Rightarrow> True) \<and>
     (case b of I n \<Rightarrow> - (2 ^ 63) \<le> n \<and> n < 2 ^ 63 - 1 | _ \<Rightarrow> True)"
| "offset_ok _ \<longleftrightarrow> False"

definition covered :: "('v, 's, 't) offs_list \<Rightarrow> int set" where
  "covered xs = (\<Union>(a, v)\<in>set xs. conc a)"

lemma covered_simps [simp]: "covered [] = {}" "covered ((a, v) # xs) = conc a \<union> covered xs"
  by (auto simp: covered_def)

lemma offset_above:
  assumes "offset_ok (InterVal a c :: ('v, 's, 't) IntValue)" "offset_ok (InterVal b d :: ('v, 's, 't) IntValue)" "c < d"
  shows "offset_ok (InterVal (succ_IVal c) d :: ('v, 's, 't) IntValue)"
    "conc (InterVal a c :: ('v, 's, 't) IntValue) \<union> conc (InterVal (succ_IVal c) d :: ('v, 's, 't) IntValue) = conc (InterVal a d :: ('v, 's, 't) IntValue)"
proof -
  obtain n where n: "c = I n" "n < 2 ^ 63 - 1" "- (2 ^ 63) \<le> n"
    using assms by (cases c) auto
  then have s: "succ_IVal c = I (n + 1)"
    by (simp add: succ_IVal_def wrap_in_Int in_Int_def)
  show "offset_ok (InterVal (succ_IVal c) d :: ('v, 's, 't) IntValue)"
    using assms n unfolding s by (cases d) auto
  show "conc (InterVal a c :: ('v, 's, 't) IntValue) \<union> conc (InterVal (succ_IVal c) d :: ('v, 's, 't) IntValue) = conc (InterVal a d :: ('v, 's, 't) IntValue)"
    using assms n unfolding s by (cases a; cases d) auto
qed

lemma offset_below:
  assumes "offset_ok (InterVal a c :: ('v, 's, 't) IntValue)" "offset_ok (InterVal b d :: ('v, 's, 't) IntValue)" "a < b"
  shows "b \<le> e \<Longrightarrow> conc (InterVal a (pred_IVal b) :: ('v, 's, 't) IntValue) \<union> conc (InterVal b e :: ('v, 's, 't) IntValue) = conc (InterVal a e :: ('v, 's, 't) IntValue)"
proof -
  obtain n where n: "b = I n" "n < 2 ^ 63" "- (2 ^ 63) < n"
    using assms by (cases b) auto
  then have p: "pred_IVal b = I (n - 1)"
    by (simp add: pred_IVal_def wrap_in_Int in_Int_def)
  show "conc (InterVal a (pred_IVal b) :: ('v, 's, 't) IntValue) \<union> conc (InterVal b e :: ('v, 's, 't) IntValue) = conc (InterVal a e :: ('v, 's, 't) IntValue)" if "b \<le> e"
    using assms n that unfolding p by (cases a; cases e) auto
qed

definition merges :: "(('v, 's, 't) IntValue \<Rightarrow> ('v, 's, 't) IntValue \<Rightarrow> ('v, 's, 't) IntValue option) \<Rightarrow> (('v, 's, 't) IntValue \<Rightarrow> bool) \<Rightarrow> ('v, 's, 't) offs_list \<Rightarrow> ('v, 's, 't) offs_list \<Rightarrow> bool" where
  "merges f P x1 x2 \<longleftrightarrow> (\<exists>r. gen_intval_list f x1 x2 = Some r \<and> list_all (\<lambda>(a, v). P v) r \<and> covered r = covered x1 \<union> covered x2)"

lemma merges_step:
  assumes "merges f P y1 y2" "gen_intval_list f x1 x2 = do { r \<leftarrow> gen_intval_list f y1 y2; Some (pre @ r) }"
    "list_all (\<lambda>(a, v). P v) pre" "covered pre \<union> covered y1 \<union> covered y2 = covered x1 \<union> covered x2"
  shows "merges f P x1 x2"
proof -
  have "covered (pre @ r) = covered pre \<union> covered r" for r
    by (auto simp: covered_def)
  then show ?thesis using assms unfolding merges_def by (auto simp: Un_assoc)
qed

abbreviation offsets_ok :: "(('v, 's, 't) IntValue \<Rightarrow> bool) \<Rightarrow> ('v, 's, 't) offs_list \<Rightarrow> bool" where
  "offsets_ok P xs \<equiv> list_all (\<lambda>(a, v). offset_ok a \<and> P v) xs"

definition merges_below :: "(('v, 's, 't) IntValue \<Rightarrow> ('v, 's, 't) IntValue \<Rightarrow> ('v, 's, 't) IntValue option) \<Rightarrow> (('v, 's, 't) IntValue \<Rightarrow> bool) \<Rightarrow> nat \<Rightarrow> bool" where
  "merges_below f P n \<longleftrightarrow> (\<forall>y1 y2. length y1 + length y2 < n \<longrightarrow> offsets_ok P y1 \<longrightarrow> offsets_ok P y2 \<longrightarrow> merges f P y1 y2)"

lemma merges_same:
  fixes x1 x2 :: "('v, 's, 't) offs_list"
  assumes ih: "merges_below f P (Suc (Suc (length x1 + length x2)))"
    and ok: "offset_ok (InterVal a1 a2 :: ('v, 's, 't) IntValue)" "offset_ok (InterVal b1 b2 :: ('v, 's, 't) IntValue)" "P v" "P u" "offsets_ok P x1" "offsets_ok P x2"
    and w: "f v u = Some w" "P w"
    and eq: "a1 = b1"
  shows "merges f P ((InterVal a1 a2, v) # x1) ((InterVal b1 b2, u) # x2)"
proof -
  note le = ok(1,2) [unfolded offset_ok.simps] and ih = ih [unfolded merges_below_def, rule_format]
  consider "a1 = b1" "a2 = b2" | "a1 = b1" "a2 < b2" | "a1 = b1" "b2 < a2"
    by (use eq in \<open>metis linorder_cases\<close>)
  then show ?thesis
  proof cases
    case 1
    show ?thesis
      by (rule merges_step [OF ih [of x1 x2], where pre = "[(InterVal a1 a2, w)]"])
        (use 1 ok w in auto)
  next
    case 2
    show ?thesis
      by (rule merges_step [OF ih [of x1 "(InterVal (succ_IVal a2) b2, u) # x2"], where pre = "[(InterVal a1 a2, w)]"])
        (use 2 ok w offset_above [OF ok(1,2) 2(2)] in \<open>auto simp del: conc.simps offset_ok.simps\<close>)
  next
    case 3
    show ?thesis
      by (rule merges_step [OF ih [of "(InterVal (succ_IVal b2) a2, v) # x1" x2], where pre = "[(InterVal b1 b2, w)]"])
        (use 3 ok w offset_above [OF ok(2,1) 3(2)] in \<open>auto simp del: conc.simps offset_ok.simps\<close>)
  qed
qed

lemma merges_left:
  fixes x1 x2 :: "('v, 's, 't) offs_list"
  assumes ih: "merges_below f P (Suc (Suc (length x1 + length x2)))"
    and ok: "offset_ok (InterVal a1 a2 :: ('v, 's, 't) IntValue)" "offset_ok (InterVal b1 b2 :: ('v, 's, 't) IntValue)" "P v" "P u" "offsets_ok P x1" "offsets_ok P x2"
    and w: "f v u = Some w" "P w"
    and lt: "a1 < b1"
  shows "merges f P ((InterVal a1 a2, v) # x1) ((InterVal b1 b2, u) # x2)"
proof -
  note le = ok(1,2) [unfolded offset_ok.simps] and ih = ih [unfolded merges_below_def, rule_format]
  consider "a1 < b1" "a2 = b2" | "a1 < b1" "a2 < b2" "a2 < b1" | "a1 < b1" "a2 < b2" "b1 \<le> a2" | "a1 < b1" "b2 < a2"
    by (use lt in \<open>metis linorder_cases not_le\<close>)
  then show ?thesis
  proof cases
    case 1
    show ?thesis
      by (rule merges_step [OF ih [of x1 x2], where pre = "[(InterVal a1 (pred_IVal b1), v), (InterVal b1 b2, w)]"])
        (use 1 ok w offset_below [OF ok(1,2) 1(1)] le in \<open>auto simp del: conc.simps offset_ok.simps\<close>)
  next
    case 2
    show ?thesis
      by (rule merges_step [OF ih [of x1 "(InterVal b1 b2, u) # x2"], where pre = "[(InterVal a1 a2, v)]"])
        (use 2 ok w in \<open>auto simp del: conc.simps offset_ok.simps\<close>)
  next
    case 3
    have mid: "offset_ok (InterVal b1 a2 :: ('v, 's, 't) IntValue)" using ok(1,2) 3(3) by simp
    show ?thesis
      by (rule merges_step [OF ih [of x1 "(InterVal (succ_IVal a2) b2, v) # x2"],
            where pre = "[(InterVal a1 (pred_IVal b1), v), (InterVal b1 a2, w)]"])
        (use 3 ok w offset_above [OF mid ok(2) 3(2)] offset_below [OF ok(1,2) 3(1,3)]
          in \<open>auto simp del: conc.simps offset_ok.simps\<close>)
  next
    case 4
    have "b1 \<le> a2" using 4(2) le by auto
    then show ?thesis
      by (intro merges_step [OF ih [of "(InterVal (succ_IVal b2) a2, u) # x1" x2],
            where pre = "[(InterVal a1 (pred_IVal b1), v), (InterVal b1 b2, w)]"])
        (use 4 ok w offset_above [OF ok(2,1) 4(2)] offset_below [OF ok(1,2) 4(1)]
          in \<open>auto simp del: conc.simps offset_ok.simps\<close>)
  qed
qed

lemma merges_right:
  fixes x1 x2 :: "('v, 's, 't) offs_list"
  assumes ih: "merges_below f P (Suc (Suc (length x1 + length x2)))"
    and ok: "offset_ok (InterVal a1 a2 :: ('v, 's, 't) IntValue)" "offset_ok (InterVal b1 b2 :: ('v, 's, 't) IntValue)" "P v" "P u" "offsets_ok P x1" "offsets_ok P x2"
    and w: "f v u = Some w" "P w"
    and lt: "b1 < a1"
  shows "merges f P ((InterVal a1 a2, v) # x1) ((InterVal b1 b2, u) # x2)"
proof -
  note le = ok(1,2) [unfolded offset_ok.simps] and ih = ih [unfolded merges_below_def, rule_format]
  consider "b1 < a1" "a2 = b2" | "b1 < a1" "b2 < a2" "b2 < a1" | "b1 < a1" "b2 < a2" "a1 \<le> b2" | "b1 < a1" "a2 < b2"
    by (use lt in \<open>metis linorder_cases not_le\<close>)
  then show ?thesis
  proof cases
    case 1
    show ?thesis
      by (rule merges_step [OF ih [of x1 x2], where pre = "[(InterVal b1 (pred_IVal a1), u), (InterVal a1 a2, w)]"])
        (use 1 ok w offset_below [OF ok(2,1) 1(1)] le in \<open>auto simp del: conc.simps offset_ok.simps\<close>)
  next
    case 2
    show ?thesis
      by (rule merges_step [OF ih [of "(InterVal a1 a2, v) # x1" x2], where pre = "[(InterVal b1 b2, u)]"])
        (use 2 ok w in \<open>auto simp del: conc.simps offset_ok.simps\<close>)
  next
    case 3
    have mid: "offset_ok (InterVal a1 b2 :: ('v, 's, 't) IntValue)" using ok(1,2) 3(3) by simp
    show ?thesis
      by (rule merges_step [OF ih [of "(InterVal (succ_IVal b2) a2, u) # x1" x2],
            where pre = "[(InterVal b1 (pred_IVal a1), u), (InterVal a1 b2, w)]"])
        (use 3 ok w offset_above [OF mid ok(1) 3(2)] offset_below [OF ok(2,1) 3(1,3)]
          in \<open>auto simp del: conc.simps offset_ok.simps\<close>)
  next
    case 4
    have "a1 \<le> b2" using 4(2) le by auto
    then show ?thesis
      by (intro merges_step [OF ih [of x1 "(InterVal (succ_IVal a2) b2, v) # x2"],
            where pre = "[(InterVal b1 (pred_IVal a1), u), (InterVal a1 a2, w)]"])
        (use 4 ok w offset_above [OF ok(1,2) 4(2)] offset_below [OF ok(2,1) 4(1)]
          in \<open>auto simp del: conc.simps offset_ok.simps\<close>)
  qed
qed

lemma merges_cons:
  fixes x1 x2 :: "('v, 's, 't) offs_list"
  assumes ih: "merges_below f P (Suc (Suc (length x1 + length x2)))"
    and ok: "offset_ok (InterVal a1 a2 :: ('v, 's, 't) IntValue)" "offset_ok (InterVal b1 b2 :: ('v, 's, 't) IntValue)" "P v" "P u" "offsets_ok P x1" "offsets_ok P x2"
    and w: "f v u = Some w" "P w"
  shows "merges f P ((InterVal a1 a2, v) # x1) ((InterVal b1 b2, u) # x2)"
  using merges_same [OF assms] merges_left [OF assms] merges_right [OF assms] by (metis linorder_cases)

lemma merges_lists:
  fixes x1 x2 :: "('v, 's, 't) offs_list"
  assumes "\<And>v u. P v \<Longrightarrow> P u \<Longrightarrow> \<exists>w. f v u = Some w \<and> P w"
  shows "offsets_ok P x1 \<Longrightarrow> offsets_ok P x2 \<Longrightarrow> merges f P x1 x2"
proof (induction "length x1 + length x2" arbitrary: x1 x2 rule: less_induct)
  case less
  have vals: "list_all (\<lambda>(a, v). P v) xs" if "offsets_ok P xs" for xs :: "('v, 's, 't) offs_list"
    using that by (auto simp: list_all_iff)
  show ?case
  proof (cases "x1 = [] \<or> x2 = []")
    case True
    then show ?thesis
      using vals less.prems by (cases x1) (auto simp: merges_def)
  next
    case False
    then obtain a v y1 b u y2 where x: "x1 = (a, v) # y1" "x2 = (b, u) # y2"
      by (metis neq_Nil_conv surj_pair)
    with less.prems obtain a1 a2 b1 b2 where ab: "a = InterVal a1 a2" "b = InterVal b1 b2"
      by (cases a; cases b) auto
    obtain w where "f v u = Some w" "P w"
      using assms less.prems x by auto
    then show ?thesis
      using less unfolding x ab by (intro merges_cons) (auto simp: merges_below_def)
  qed
qed

text \<open>C22: joining or meeting two lists of offsets with interval values returns a list that covers exactly the offsets of both, with interval values.\<close>

theorem offsets_cover:
  fixes x1 x2 :: "('v, 's, 't) offs_list"
  assumes "offsets_ok interval x1" "offsets_ok interval x2"
  shows "\<exists>j m. join_offs x1 x2 = Some j \<and> covered j = covered x1 \<union> covered x2 \<and> list_all (\<lambda>(a, v). interval v) j \<and>
    meet_offs x1 x2 = Some m \<and> covered m = covered x1 \<union> covered x2 \<and> list_all (\<lambda>(a, v). interval v) m"
proof -
  have "merges join_IntValue interval x1 x2"
  proof (rule merges_lists [OF _ assms])
    fix u v :: "('v, 's, 't) IntValue"
    assume uv: "interval v" "interval u"
    then obtain j where "join_IntValue v u = Some j" using join_interval by blast
    then show "\<exists>w. join_IntValue v u = Some w \<and> interval w" using join_conc(1) [OF uv] by blast
  qed
  moreover have "merges meet_IntValue interval x1 x2"
  proof (rule merges_lists [OF _ assms])
    fix u v :: "('v, 's, 't) IntValue"
    assume uv: "interval v" "interval u"
    then obtain j where "meet_IntValue v u = Some j" by (cases v; cases u) (auto simp: Let_def)
    then show "\<exists>w. meet_IntValue v u = Some w \<and> interval w" using meet_conc(1) [OF uv] by blast
  qed
  ultimately show ?thesis by (auto simp: merges_def join_offs_def meet_offs_def)
qed

theorem offsets_cover_witness:
  "\<exists>j. join_offs [(InterVal (I 0) (I 4), InterVal (I 1) (I 1))]
      [(InterVal (I 2) PlusInf, InterVal (I 5) (I 5)) :: (unit, unit, unit) IntValue \<times> (unit, unit, unit) IntValue] = Some j \<and>
    covered j = {0..}"
proof -
  obtain j where j: "join_offs [(InterVal (I 0) (I 4), InterVal (I 1) (I 1))]
      [(InterVal (I 2) PlusInf, InterVal (I 5) (I 5)) :: (unit, unit, unit) IntValue \<times> (unit, unit, unit) IntValue] = Some j"
    "covered j = conc (InterVal (I 0) (I 4) :: (unit, unit, unit) IntValue) \<union> conc (InterVal (I 2) PlusInf :: (unit, unit, unit) IntValue)"
    using offsets_cover [of "[(InterVal (I 0) (I 4), InterVal (I 1) (I 1))]"
        "[(InterVal (I 2) PlusInf, InterVal (I 5) (I 5)) :: (unit, unit, unit) IntValue \<times> (unit, unit, unit) IntValue]"] by auto
  have "covered j = {0..}" unfolding j(2) by auto
  with j(1) show ?thesis by blast
qed

text \<open>C36: where the first of two overlapping offsets starts and ends earlier, the rest of the second is given the value of the first instead of its own.\<close>

theorem overlapping_offsets_wrong_value:
  fixes u v :: "('v, 's, 't) IntValue"
  assumes "in_Int a1" "a1 < b1" "b1 \<le> a2" "a2 < b2" "in_Int b2" "join_IntValue v u = Some w"
  shows "join_offs [(InterVal (I a1) (I a2), v)] [(InterVal (I b1) (I b2), u)] =
    Some [(InterVal (I a1) (I (b1 - 1)), v), (InterVal (I b1) (I a2), w), (InterVal (I (a2 + 1)) (I b2), v)]"
proof -
  have "succ_IVal (I a2) = I (a2 + 1)" "pred_IVal (I b1) = I (b1 - 1)"
    using assms by (auto simp: succ_IVal_def pred_IVal_def wrap_in_Int in_Int_def)
  then show ?thesis
    using assms by (simp add: join_offs_def)
qed

theorem overlapping_offsets_wrong_value_witness:
  "join_offs [(InterVal (I 0) (I 1), InterVal (I 1) (I 1))] [(InterVal (I 1) (I 2), InterVal (I 5) (I 5) :: (unit, unit, unit) IntValue)] =
    Some [(InterVal (I 0) (I 0), InterVal (I 1) (I 1)), (InterVal (I 1) (I 1), InterVal (I 1) (I 5)), (InterVal (I 2) (I 2), InterVal (I 1) (I 1))]"
  using overlapping_offsets_wrong_value [of 0 1 1 2 "InterVal (I 1) (I 1)" "InterVal (I 5) (I 5) :: (unit, unit, unit) IntValue" "InterVal (I 1) (I 5)"]
  by (simp add: in_Int_def min_def max_def)

section \<open>Differences\<close>

text \<open>The difference of an interval and a part of it keeps every integer that is not in the part.\<close>

lemma interval_diff_sound:
  fixes u v w :: "('v, 's, 't) IntValue"
  assumes "interval u" "le_IntValue v u" "interval_diff u v = Some w"
    "list_all (\<lambda>n. in_Int (n + 1) \<and> in_Int (n - 1)) (ends v)"
  shows "conc u - conc v \<subseteq> conc w"
  using assms unfolding interval_diff_def interval_diff_by_def
  by (auto simp: wrap_in_Int split: IntValue.splits InterVal.splits if_splits)

end
