(* ===== verification/Rand48.thy ===== *)
theory Rand48
  imports CPrelude
begin

text \<open>
  The 48-bit random numbers: \<^verbatim>\<open>libc/src/jrand48.c\<close>, \<^verbatim>\<open>nrand48.c\<close>, \<^verbatim>\<open>lrand48.c\<close>, \<^verbatim>\<open>mrand48.c\<close>, \<^verbatim>\<open>srand48.c\<close> and \<^verbatim>\<open>seed48.c\<close>.
  A seed is the array of three 16-bit words; the common seed and the copy kept by \<^verbatim>\<open>seed48\<close> are passed and returned.
\<close>

section \<open>Definitions\<close>

type_synonym seed = "16 word \<times> 16 word \<times> 16 word"

record rand48 =
  rand48_seed :: seed
  oldseed :: seed

text \<open>A \<^verbatim>\<open>long\<close> is a 64-bit word.\<close>

fun jrand48 :: "seed \<Rightarrow> 64 word \<times> seed" where
  "jrand48 (x0, x1, x2) =
     (let x = (ucast x0 + push_bit 16 (ucast x1) + push_bit 32 (ucast x2) :: 64 word);
          x = 0x5deece66d * x + 0xb
      in (scast (ucast (drop_bit 16 x) :: 32 word), (ucast x, ucast (drop_bit 16 x), ucast (drop_bit 32 x))))"

definition nrand48 :: "seed \<Rightarrow> 64 word \<times> seed" where
  "nrand48 xsubi = (let (r, xsubi) = jrand48 xsubi in (ucast (drop_bit 1 (ucast r :: 32 word)), xsubi))"

definition lrand48 :: "rand48 \<Rightarrow> 64 word \<times> rand48" where
  "lrand48 g = (let (r, s) = jrand48 (rand48_seed g) in (ucast (drop_bit 1 (ucast r :: 32 word)), g\<lparr>rand48_seed := s\<rparr>))"

definition mrand48 :: "rand48 \<Rightarrow> 64 word \<times> rand48" where
  "mrand48 g = (let (r, s) = jrand48 (rand48_seed g) in (r, g\<lparr>rand48_seed := s\<rparr>))"

definition srand48 :: "64 word \<Rightarrow> rand48 \<Rightarrow> rand48" where
  "srand48 seedval g = g\<lparr>rand48_seed := (0x330e, ucast seedval, ucast (drop_bit 16 (ucast seedval :: 32 word)))\<rparr>"

text \<open>The argument of \<^verbatim>\<open>seed48\<close> may be the array it returned before, which it overwrites before it reads its argument.\<close>

datatype seed_ptr = Other seed | Kept

fun deref :: "rand48 \<Rightarrow> seed_ptr \<Rightarrow> seed" where
  "deref g (Other s) = s"
| "deref g Kept = oldseed g"

definition seed48 :: "seed_ptr \<Rightarrow> rand48 \<Rightarrow> seed_ptr \<times> rand48" where
  "seed48 xsubi g =
     (let g = g\<lparr>oldseed := rand48_seed g\<rparr>;
          g = g\<lparr>rand48_seed := deref g xsubi\<rparr>
      in (Kept, g))"

section \<open>The congruential generator\<close>

fun seed_value :: "seed \<Rightarrow> nat" where
  "seed_value (x0, x1, x2) = unat x0 + 2 ^ 16 * unat x1 + 2 ^ 32 * unat x2"

definition lcg :: "nat \<Rightarrow> nat" where
  "lcg x = (0x5deece66d * x + 0xb) mod 2 ^ 48"

lemma unat_seed:
  "unat (ucast x0 + push_bit 16 (ucast x1) + push_bit 32 (ucast x2) :: 64 word) = seed_value (x0, x1, x2)"
  for x0 x1 x2 :: "16 word"
proof -
  let ?v = "seed_value (x0, x1, x2)"
  have b: "unat x < 2 ^ 16" for x :: "16 word" using unsigned_less [of x, where ?'a = nat] by simp
  from b [of x0] b [of x1] b [of x2] have "?v < 2 ^ 64" by simp
  moreover have "ucast x0 + push_bit 16 (ucast x1) + push_bit 32 (ucast x2) = (word_of_nat ?v :: 64 word)"
    by (simp add: push_bit_eq_mult)
  ultimately show ?thesis by (simp add: unsigned_of_nat take_bit_nat_eq_self del: seed_value.simps)
qed

lemma split48:
  fixes n :: nat
  shows "n mod 2 ^ 16 + 2 ^ 16 * (n div 2 ^ 16 mod 2 ^ 16) + 2 ^ 32 * (n div 2 ^ 32 mod 2 ^ 16) = n mod 2 ^ 48"
proof -
  have "n mod 2 ^ 48 = n mod (2 ^ 32 * 2 ^ 16)" "n mod 2 ^ 32 = n mod (2 ^ 16 * 2 ^ 16)" by simp_all
  then show ?thesis unfolding mod_mult2_eq by simp
qed

lemma unat_part: "unat (ucast (drop_bit k x) :: 'b :: len word) = unat x div 2 ^ k mod 2 ^ LENGTH('b)" for x :: "64 word"
  unfolding unsigned_ucast_eq unat_drop_bit by (simp add: take_bit_eq_mod)

lemma seed_value_words:
  "seed_value (ucast x, ucast (drop_bit 16 x), ucast (drop_bit 32 x)) = unat x mod 2 ^ 48" for x :: "64 word"
  using unat_part [of 0 x, where ?'b = 16] unat_part [of 16 x, where ?'b = 16] unat_part [of 32 x, where ?'b = 16] split48 [of "unat x"]
  by simp

lemma middle_bits: "n mod 2 ^ 48 div 2 ^ 16 = n div 2 ^ 16 mod 2 ^ 32" for n :: nat
  using mod_mult2_eq [of n "2 ^ 16" "2 ^ 32"] by simp

lemma unat_step: "unat (0x5deece66d * w + 0xb) = (0x5deece66d * unat w + 0xb) mod 2 ^ 64" for w :: "64 word"
  by (simp add: unat_word_ariths mod_simps)

lemma jrand48_lcg:
  "seed_value (snd (jrand48 s)) = lcg (seed_value s)"
  "fst (jrand48 s) = scast (word_of_nat (lcg (seed_value s) div 2 ^ 16) :: 32 word)"
proof -
  obtain x0 x1 x2 where s: "s = (x0, x1, x2)" by (cases s)
  define x :: "64 word" where "x = 0x5deece66d * (ucast x0 + push_bit 16 (ucast x1) + push_bit 32 (ucast x2)) + 0xb"
  have "unat x = (0x5deece66d * seed_value s + 0xb) mod 2 ^ 64"
    unfolding x_def unat_step unat_seed s ..
  then have x: "unat x mod 2 ^ 48 = lcg (seed_value s)"
    unfolding lcg_def by (simp only: mod_mod_cancel [of "2 ^ 48" "2 ^ 64" for n :: nat] le_imp_power_dvd)
  have j: "jrand48 s = (scast (ucast (drop_bit 16 x) :: 32 word), (ucast x, ucast (drop_bit 16 x), ucast (drop_bit 32 x)))"
    unfolding s jrand48.simps x_def Let_def ..
  show "seed_value (snd (jrand48 s)) = lcg (seed_value s)"
    unfolding j snd_conv seed_value_words x ..
  have "ucast (drop_bit 16 x) = (word_of_nat (lcg (seed_value s) div 2 ^ 16) :: 32 word)"
    unfolding word_unat_eq_iff unat_part x [symmetric] middle_bits by (simp add: unsigned_of_nat take_bit_eq_mod)
  then show "fst (jrand48 s) = scast (word_of_nat (lcg (seed_value s) div 2 ^ 16) :: 32 word)"
    unfolding j by simp
qed

lemma lcg_inj: "inj_on lcg {..<2 ^ 48}"
proof (rule inj_on_inverseI)
  fix x :: nat
  assume x: "x \<in> {..<2 ^ 48}"
  have a: "246154705703781 * (0x5deece66d :: nat) = 1 + 22050866921 * 2 ^ 48" by simp
  have "(246154705703781 * (lcg x + (2 ^ 48 - 0xb))) mod 2 ^ 48 = (246154705703781 * (0x5deece66d * x + 0xb + (2 ^ 48 - 0xb))) mod 2 ^ 48"
    unfolding lcg_def by (intro mod_mult_cong refl mod_add_cong mod_mod_trivial)
  also have "\<dots> = (x + (22050866921 * x + 246154705703781) * 2 ^ 48) mod 2 ^ 48" by (simp add: add.commute)
  also have "\<dots> = x" using x by (simp only: mod_mult_self1) simp
  finally show "(\<lambda>y. (246154705703781 * (y + (2 ^ 48 - 0xb))) mod 2 ^ 48) (lcg x) = x" .
qed

lemma unat16: "unat x < 2 ^ 16" for x :: "16 word"
  using unsigned_less [of x, where ?'a = nat] by simp

lemma seed_value_less: "seed_value s < 2 ^ 48"
proof -
  obtain x0 x1 x2 where s: "s = (x0, x1, x2)" by (cases s)
  show ?thesis using unat16 [of x0] unat16 [of x1] unat16 [of x2] by (simp add: s)
qed

lemma seed_value_parts:
  "seed_value (x0, x1, x2) mod 2 ^ 16 = unat x0" "seed_value (x0, x1, x2) div 2 ^ 16 mod 2 ^ 16 = unat x1"
  "seed_value (x0, x1, x2) div 2 ^ 16 div 2 ^ 16 = unat x2"
proof -
  have "seed_value (x0, x1, x2) = unat x0 + (unat x1 + unat x2 * 2 ^ 16) * 2 ^ 16" by simp
  then show "seed_value (x0, x1, x2) mod 2 ^ 16 = unat x0" "seed_value (x0, x1, x2) div 2 ^ 16 mod 2 ^ 16 = unat x1"
    "seed_value (x0, x1, x2) div 2 ^ 16 div 2 ^ 16 = unat x2"
    using unat16 [of x0] unat16 [of x1] by (simp_all only: mod_mult_self1 div_mult_self1 mod_less div_less) simp_all
qed

lemma seed_value_inj: "inj seed_value"
proof (rule injI)
  fix s s' :: seed
  obtain x0 x1 x2 y0 y1 y2 where "s = (x0, x1, x2)" "s' = (y0, y1, y2)" by (cases s; cases s')
  moreover assume "seed_value s = seed_value s'"
  ultimately show "s = s'"
    using seed_value_parts [of x0 x1 x2] seed_value_parts [of y0 y1 y2] by (metis word_unat_eq_iff)
qed

lemma jrand48_inj: "inj (\<lambda>s. snd (jrand48 s))"
proof (rule injI)
  fix s s' :: seed
  assume "snd (jrand48 s) = snd (jrand48 s')"
  then have "lcg (seed_value s) = lcg (seed_value s')" using jrand48_lcg(1) by metis
  then show "s = s'"
    using inj_onD [OF lcg_inj] seed_value_less injD [OF seed_value_inj] by (metis lessThan_iff)
qed

lemma ucast_scast32: "ucast (scast w :: 64 word) = w" for w :: "32 word"
proof (rule bit_word_eqI)
  fix n
  assume "n < LENGTH(32)"
  then have "n < 31 \<or> n = 31" by auto
  then show "bit (ucast (scast w :: 64 word) :: 32 word) n = bit w n" by (auto simp: bit_unsigned_iff bit_signed_iff)
qed

lemma nrand48_lcg: "unat (fst (nrand48 s)) = lcg (seed_value s) div 2 ^ 17"
proof -
  let ?n = "lcg (seed_value s) div 2 ^ 16" and ?w = "word_of_nat (lcg (seed_value s) div 2 ^ 16) :: 32 word"
  have "?n < 2 ^ 32" by (simp add: lcg_def less_mult_imp_div_less)
  then have n: "unat ?w = ?n" by (simp add: unsigned_of_nat take_bit_nat_eq_self)
  have "ucast (scast ?w :: 64 word) = ?w" by (rule ucast_scast32)
  then have "unat (fst (nrand48 s)) = unat (ucast (drop_bit 1 ?w) :: 64 word)"
    using jrand48_lcg(2) [of s] by (simp add: nrand48_def Let_def split_beta)
  also have "\<dots> = ?n div 2"
    using n unsigned_less [of "drop_bit 1 ?w", where ?'a = nat] by (simp add: unsigned_ucast_eq take_bit_nat_eq_self unat_drop_bit)
  finally show ?thesis by (simp add: flip: div_mult2_eq)
qed

section \<open>Properties\<close>

text \<open>C35: the generator is the linear congruence modulo \<open>2 ^ 48\<close> on the number in the seed, and no state is lost: different
  seeds have different successors. \<open>jrand48\<close> returns the upper 32 bits of the new state with their sign, \<open>nrand48\<close> the upper
  31 bits; \<open>mrand48\<close> and \<open>lrand48\<close> do the same on the common seed.\<close>

theorem rand48_generator:
  "inj (\<lambda>s. snd (jrand48 s)) \<and> seed_value (snd (jrand48 s)) = lcg (seed_value s) \<and>
   fst (jrand48 s) = scast (word_of_nat (lcg (seed_value s) div 2 ^ 16) :: 32 word) \<and>
   unat (fst (nrand48 s)) = lcg (seed_value s) div 2 ^ 17 \<and> snd (nrand48 s) = snd (jrand48 s) \<and>
   mrand48 g = (fst (jrand48 (rand48_seed g)), g\<lparr>rand48_seed := snd (jrand48 (rand48_seed g))\<rparr>) \<and>
   lrand48 g = (fst (nrand48 (rand48_seed g)), g\<lparr>rand48_seed := snd (jrand48 (rand48_seed g))\<rparr>)"
  using jrand48_inj jrand48_lcg [of s] nrand48_lcg [of s]
  by (simp add: mrand48_def lrand48_def nrand48_def Let_def split_beta)

end
