(* ===== verification/SortSearch.thy ===== *)
theory SortSearch
  imports MemFuns "HOL-Library.Multiset"
begin

text \<open>
  Sorting and searching an array of objects: \<^verbatim>\<open>libc/src/qsort.c\<close> (a comb sort) and \<^verbatim>\<open>libc/src/bsearch.c\<close>. The comparison
  function is an argument that reads the memory and may fault. What the C standard asks of it is the locale
  \<open>comparator\<close>; \<^verbatim>\<open>memcmp\<close> is an instance for every object size. The outer loop of \<^verbatim>\<open>qsort\<close> runs until a round makes no
  exchange, so it is a \<open>partial_function\<close>; the theorems show that it ends for every comparator.
  \<open>size_t\<close> products wrap around in \<open>newgap\<close>, where a large element count can make them; addresses inside the array
  do not.
\<close>

section \<open>Definitions\<close>

type_synonym compar = "mem \<Rightarrow> addr \<Rightarrow> addr \<Rightarrow> int option"

definition newgap :: "nat \<Rightarrow> nat" where
  "newgap gap = (let gap = (gap * 10 mod 2 ^ 64) div 13;
     gap = (if gap = 9 \<or> gap = 10 then 11 else gap)
     in if gap < 1 then 1 else gap)"

text \<open>One round: the \<^verbatim>\<open>for\<close> loop. The gap never exceeds the element count, see \<open>newgap_le\<close>.\<close>

function qsort_pass :: "compar \<Rightarrow> mem \<Rightarrow> addr \<Rightarrow> nat \<Rightarrow> nat \<Rightarrow> nat \<Rightarrow> nat \<Rightarrow> addr \<Rightarrow> bool \<Rightarrow> (mem \<times> bool) option" where
  "qsort_pass compar m base nmemb sz gap i p1 swapped =
     (if i < nmemb - gap then do {
        let j = i + gap;
        let p2 = base + j * sz;
        d \<leftarrow> compar m p1 p2;
        if d > 0 then do {
          m' \<leftarrow> memswap m p1 p2 sz;
          qsort_pass compar m' base nmemb sz gap (i + 1) (p1 + sz) True
        }
        else qsort_pass compar m base nmemb sz gap (i + 1) (p1 + sz) swapped
      }
      else Some (m, swapped))"
  by pat_completeness auto
termination
  by (relation "measure (\<lambda>(compar, m, base, nmemb, sz, gap, i, p1, swapped). nmemb - gap - i)") auto

declare qsort_pass.simps [simp del]

partial_function (option) qsort_loop :: "compar \<Rightarrow> mem \<Rightarrow> addr \<Rightarrow> nat \<Rightarrow> nat \<Rightarrow> nat \<Rightarrow> mem option" where
  [code]: "qsort_loop compar m base nmemb sz gap = do {
     let gap = newgap gap;
     (m', swapped) \<leftarrow> qsort_pass compar m base nmemb sz gap 0 base False;
     if gap > 1 \<or> swapped then qsort_loop compar m' base nmemb sz gap else Some m'
   }"

definition qsort :: "mem \<Rightarrow> addr \<Rightarrow> nat \<Rightarrow> nat \<Rightarrow> compar \<Rightarrow> mem option" where
  "qsort m base nmemb sz compar =
     (if nmemb = 0 then Some m else qsort_loop compar m base nmemb sz nmemb)"

function bsearch :: "mem \<Rightarrow> addr \<Rightarrow> addr \<Rightarrow> nat \<Rightarrow> nat \<Rightarrow> compar \<Rightarrow> addr option" where
  "bsearch m key base nmemb sz cmp =
     (if nmemb \<noteq> 0 then do {
        let mididx = nmemb div 2;
        let midobj = base + mididx * sz;
        diff \<leftarrow> cmp m key midobj;
        if diff = 0 then Some midobj
        else if diff > 0 then bsearch m key (midobj + sz) (nmemb - (mididx + 1)) sz cmp
        else bsearch m key base mididx sz cmp
      }
      else Some NULL)"
  by pat_completeness auto
termination
  by (relation "measure (\<lambda>(m, key, base, nmemb, sz, cmp). nmemb)") auto

declare bsearch.simps [simp del]

section \<open>Gaps\<close>

lemma newgap_pos: "1 \<le> newgap gap"
  by (simp add: newgap_def Let_def)

lemma newgap_less:
  assumes "2 \<le> gap"
  shows "newgap gap < gap"
proof -
  define g where "g = (gap * 10 mod 2 ^ 64) div 13"
  have g: "13 * g \<le> gap * 10" "13 * g \<le> 2 ^ 64"
    unfolding g_def using mod_less_eq_dividend [of "gap * 10" "2 ^ 64"] mod_less_divisor [of "2 ^ 64" "gap * 10"]
      times_div_less_eq_dividend [of 13 "gap * 10 mod 2 ^ 64"] by (linarith, simp)
  have "newgap gap = (if g = 9 \<or> g = 10 then 11 else if g < 1 then 1 else g)"
    by (simp add: newgap_def Let_def g_def)
  with g assms show ?thesis by auto
qed

lemma newgap_le: "1 \<le> gap \<Longrightarrow> newgap gap \<le> gap"
  using newgap_less [of gap] by (cases "gap = 1") (auto simp: newgap_def)

section \<open>Inversions\<close>

fun inversions :: "('a \<Rightarrow> 'a \<Rightarrow> bool) \<Rightarrow> 'a list \<Rightarrow> nat" where
  "inversions gt [] = 0"
| "inversions gt (x # xs) = length (filter (gt x) xs) + inversions gt xs"

lemma inversions_exchange:
  "gt a b \<Longrightarrow> \<not> gt b a \<Longrightarrow> inversions gt (us @ b # a # vs) < inversions gt (us @ a # b # vs)"
  by (induction us) auto

lemma list_at_pair:
  assumes "Suc i < length xs"
  shows "xs = take i xs @ xs ! i # xs ! Suc i # drop (Suc (Suc i)) xs"
  using assms by (simp add: Cons_nth_drop_Suc)

lemma inversions_adjacent:
  assumes "Suc i < length xs" "gt (xs ! i) (xs ! Suc i)" "\<not> gt (xs ! Suc i) (xs ! i)"
  shows "inversions gt (xs[i := xs ! Suc i, Suc i := xs ! i]) < inversions gt xs"
proof -
  have "xs[i := xs ! Suc i, Suc i := xs ! i] = take i xs @ xs ! Suc i # xs ! i # drop (Suc (Suc i)) xs"
    using assms(1) by (subst list_at_pair [of i xs]) (simp_all add: list_update_append)
  then show ?thesis
    using inversions_exchange [of gt, OF assms(2,3)] list_at_pair [OF assms(1)] by metis
qed

section \<open>The objects of an array\<close>

definition elems :: "mem \<Rightarrow> addr \<Rightarrow> nat \<Rightarrow> nat \<Rightarrow> byte list list" where
  "elems m base nmemb sz = map (\<lambda>i. block m (base + i * sz) sz) [0..<nmemb]"

lemma length_elems [simp]: "length (elems m base n sz) = n"
  by (simp add: elems_def)

lemma nth_elems [simp]: "i < n \<Longrightarrow> elems m base n sz ! i = block m (base + i * sz) sz"
  by (simp add: elems_def)

lemma slot_le: "i < (n :: nat) \<Longrightarrow> i * sz + sz \<le> n * sz"
  using mult_le_mono1 [of "Suc i" n sz] by simp

lemma mapped_slot: "mapped m base (n * sz) \<Longrightarrow> i < n \<Longrightarrow> mapped m (base + i * sz) sz"
  using slot_le [of i n sz] by (auto intro: mapped_shift)

lemma slots_disjoint:
  assumes "i \<noteq> (j :: nat)"
  shows "disjoint_ranges (base + i * sz) sz (base + j * sz) sz"
  using assms slot_le [of i j sz] slot_le [of j i sz] by (auto simp: disjoint_ranges_def nat_neq_iff)

lemma elems_swap:
  assumes "mapped m base (n * sz)" "i < n" "j < n" "i \<noteq> j"
  shows "\<exists>m'. memswap m (base + i * sz) (base + j * sz) sz = Some m' \<and> length m' = length m \<and>
    elems m' base n sz = (elems m base n sz)[i := elems m base n sz ! j, j := elems m base n sz ! i] \<and>
    (\<forall>k. k < base \<or> base + n * sz \<le> k \<longrightarrow> m' ! k = m ! k)"
proof -
  let ?p = "base + i * sz" and ?q = "base + j * sz"
  from memswap_swaps [OF mapped_slot [OF assms(1,2)] mapped_slot [OF assms(1,3)] slots_disjoint [OF assms(4)]]
  obtain m' where m': "memswap m ?p ?q sz = Some m'" "length m' = length m"
    "block m' ?p sz = block m ?q sz" "block m' ?q sz = block m ?p sz"
    "\<And>k. (k < ?p \<or> ?p + sz \<le> k) \<and> (k < ?q \<or> ?q + sz \<le> k) \<Longrightarrow> m' ! k = m ! k"
    by blast
  have out: "m' ! k = m ! k" if "k < base \<or> base + n * sz \<le> k" for k
    using that m'(5) [of k] slot_le [OF assms(2), of sz] slot_le [OF assms(3), of sz] by auto
  have other: "block m' (base + k * sz) sz = block m (base + k * sz) sz" if "k < n" "k \<noteq> i" "k \<noteq> j" for k
  proof (cases "sz = 0")
    case False
    with mapped_slot [OF assms(1) that(1)] m'(2) show ?thesis
      using slots_disjoint [OF that(2), of base sz] slots_disjoint [OF that(3), of base sz]
      by (intro block_eqI m'(5)) (auto simp: mapped_def disjoint_ranges_def)
  qed simp
  have "elems m' base n sz = (elems m base n sz)[i := elems m base n sz ! j, j := elems m base n sz ! i]"
    by (rule nth_equalityI) (use assms(2-4) m'(3,4) other in \<open>auto simp: nth_list_update\<close>)
  with m'(1,2) out show ?thesis by blast
qed

section \<open>Sorting\<close>

locale comparator =
  fixes compar :: compar and sz :: nat and order :: "byte list \<Rightarrow> byte list \<Rightarrow> int"
  assumes reads: "mapped m p sz \<Longrightarrow> mapped m q sz \<Longrightarrow> compar m p q = Some (order (block m p sz) (block m q sz))"
    and swapped: "length x = sz \<Longrightarrow> length y = sz \<Longrightarrow> order y x < 0 \<longleftrightarrow> 0 < order x y"
    and trans: "length x = sz \<Longrightarrow> length y = sz \<Longrightarrow> length z = sz \<Longrightarrow> order x y \<le> 0 \<Longrightarrow> order y z \<le> 0 \<Longrightarrow> order x z \<le> 0"
begin

abbreviation gt :: "byte list \<Rightarrow> byte list \<Rightarrow> bool" where
  "gt x y \<equiv> 0 < order x y"

abbreviation arr :: "mem \<Rightarrow> addr \<Rightarrow> nat \<Rightarrow> byte list list" where
  "arr m base n \<equiv> elems m base n sz"

lemma gt_asym: "length x = sz \<Longrightarrow> length y = sz \<Longrightarrow> gt x y \<Longrightarrow> \<not> gt y x"
  using swapped [of x y] by simp

text \<open>What a round from position \<open>i\<close> on leaves.\<close>

definition round_post :: "mem \<Rightarrow> addr \<Rightarrow> nat \<Rightarrow> nat \<Rightarrow> nat \<Rightarrow> bool \<Rightarrow> mem \<Rightarrow> bool \<Rightarrow> bool" where
  "round_post m base n gap i sw m' sw' \<longleftrightarrow> length m' = length m \<and>
     (\<forall>k. k < base \<or> base + n * sz \<le> k \<longrightarrow> m' ! k = m ! k) \<and> mset (arr m' base n) = mset (arr m base n) \<and>
     (sw \<longrightarrow> sw') \<and>
     (\<not> sw' \<longrightarrow> m' = m \<and> (\<forall>j. i \<le> j \<and> j + gap < n \<longrightarrow> \<not> gt (arr m base n ! j) (arr m base n ! (j + gap)))) \<and>
     (gap = 1 \<longrightarrow> inversions gt (arr m' base n) + (if sw' \<and> \<not> sw then 1 else 0) \<le> inversions gt (arr m base n))"

lemma round_post_swap:
  assumes "mapped m base (n * sz)" "1 \<le> gap" "i + gap < n" "gt (arr m base n ! i) (arr m base n ! (i + gap))"
  shows "\<exists>m1. memswap m (base + i * sz) (base + (i + gap) * sz) sz = Some m1 \<and> mapped m1 base (n * sz) \<and>
    (\<forall>m' sw'. round_post m1 base n gap (Suc i) True m' sw' \<longrightarrow> round_post m base n gap i sw m' sw')"
proof -
  let ?j = "i + gap"
  have ij: "i < n" "?j < n" "i \<noteq> ?j" using assms(2,3) by auto
  from elems_swap [OF assms(1) ij] obtain m1 where
    m1: "memswap m (base + i * sz) (base + ?j * sz) sz = Some m1" "length m1 = length m"
      "arr m1 base n = (arr m base n)[i := arr m base n ! ?j, ?j := arr m base n ! i]"
      "\<forall>k. k < base \<or> base + n * sz \<le> k \<longrightarrow> m1 ! k = m ! k"
    by blast
  have len: "length (arr m base n ! k) = sz" if "k < n" for k
    using that mapped_slot [OF assms(1) that] by simp
  have "mset (arr m1 base n) = mset (arr m base n)"
    unfolding m1(3) using ij by (intro mset_swap) auto
  moreover have "inversions gt (arr m1 base n) < inversions gt (arr m base n)" if "gap = 1"
    using inversions_adjacent [of i "arr m base n" gt] gt_asym [OF len len assms(4)] assms(4) ij m1(3) that by simp
  moreover have "mapped m1 base (n * sz)"
    using assms(1) m1(2) by (simp add: mapped_def)
  ultimately show ?thesis
    using m1 by (auto simp: round_post_def)
qed

lemma qsort_pass_round:
  assumes "mapped m base (n * sz)" "1 \<le> gap"
  shows "\<exists>m' sw'. qsort_pass compar m base n sz gap i (base + i * sz) sw = Some (m', sw') \<and>
    round_post m base n gap i sw m' sw'"
  using assms(1)
proof (induction "n - gap - i" arbitrary: i m sw)
  case 0
  then have "\<not> i < n - gap" by simp
  then have "qsort_pass compar m base n sz gap i (base + i * sz) sw = Some (m, sw)"
    by (subst qsort_pass.simps) simp
  moreover have "round_post m base n gap i sw m sw"
    using \<open>\<not> i < n - gap\<close> unfolding round_post_def by (intro conjI allI impI) auto
  ultimately show ?case by blast
next
  case (Suc k)
  then have i: "i + gap < n" by simp
  define d where "d = order (arr m base n ! i) (arr m base n ! (i + gap))"
  have c: "compar m (base + i * sz) (base + (i + gap) * sz) = Some d"
    using reads [OF mapped_slot [OF Suc.prems] mapped_slot [OF Suc.prems], of i "i + gap"] i by (simp add: d_def)
  have next_slot: "base + i * sz + sz = base + Suc i * sz" by simp
  have step: "qsort_pass compar m base n sz gap i (base + i * sz) sw =
      (if 0 < d then memswap m (base + i * sz) (base + (i + gap) * sz) sz \<bind>
         (\<lambda>m'. qsort_pass compar m' base n sz gap (Suc i) (base + Suc i * sz) True)
       else qsort_pass compar m base n sz gap (Suc i) (base + Suc i * sz) sw)"
    by (subst qsort_pass.simps) (use i c in \<open>simp only: Let_def bind.bind_lunit next_slot less_diff_conv if_True Suc_eq_plus1\<close>)
  have k: "k = n - gap - Suc i" using Suc.hyps(2) by simp
  show ?case
  proof (cases "0 < d")
    case True
    from round_post_swap [OF Suc.prems assms(2) i True [unfolded d_def], of sw] obtain m1 where
      m1: "memswap m (base + i * sz) (base + (i + gap) * sz) sz = Some m1" "mapped m1 base (n * sz)"
        "\<And>m' sw'. round_post m1 base n gap (Suc i) True m' sw' \<Longrightarrow> round_post m base n gap i sw m' sw'"
      by blast
    from Suc.hyps(1) [OF k m1(2), of True] m1(3) show ?thesis
      unfolding step using True m1(1) by (simp del: mult_Suc) blast
  next
    case False
    have post: "round_post m base n gap i sw m' sw'" if "round_post m base n gap (Suc i) sw m' sw'" for m' sw'
      using that False unfolding round_post_def d_def by (metis Suc_leI le_neq_implies_less)
    from Suc.hyps(1) [OF k Suc.prems, of sw] post show ?thesis
      unfolding step using False by (simp del: mult_Suc) blast
  qed
qed

lemma sorted_adjacent:
  assumes "\<forall>x \<in> set xs. length x = sz" "\<forall>j. j + 1 < length xs \<longrightarrow> \<not> gt (xs ! j) (xs ! (j + 1))"
  shows "sorted_wrt (\<lambda>x y. order x y \<le> 0) xs"
proof -
  have "order (xs ! i) (xs ! j) \<le> 0" if "i < j" "j < length xs" for i j
    using that
  proof (induction j)
    case (Suc j)
    have step: "order (xs ! j) (xs ! Suc j) \<le> 0" using assms(2) Suc.prems(2) by (simp add: not_less)
    show ?case
    proof (cases "i = j")
      case False
      then have "order (xs ! i) (xs ! j) \<le> 0" using Suc.IH Suc.prems by simp
      then show ?thesis
        using trans [OF _ _ _ _ step] assms(1) Suc.prems by simp
    qed (use step in simp)
  qed simp
  then show ?thesis by (simp add: sorted_wrt_iff_nth_less)
qed

text \<open>The loop ends: the gap shrinks to one, and from then on every round with an exchange has fewer inversions.\<close>

lemma qsort_loop_sorts:
  assumes "mapped m base (n * sz)" "1 \<le> gap" "gap \<le> n"
  shows "\<exists>m'. qsort_loop compar m base n sz gap = Some m' \<and> length m' = length m \<and>
    (\<forall>k. k < base \<or> base + n * sz \<le> k \<longrightarrow> m' ! k = m ! k) \<and> mset (arr m' base n) = mset (arr m base n) \<and>
    sorted_wrt (\<lambda>x y. order x y \<le> 0) (arr m' base n)"
  using assms
proof (induction "(gap, inversions gt (arr m base n))" arbitrary: gap m
    rule: wf_induct_rule [OF wf_lex_prod [OF wf_less_than wf_less_than]])
  case less: 1
  define g where "g = newgap gap"
  have g: "1 \<le> g" "g \<le> gap" "2 \<le> gap \<Longrightarrow> g < gap"
    using newgap_pos newgap_le newgap_less less.prems unfolding g_def by auto
  from qsort_pass_round [OF less.prems(1) g(1), of 0 False] obtain m1 sw where
    r: "qsort_pass compar m base n sz g 0 base False = Some (m1, sw)" "round_post m base n g 0 False m1 sw"
    by auto
  have step: "qsort_loop compar m base n sz gap =
      (if 1 < g \<or> sw then qsort_loop compar m1 base n sz g else Some m1)"
    by (subst qsort_loop.simps) (simp add: r(1) g_def [symmetric])
  have m1: "mapped m1 base (n * sz)" using less.prems(1) r(2) by (simp add: mapped_def round_post_def)
  show ?case
  proof (cases "1 < g \<or> sw")
    case True
    have "((g, inversions gt (arr m1 base n)), gap, inversions gt (arr m base n)) \<in> less_than <*lex*> less_than"
      using g r(2) True by (cases "2 \<le> gap") (auto simp: round_post_def)
    from less.hyps [OF this m1 g(1)] g(2) less.prems(3) r(2) True show ?thesis
      unfolding step by (auto simp: round_post_def)
  next
    case False
    then have eq: "g = 1" "m1 = m" "\<forall>j. j + 1 < n \<longrightarrow> \<not> gt (arr m base n ! j) (arr m base n ! (j + 1))"
      using g(1) r(2) by (auto simp: round_post_def)
    have "\<forall>x \<in> set (arr m base n). length x = sz"
      using mapped_slot [OF less.prems(1)] by (auto simp: elems_def)
    from sorted_adjacent [OF this] eq False show ?thesis
      unfolding step by simp
  qed
qed

lemma qsort_permutes_sorted:
  assumes "mapped m base (n * sz)"
  shows "\<exists>m'. qsort m base n sz compar = Some m' \<and> length m' = length m \<and>
    (\<forall>k. k < base \<or> base + n * sz \<le> k \<longrightarrow> m' ! k = m ! k) \<and> mset (arr m' base n) = mset (arr m base n) \<and>
    sorted_wrt (\<lambda>x y. order x y \<le> 0) (arr m' base n)"
  using qsort_loop_sorts [OF assms, of n] by (cases "n = 0") (auto simp: qsort_def elems_def)

end

section \<open>Searching\<close>

text \<open>What a search over the slots \<open>a, \<dots>, b - 1\<close> may return, \<open>g\<close> being the comparison of the key with a slot.\<close>

definition hit :: "(nat \<Rightarrow> int) \<Rightarrow> addr \<Rightarrow> nat \<Rightarrow> nat \<Rightarrow> nat \<Rightarrow> addr \<Rightarrow> bool" where
  "hit g base sz a b p \<longleftrightarrow> (if \<exists>i. a \<le> i \<and> i < b \<and> g i = 0
     then \<exists>i. (a \<le> i \<and> i < b \<and> g i = 0) \<and> p = base + i * sz else p = NULL)"

lemma hit_narrow:
  assumes "hit g base sz a' b' p" "a \<le> a'" "b' \<le> b" "\<And>i. a \<le> i \<Longrightarrow> i < b \<Longrightarrow> g i = 0 \<Longrightarrow> a' \<le> i \<and> i < b'"
  shows "hit g base sz a b p"
proof -
  have eq: "a \<le> i \<and> i < b \<and> g i = 0 \<longleftrightarrow> a' \<le> i \<and> i < b' \<and> g i = 0" for i
    using assms(2-4) by (meson le_trans less_le_trans)
  show ?thesis using assms(1) unfolding hit_def eq .
qed

lemma bsearch_hit:
  assumes "\<And>i. i < b \<Longrightarrow> cmp m key (base + i * sz) = Some (g i)"
    and "\<And>i j. i \<le> j \<Longrightarrow> j < b \<Longrightarrow> sgn (g j) \<le> sgn (g i)" and "a \<le> b"
  shows "\<exists>p. bsearch m key (base + a * sz) (b - a) sz cmp = Some p \<and> hit g base sz a b p"
  using assms
proof (induction "b - a" arbitrary: a b rule: less_induct)
  case (less a b)
  define n where "n = b - a"
  define k where "k = a + n div 2"
  show ?case
  proof (cases "n = 0")
    case True
    then show ?thesis using less.prems(3) by (subst bsearch.simps) (auto simp: n_def hit_def)
  next
    case False
    then have k: "a \<le> k" "k < b" "Suc k \<le> b" "k - a < b - a" "b - Suc k < b - a"
      unfolding k_def n_def by auto
    have ak: "base + a * sz + n div 2 * sz = base + k * sz"
      by (simp add: k_def add_mult_distrib)
    have nk: "base + k * sz + sz = base + Suc k * sz" by simp
    have kn: "n - (n div 2 + 1) = b - Suc k" "n div 2 = k - a" unfolding k_def n_def by auto
    have step: "bsearch m key (base + a * sz) (b - a) sz cmp =
        (if g k = 0 then Some (base + k * sz)
         else if 0 < g k then bsearch m key (base + Suc k * sz) (b - Suc k) sz cmp
         else bsearch m key (base + a * sz) (n div 2) sz cmp)"
      unfolding n_def [symmetric]
      by (subst bsearch.simps)
        (simp only: Let_def ak less.prems(1) [OF k(2)] bind.bind_lunit kn(1) nk False not_False_eq_True if_True)
    consider "g k = 0" | "0 < g k" | "g k < 0" by linarith
    then show ?thesis
    proof cases
      case 1
      then show ?thesis
        unfolding step using k by (auto simp: hit_def)
    next
      case 2
      from less.hyps [of b "Suc k"] less.prems k obtain p where
        p: "bsearch m key (base + Suc k * sz) (b - Suc k) sz cmp = Some p" "hit g base sz (Suc k) b p"
        by blast
      have "Suc k \<le> i" if "g i = 0" "i < b" for i
        using 2 less.prems(2) [of i k] that k by (cases "i \<le> k") auto
      then have "hit g base sz a b p" using k by (intro hit_narrow [OF p(2)]) auto
      with p(1) 2 show ?thesis unfolding step by simp
    next
      case 3
      from less.hyps [of k a] less.prems k obtain p where
        p: "bsearch m key (base + a * sz) (n div 2) sz cmp = Some p" "hit g base sz a k p"
        unfolding kn(2) by force
      have "i < k" if "g i = 0" "i < b" for i
        using 3 less.prems(2) [of k i] that k by (cases "k \<le> i") auto
      then have "hit g base sz a b p" using k by (intro hit_narrow [OF p(2)]) auto
      with p(1) 3 show ?thesis unfolding step by simp
    qed
  qed
qed

context comparator
begin

lemma bsearch_key:
  assumes "mapped m base (n * sz)" "mapped m key sz" "sorted_wrt (\<lambda>x y. order x y \<le> 0) (arr m base n)"
  shows "\<exists>p. bsearch m key base n sz compar = Some p \<and>
    (if \<exists>x \<in> set (arr m base n). order (block m key sz) x = 0
     then \<exists>i < n. p = base + i * sz \<and> order (block m key sz) (arr m base n ! i) = 0 else p = NULL)"
proof -
  define g where "g i = order (block m key sz) (arr m base n ! i)" for i
  have len: "length (arr m base n ! i) = sz" "length (block m key sz) = sz" if "i < n" for i
    using that mapped_slot [OF assms(1)] assms(2) by auto
  have c: "compar m key (base + i * sz) = Some (g i)" if "i < n" for i
    using reads [OF assms(2) mapped_slot [OF assms(1) that]] that by (simp add: g_def)
  have "sgn (g j) \<le> sgn (g i)" if ij: "i < j" "j < n" for i j
  proof -
    let ?x = "arr m base n ! i" and ?y = "arr m base n ! j" and ?k = "block m key sz"
    have le: "order ?x ?y \<le> 0" using assms(3) ij by (simp add: sorted_wrt_iff_nth_less)
    have l: "length ?x = sz" "length ?y = sz" "length ?k = sz" using len ij by auto
    have "order ?k ?x \<le> 0 \<Longrightarrow> order ?k ?y \<le> 0" using trans [OF l(3,1,2) _ le] .
    moreover have "order ?k ?y = 0 \<Longrightarrow> \<not> order ?k ?x < 0"
      using swapped [OF l(1,3)] swapped [OF l(2,3)] trans [OF l(1,2,3) le] by linarith
    ultimately show ?thesis by (cases "order ?k ?x \<le> 0") (auto simp: g_def sgn_if)
  qed
  then have m: "sgn (g j) \<le> sgn (g i)" if "i \<le> j" "j < n" for i j
    using that by (cases "i = j") auto
  obtain p where p: "bsearch m key base n sz compar = Some p" "hit g base sz 0 n p"
    using bsearch_hit [of n compar m key base sz g 0] c m by auto
  have ex: "(\<exists>x \<in> set (arr m base n). order (block m key sz) x = 0) \<longleftrightarrow> (\<exists>i < n. g i = 0)"
    by (auto simp: g_def elems_def)
  show ?thesis
    using p unfolding hit_def ex g_def [symmetric] by (cases "\<exists>i < n. g i = 0") auto
qed

end

section \<open>The comparison of bytes\<close>

lemma bytes_diff_trans:
  "length x = length y \<Longrightarrow> length y = length z \<Longrightarrow> bytes_diff x y \<le> 0 \<Longrightarrow> bytes_diff y z \<le> 0 \<Longrightarrow> bytes_diff x z \<le> 0"
proof (induction x y z rule: list_induct3)
  case (Cons a x b y c z)
  then show ?case
    by (auto split: if_splits simp flip: uint_eq_iff)
qed simp

interpretation mcp: comparator "\<lambda>m p q. memcmp m p q n" n bytes_diff for n
proof
  show "mapped m p n \<Longrightarrow> mapped m q n \<Longrightarrow> memcmp m p q n = Some (bytes_diff (block m p n) (block m q n))" for m p q
    by (rule memcmp_bytes)
  show "length x = n \<Longrightarrow> length y = n \<Longrightarrow> bytes_diff y x < 0 \<longleftrightarrow> 0 < bytes_diff x y" for x y
    using bytes_diff_swap [of x y] by simp
  show "length x = n \<Longrightarrow> length y = n \<Longrightarrow> length z = n \<Longrightarrow> bytes_diff x y \<le> 0 \<Longrightarrow> bytes_diff y z \<le> 0 \<Longrightarrow>
      bytes_diff x z \<le> 0" for x y z
    using bytes_diff_trans [of x y z] by simp
qed

section \<open>Properties\<close>

text \<open>C3: \<open>qsort\<close> returns for every array and every comparison function that is a total preorder on the objects: the
  comb sort ends, the array is a sorted permutation of what it was, and no byte outside the array changes.\<close>

theorem qsort_sorts:
  assumes "comparator compar sz order" "mapped m base (n * sz)"
  shows "\<exists>m'. qsort m base n sz compar = Some m' \<and> length m' = length m \<and>
    mset (elems m' base n sz) = mset (elems m base n sz) \<and>
    sorted_wrt (\<lambda>x y. order x y \<le> 0) (elems m' base n sz) \<and>
    (\<forall>k. k < base \<or> base + n * sz \<le> k \<longrightarrow> m' ! k = m ! k)"
  using comparator.qsort_permutes_sorted [OF assms] by blast

theorem qsort_sorts_witness:
  "\<exists>m'. qsort [0, 5, 3, 9, 3, 7] 1 4 1 (\<lambda>m p q. memcmp m p q 1) = Some m' \<and>
    mset (elems m' 1 4 1) = {#[5], [3], [9], [3]#} \<and> sorted_wrt (\<lambda>x y. bytes_diff x y \<le> 0) (elems m' 1 4 1) \<and> m' ! 5 = 7"
proof -
  have a: "mapped [0, 5, 3, 9, 3, 7] 1 (4 * 1)" by (simp add: mapped_def)
  have e: "mset (elems [0, 5, 3, 9, 3, 7] 1 4 1) = {#[5], [3], [9], [3]#}"
    by (simp add: elems_def block_def upt_rec)
  obtain m' where "qsort [0, 5, 3, 9, 3, 7] 1 4 1 (\<lambda>m p q. memcmp m p q 1) = Some m'"
    "mset (elems m' 1 4 1) = mset (elems [0, 5, 3, 9, 3, 7] 1 4 1)"
    "sorted_wrt (\<lambda>x y. bytes_diff x y \<le> 0) (elems m' 1 4 1)" "m' ! 5 = [0, 5, 3, 9, 3, 7] ! 5"
    using qsort_sorts [OF mcp.comparator_axioms a] by auto
  with e show ?thesis by (intro exI [of _ m']) simp
qed

text \<open>\<open>bsearch\<close> on an array that is sorted by the comparison returns a pointer to an object equal to the key if there
  is one, and null otherwise; it reads only the key and the array.\<close>

theorem bsearch_finds:
  assumes "comparator compar sz order" "mapped m base (n * sz)" "mapped m key sz"
    "sorted_wrt (\<lambda>x y. order x y \<le> 0) (elems m base n sz)"
  shows "\<exists>p. bsearch m key base n sz compar = Some p \<and>
    (if \<exists>x \<in> set (elems m base n sz). order (block m key sz) x = 0
     then \<exists>i < n. p = base + i * sz \<and> order (block m key sz) (elems m base n sz ! i) = 0 else p = NULL)"
  by (rule comparator.bsearch_key [OF assms])

theorem bsearch_finds_witness:
  "\<exists>i < 4. bsearch [0, 3, 3, 5, 9, 5] 5 1 4 1 (\<lambda>m p q. memcmp m p q 1) = Some (1 + i * 1) \<and>
    elems [0, 3, 3, 5, 9, 5] 1 4 1 ! i = [5]"
proof -
  let ?m = "[0, 3, 3, 5, 9, 5] :: mem"
  have a: "mapped ?m 1 (4 * 1)" "mapped ?m 5 1" by (simp_all add: mapped_def)
  have e: "elems ?m 1 4 1 = [[3], [3], [5], [9]]" "block ?m 5 1 = [5]"
    by (simp_all add: elems_def block_def upt_rec)
  have s: "sorted_wrt (\<lambda>x y. bytes_diff x y \<le> 0) (elems ?m 1 4 1)"
    unfolding e by simp
  have x: "\<exists>x \<in> set (elems ?m 1 4 1). bytes_diff (block ?m 5 1) x = 0"
    unfolding e by simp
  obtain i where i: "i < 4" "bsearch ?m 5 1 4 1 (\<lambda>m p q. memcmp m p q 1) = Some (1 + i * 1)"
    "bytes_diff (block ?m 5 1) (elems ?m 1 4 1 ! i) = 0"
    using bsearch_finds [OF mcp.comparator_axioms a s] x by auto
  have "length (elems ?m 1 4 1 ! i) = 1" using i(1) by simp
  with i show ?thesis unfolding e(2) using bytes_diff_eq_0 [of "[5]" "elems ?m 1 4 1 ! i"] by auto
qed

text \<open>C32: An object that was anywhere in the array is found after sorting, by any key that compares equal to it: \<open>qsort\<close>
  establishes what \<open>bsearch\<close> needs.\<close>

theorem sort_then_search:
  assumes "comparator compar sz order" "mapped m base (n * sz)" "mapped m key sz"
    "disjoint_ranges base (n * sz) key sz" "i < n" "order (block m key sz) (elems m base n sz ! i) = 0"
  shows "\<exists>m' j. qsort m base n sz compar = Some m' \<and> bsearch m' key base n sz compar = Some (base + j * sz) \<and> j < n \<and>
    order (block m key sz) (elems m' base n sz ! j) = 0"
proof -
  from comparator.qsort_permutes_sorted [OF assms(1,2)] obtain m' where
    q: "qsort m base n sz compar = Some m'" "length m' = length m"
      "\<forall>k. k < base \<or> base + n * sz \<le> k \<longrightarrow> m' ! k = m ! k" "mset (elems m' base n sz) = mset (elems m base n sz)"
      "sorted_wrt (\<lambda>x y. order x y \<le> 0) (elems m' base n sz)"
    by blast
  have m': "mapped m' base (n * sz)" "mapped m' key sz" using assms(2,3) q(2) by (simp_all add: mapped_def)
  have key: "block m' key sz = block m key sz"
  proof (cases "sz = 0")
    case False
    with assms(3,4) q(2,3) show ?thesis
      by (intro block_eqI) (auto simp: mapped_def disjoint_ranges_def)
  qed simp
  have "elems m base n sz ! i \<in> set (elems m' base n sz)"
    using assms(5) mset_eq_setD [OF q(4)] nth_mem [of i "elems m base n sz"] by simp
  then have "\<exists>x \<in> set (elems m' base n sz). order (block m key sz) x = 0"
    using assms(6) by blast
  with comparator.bsearch_key [OF assms(1) m' q(5)] q(1) show ?thesis
    unfolding key by (simp only: if_True) blast
qed

theorem sort_then_search_witness:
  "\<exists>m' j. qsort [0, 5, 3, 9, 9] 1 3 1 (\<lambda>m p q. memcmp m p q 1) = Some m' \<and>
    bsearch m' 4 1 3 1 (\<lambda>m p q. memcmp m p q 1) = Some (1 + j) \<and> j < 3"
proof -
  have a: "mapped [0, 5, 3, 9, 9] 1 (3 * 1)" "mapped [0, 5, 3, 9, 9] 4 1" "disjoint_ranges 1 (3 * 1) 4 1"
    by (simp_all add: mapped_def disjoint_ranges_def)
  have "bytes_diff (block [0, 5, 3, 9, 9] 4 1) (elems [0, 5, 3, 9, 9] 1 3 1 ! 2) = 0"
    by (simp add: elems_def block_def)
  then obtain m' j where "qsort [0, 5, 3, 9, 9] 1 3 1 (\<lambda>m p q. memcmp m p q 1) = Some m'"
    "bsearch m' 4 1 3 1 (\<lambda>m p q. memcmp m p q 1) = Some (1 + j * 1)" "j < 3"
    using sort_then_search [OF mcp.comparator_axioms a, of 2] by auto
  then show ?thesis by auto
qed

end
