(* ===== verification/Streams.thy ===== *)
theory Streams
  imports Printf ChainRing "HOL-Library.Sublist"
begin

text \<open>
  The standard streams of \<^verbatim>\<open>libc/src/stdio\<close>: the buffered implementation, the unbuffered one that \<^verbatim>\<open>poet.h\<close> selects, and
  the functions on top of them. The fields of a stream are a record, its buffer is in memory. The system calls are arguments
  that act on a state of the kernel \<open>'k\<close>: \<^verbatim>\<open>write\<close> is given the bytes, \<^verbatim>\<open>read\<close> returns them. A call with memory that is not mapped is a fault. A loop that repeats an
  interrupted call need not end, so the loops are partial functions. The lemmas relate what the kernel has received or
  still holds, together with the buffer, to what the program has written or read.
\<close>

section \<open>System calls\<close>

text \<open>The results of \<^verbatim>\<open>write\<close> and \<^verbatim>\<open>read\<close>: success, interrupted or not ready, and any other error.\<close>

datatype io_result = IODone nat | IOAgain | IOError

datatype in_result = InData "byte list" | InAgain | InError

type_synonym 'k sys_write = "'k \<Rightarrow> int \<Rightarrow> byte list \<Rightarrow> io_result \<times> 'k"
type_synonym 'k sys_read = "'k \<Rightarrow> int \<Rightarrow> nat \<Rightarrow> in_result \<times> 'k"
type_synonym 'k sys_lseek = "'k \<Rightarrow> int \<Rightarrow> int \<Rightarrow> nat \<Rightarrow> int \<times> 'k"

section \<open>State\<close>

datatype bufmode = IONBF | IOLBF | IOFBF

record stream =
  io_fileno :: int
  io_eof :: bool
  io_error :: bool
  s_buf :: addr
  s_data :: addr
  ibytes :: nat
  obytes :: nat
  bufsiz :: nat
  buf_mode :: bufmode

definition IO_UNGET_SLOP :: nat where "IO_UNGET_SLOP = 32"

definition EOF :: int where "EOF = - 1"

definition SEEK_SET :: nat where "SEEK_SET = 0"
definition SEEK_CUR :: nat where "SEEK_CUR = 1"

section \<open>Output\<close>

text \<open>A kernel that reports more bytes than it was given is left without a result.\<close>

partial_function (option) flush_loop :: "'k sys_write \<Rightarrow> mem \<Rightarrow> addr \<Rightarrow> stream \<Rightarrow> 'k \<Rightarrow> (int \<times> stream \<times> 'k) option" where
  "flush_loop w m p f k =
     (if obytes f = 0 then Some (0, f, k)
      else if \<not> mapped m p (obytes f) then None
      else case w k (io_fileno f) (block m p (obytes f)) of (rv, k) \<Rightarrow>
        (case rv of
           IOAgain \<Rightarrow> flush_loop w m p f k
         | IOError \<Rightarrow> Some (EOF, f\<lparr>io_error := True\<rparr>, k)
         | IODone n \<Rightarrow>
             (if n = 0 then Some (EOF, f\<lparr>io_eof := True\<rparr>, k)
              else if obytes f < n then None
              else flush_loop w m (p + n) (f\<lparr>obytes := obytes f - n\<rparr>) k)))"

definition fflush_pvt :: "'k sys_write \<Rightarrow> mem \<Rightarrow> stream \<Rightarrow> 'k \<Rightarrow> (int \<times> stream \<times> 'k) option" where
  "fflush_pvt w m f k = flush_loop w m (s_buf f) f k"

definition make_room :: "'k sys_write \<Rightarrow> mem \<Rightarrow> stream \<Rightarrow> 'k \<Rightarrow> (int \<times> stream \<times> 'k) option" where
  "make_room w m f k = (if ibytes f \<noteq> 0 \<or> bufsiz f \<le> obytes f then fflush_pvt w m f k else Some (0, f, k))"

partial_function (option) fwrite_noflush ::
    "'k sys_write \<Rightarrow> mem \<Rightarrow> addr \<Rightarrow> nat \<Rightarrow> nat \<Rightarrow> stream \<Rightarrow> 'k \<Rightarrow> (nat \<times> mem \<times> stream \<times> 'k) option" where
  "fwrite_noflush w m p count bytes f k =
     (if count = 0 then Some (bytes, m, f, k)
      else do {
        (rv, f, k) \<leftarrow> make_room w m f k;
        if rv \<noteq> 0 then Some (bytes, m, f, k)
        else if obytes f = 0 \<and> bufsiz f \<le> count then
          (if \<not> mapped m p count then None
           else case w k (io_fileno f) (block m p count) of (rv, k) \<Rightarrow>
             (case rv of
                IOAgain \<Rightarrow> fwrite_noflush w m p count bytes f k
              | IOError \<Rightarrow> Some (bytes, m, f\<lparr>io_error := True\<rparr>, k)
              | IODone n \<Rightarrow>
                  (if n = 0 then Some (bytes, m, f\<lparr>io_eof := True\<rparr>, k)
                   else if count < n then None
                   else fwrite_noflush w m (p + n) (count - n) (bytes + n) f k)))
        else do {
          let nb = min count (bufsiz f - obytes f);
          (m, _) \<leftarrow> memcpy m (s_buf f + obytes f) p nb;
          fwrite_noflush w m (p + nb) (count - nb) (bytes + nb) (f\<lparr>obytes := obytes f + nb\<rparr>) k
        }
      })"

text \<open>The part of the data that is flushed, by the mode of the stream.\<close>

definition flush_len :: "bufmode \<Rightarrow> mem \<Rightarrow> addr \<Rightarrow> nat \<Rightarrow> nat option" where
  "flush_len mode m p count = (case mode of
       IOFBF \<Rightarrow> Some 0
     | IOLBF \<Rightarrow> do { q \<leftarrow> memrchr m p 10 count; Some (if q \<noteq> NULL then q - p + 1 else 0) }
     | IONBF \<Rightarrow> Some count)"

text \<open>Writing this part; the first component says that the function returns.\<close>

definition write_flushed :: "'k sys_write \<Rightarrow> mem \<Rightarrow> addr \<Rightarrow> nat \<Rightarrow> stream \<Rightarrow> 'k \<Rightarrow> (bool \<times> nat \<times> mem \<times> stream \<times> 'k) option" where
  "write_flushed w m p pf_len f k =
     (if pf_len \<noteq> 0 then do {
        (bytes, m, f, k) \<leftarrow> fwrite_noflush w m p pf_len 0 f k;
        (rv, f, k) \<leftarrow> fflush_pvt w m f k;
        Some (rv \<noteq> 0 \<or> bytes \<noteq> pf_len, bytes, m, f, k)
      }
      else Some (False, 0, m, f, k))"

definition fwrite_orig :: "'k sys_write \<Rightarrow> mem \<Rightarrow> addr \<Rightarrow> nat \<Rightarrow> stream \<Rightarrow> 'k \<Rightarrow> (nat \<times> mem \<times> stream \<times> 'k) option" where
  "fwrite_orig w m p count f k = do {
     pf_len \<leftarrow> flush_len (buf_mode f) m p count;
     (stop, bytes, m, f, k) \<leftarrow> write_flushed w m p pf_len f k;
     if stop \<or> count - pf_len = 0 then Some (bytes, m, f, k)
     else do {
       (more, m, f, k) \<leftarrow> fwrite_noflush w m (p + bytes) (count - pf_len) 0 f k;
       Some (bytes + more, m, f, k)
     }
   }"

text \<open>The unbuffered stream returns the result of \<^verbatim>\<open>write\<close> as a \<^verbatim>\<open>size_t\<close>, the error value included.\<close>

definition fwrite_simple :: "'k sys_write \<Rightarrow> mem \<Rightarrow> addr \<Rightarrow> nat \<Rightarrow> stream \<Rightarrow> 'k \<Rightarrow> (nat \<times> mem \<times> stream \<times> 'k) option" where
  "fwrite_simple w m p count f k =
     (if \<not> mapped m p count then None
      else case w k (io_fileno f) (block m p count) of (rv, k) \<Rightarrow>
        Some (case rv of IODone n \<Rightarrow> n | _ \<Rightarrow> 2 ^ 64 - 1, m, f, k))"

text \<open>\<open>orig\<close> is the configuration \<^verbatim>\<open>KLIBC_STREAMS_ORIG\<close>.\<close>

definition fwrite_bytes :: "bool \<Rightarrow> 'k sys_write \<Rightarrow> mem \<Rightarrow> addr \<Rightarrow> nat \<Rightarrow> stream \<Rightarrow> 'k \<Rightarrow> (nat \<times> mem \<times> stream \<times> 'k) option" where
  "fwrite_bytes orig w m p count f k = (if orig then fwrite_orig w m p count f k else fwrite_simple w m p count f k)"

definition fwrite :: "bool \<Rightarrow> 'k sys_write \<Rightarrow> mem \<Rightarrow> addr \<Rightarrow> nat \<Rightarrow> nat \<Rightarrow> stream \<Rightarrow> 'k \<Rightarrow> (nat \<times> mem \<times> stream \<times> 'k) option" where
  "fwrite orig w m p sz nmemb f k =
     (if sz = 0 then None
      else do { (n, m, f, k) \<leftarrow> fwrite_bytes orig w m p (sz * nmemb mod 2 ^ 64) f k; Some (n div sz, m, f, k) })"

text \<open>\<open>ch\<close> is the address of the local variable.\<close>

definition fputc :: "bool \<Rightarrow> 'k sys_write \<Rightarrow> mem \<Rightarrow> addr \<Rightarrow> 32 word \<Rightarrow> stream \<Rightarrow> 'k \<Rightarrow> (int \<times> mem \<times> stream \<times> 'k) option" where
  "fputc orig w m ch c f k = do {
     m \<leftarrow> wr m ch (ucast c);
     (n, m, f, k) \<leftarrow> fwrite_bytes orig w m ch 1 f k;
     Some (if n = 1 then uint (ucast c :: byte) else EOF, m, f, k)
   }"

text \<open>The count is returned as an \<^verbatim>\<open>int\<close>.\<close>

definition fputs :: "bool \<Rightarrow> 'k sys_write \<Rightarrow> mem \<Rightarrow> addr \<Rightarrow> stream \<Rightarrow> 'k \<Rightarrow> (32 word \<times> mem \<times> stream \<times> 'k) option" where
  "fputs orig w m s f k = do {
     n \<leftarrow> strlen m s;
     (n, m, f, k) \<leftarrow> fwrite_bytes orig w m s n f k;
     Some (word_of_nat n, m, f, k)
   }"

definition puts :: "bool \<Rightarrow> 'k sys_write \<Rightarrow> mem \<Rightarrow> addr \<Rightarrow> addr \<Rightarrow> stream \<Rightarrow> 'k \<Rightarrow> (32 word \<times> mem \<times> stream \<times> 'k) option" where
  "puts orig w m nl s stdout k = do {
     (rv, m, stdout, k) \<leftarrow> fputs orig w m s stdout k;
     if sint rv < 0 then Some (- 1, m, stdout, k)
     else do {
       (n, m, stdout, k) \<leftarrow> fwrite_bytes orig w m nl 1 stdout k;
       Some (word_of_nat n, m, stdout, k)
     }
   }"

definition VFPRINTF_BUFFER :: nat where "VFPRINTF_BUFFER = 32768"

definition vfprintf :: "bool \<Rightarrow> 'k sys_write \<Rightarrow> mem \<Rightarrow> addr \<Rightarrow> stream \<Rightarrow> addr \<Rightarrow> varg list \<Rightarrow> 'k \<Rightarrow> (32 word \<times> mem \<times> stream \<times> 'k) option" where
  "vfprintf orig w m buffer f format ap k = do {
     (m, rv) \<leftarrow> vsnprintf m buffer VFPRINTF_BUFFER format ap;
     if sint rv < 0 then Some (rv, m, f, k)
     else do {
       let rv = (if sint rv > int VFPRINTF_BUFFER - 1 then word_of_nat (VFPRINTF_BUFFER - 1) else rv);
       (n, m, f, k) \<leftarrow> fwrite_bytes orig w m buffer (unat rv) f k;
       Some (word_of_nat n, m, f, k)
     }
   }"

text \<open>The argument list is already a list, so the variants with \<^verbatim>\<open>...\<close> only pass it on.\<close>

definition fprintf :: "bool \<Rightarrow> 'k sys_write \<Rightarrow> mem \<Rightarrow> addr \<Rightarrow> stream \<Rightarrow> addr \<Rightarrow> varg list \<Rightarrow> 'k \<Rightarrow> (32 word \<times> mem \<times> stream \<times> 'k) option" where
  "fprintf orig w m buffer f format ap k = vfprintf orig w m buffer f format ap k"

definition vprintf :: "bool \<Rightarrow> 'k sys_write \<Rightarrow> mem \<Rightarrow> addr \<Rightarrow> stream \<Rightarrow> addr \<Rightarrow> varg list \<Rightarrow> 'k \<Rightarrow> (32 word \<times> mem \<times> stream \<times> 'k) option" where
  "vprintf orig w m buffer stdout format ap k = vfprintf orig w m buffer stdout format ap k"

definition printf :: "bool \<Rightarrow> 'k sys_write \<Rightarrow> mem \<Rightarrow> addr \<Rightarrow> stream \<Rightarrow> addr \<Rightarrow> varg list \<Rightarrow> 'k \<Rightarrow> (32 word \<times> mem \<times> stream \<times> 'k) option" where
  "printf orig w m buffer stdout format ap k = vfprintf orig w m buffer stdout format ap k"

definition putchar :: "bool \<Rightarrow> 'k sys_write \<Rightarrow> mem \<Rightarrow> addr \<Rightarrow> 32 word \<Rightarrow> stream \<Rightarrow> 'k \<Rightarrow> (int \<times> mem \<times> stream \<times> 'k) option" where
  "putchar orig w m ch c stdout k = fputc orig w m ch c stdout k"

section \<open>Input\<close>

definition store_bytes :: "mem \<Rightarrow> addr \<Rightarrow> byte list \<Rightarrow> mem option" where
  "store_bytes m p bs = (if mapped m p (length bs) then Some (put m p bs) else None)"

partial_function (option) fread_loop ::
    "'k sys_read \<Rightarrow> mem \<Rightarrow> addr \<Rightarrow> nat \<Rightarrow> nat \<Rightarrow> stream \<Rightarrow> 'k \<Rightarrow> (nat \<times> mem \<times> stream \<times> 'k) option" where
  "fread_loop r m p count bytes f k =
     (if count = 0 then Some (bytes, m, f, k)
      else if ibytes f = 0 then
        (let bypass = (bufsiz f \<le> count);
             rdptr = (if bypass then p else s_buf f + IO_UNGET_SLOP);
             nb = (if bypass then count else bufsiz f)
         in case r k (io_fileno f) nb of (rv, k) \<Rightarrow>
           (case rv of
              InAgain \<Rightarrow> fread_loop r m p count bytes f k
            | InError \<Rightarrow> Some (bytes, m, f\<lparr>io_error := True\<rparr>, k)
            | InData bs \<Rightarrow>
                (if bs = [] then Some (bytes, m, f\<lparr>io_eof := True\<rparr>, k)
                 else if nb < length bs then None
                 else do {
                   m \<leftarrow> store_bytes m rdptr bs;
                   if bypass then fread_loop r m (p + length bs) (count - length bs) (bytes + length bs) f k
                   else fread_loop r m p count bytes (f\<lparr>ibytes := length bs, s_data := rdptr\<rparr>) k
                 })))
      else do {
        let nb = min count (ibytes f);
        (m, _) \<leftarrow> memcpy m p (s_data f) nb;
        fread_loop r m (p + nb) (count - nb) (bytes + nb) (f\<lparr>s_data := s_data f + nb, ibytes := ibytes f - nb\<rparr>) k
      })"

definition fread_orig :: "'k sys_write \<Rightarrow> 'k sys_read \<Rightarrow> mem \<Rightarrow> addr \<Rightarrow> nat \<Rightarrow> stream \<Rightarrow> 'k \<Rightarrow> (nat \<times> mem \<times> stream \<times> 'k) option" where
  "fread_orig w r m buf count f k =
     (if count = 0 then Some (0, m, f, k)
      else do {
        (_, f, k) \<leftarrow> (if obytes f \<noteq> 0 then fflush_pvt w m f k else Some (0, f, k));
        fread_loop r m buf count 0 f k
      })"

definition fread_simple :: "'k sys_read \<Rightarrow> mem \<Rightarrow> addr \<Rightarrow> nat \<Rightarrow> stream \<Rightarrow> 'k \<Rightarrow> (nat \<times> mem \<times> stream \<times> 'k) option" where
  "fread_simple r m buf count f k =
     (case r k (io_fileno f) count of (rv, k) \<Rightarrow>
        (case rv of
           InData bs \<Rightarrow> do { m \<leftarrow> store_bytes m buf bs; Some (length bs, m, if bs = [] then f\<lparr>io_eof := True\<rparr> else f, k) }
         | _ \<Rightarrow> Some (0, m, f\<lparr>io_error := True\<rparr>, k)))"

definition fread_bytes :: "bool \<Rightarrow> 'k sys_write \<Rightarrow> 'k sys_read \<Rightarrow> mem \<Rightarrow> addr \<Rightarrow> nat \<Rightarrow> stream \<Rightarrow> 'k \<Rightarrow> (nat \<times> mem \<times> stream \<times> 'k) option" where
  "fread_bytes orig w r m buf count f k = (if orig then fread_orig w r m buf count f k else fread_simple r m buf count f k)"

definition fread :: "bool \<Rightarrow> 'k sys_write \<Rightarrow> 'k sys_read \<Rightarrow> mem \<Rightarrow> addr \<Rightarrow> nat \<Rightarrow> nat \<Rightarrow> stream \<Rightarrow> 'k \<Rightarrow> (nat \<times> mem \<times> stream \<times> 'k) option" where
  "fread orig w r m p sz nmemb f k =
     (if sz = 0 then None
      else do { (n, m, f, k) \<leftarrow> fread_bytes orig w r m p (sz * nmemb mod 2 ^ 64) f k; Some (n div sz, m, f, k) })"

definition fgetc_simple :: "'k sys_write \<Rightarrow> 'k sys_read \<Rightarrow> mem \<Rightarrow> addr \<Rightarrow> stream \<Rightarrow> 'k \<Rightarrow> (int \<times> mem \<times> stream \<times> 'k) option" where
  "fgetc_simple w r m ch f k = do {
     (n, m, f, k) \<leftarrow> fread_bytes False w r m ch 1 f k;
     c \<leftarrow> (if n = 1 then do { c \<leftarrow> rd m ch; Some (uint c) } else Some EOF);
     Some (c, m, f, k)
   }"

definition fgetc_orig :: "'k sys_write \<Rightarrow> 'k sys_read \<Rightarrow> mem \<Rightarrow> addr \<Rightarrow> stream \<Rightarrow> 'k \<Rightarrow> (int \<times> mem \<times> stream \<times> 'k) option" where
  "fgetc_orig w r m ch f k =
     (if ibytes f \<noteq> 0 then do {
        c \<leftarrow> rd m (s_data f);
        Some (uint c, m, f\<lparr>ibytes := ibytes f - 1, s_data := s_data f + 1\<rparr>, k)
      }
      else do {
        (n, m, f, k) \<leftarrow> fread_bytes True w r m ch 1 f k;
        c \<leftarrow> (if n = 1 then do { c \<leftarrow> rd m ch; Some (uint c) } else Some EOF);
        Some (c, m, f, k)
      })"

definition fgetc :: "bool \<Rightarrow> 'k sys_write \<Rightarrow> 'k sys_read \<Rightarrow> mem \<Rightarrow> addr \<Rightarrow> stream \<Rightarrow> 'k \<Rightarrow> (int \<times> mem \<times> stream \<times> 'k) option" where
  "fgetc orig w r m ch f k = (if orig then fgetc_orig w r m ch f k else fgetc_simple w r m ch f k)"

text \<open>The unbuffered stream has no \<^verbatim>\<open>ungetc\<close>: the function is an assertion that fails.\<close>

definition ungetc_orig :: "32 word \<Rightarrow> mem \<Rightarrow> stream \<Rightarrow> (32 word \<times> mem \<times> stream) option" where
  "ungetc_orig c m f =
     (if obytes f \<noteq> 0 \<or> s_data f \<le> s_buf f then Some (- 1, m, f)
      else do {
        m \<leftarrow> wr m (s_data f - 1) (ucast c);
        Some (c, m, f\<lparr>s_data := s_data f - 1, ibytes := ibytes f + 1\<rparr>)
      })"

definition ungetc :: "bool \<Rightarrow> 32 word \<Rightarrow> mem \<Rightarrow> stream \<Rightarrow> (32 word \<times> mem \<times> stream) option" where
  "ungetc orig c m f = (if orig then ungetc_orig c m f else None)"

text \<open>The loop of \<^verbatim>\<open>fgets\<close>: the pointer, whether the string is returned, and the states.\<close>

fun fgets_loop :: "bool \<Rightarrow> 'k sys_write \<Rightarrow> 'k sys_read \<Rightarrow> mem \<Rightarrow> addr \<Rightarrow> addr \<Rightarrow> nat \<Rightarrow> stream \<Rightarrow> 'k \<Rightarrow>
    (addr \<times> bool \<times> mem \<times> stream \<times> 'k) option" where
  "fgets_loop orig w r m ch p 0 f k = Some (p, True, m, f, k)"
| "fgets_loop orig w r m ch p (Suc n) f k = do {
     (c, m, f, k) \<leftarrow> fgetc orig w r m ch f k;
     if c = EOF then Some (p, False, m, f, k)
     else do {
       m \<leftarrow> wr m p (word_of_int c);
       if c = 10 then Some (p + 1, True, m, f, k)
       else fgets_loop orig w r m ch (p + 1) n f k
     }
   }"

text \<open>The loop runs while more than one byte is left; the terminator is written unless the count is 0.\<close>

definition fgets :: "bool \<Rightarrow> 'k sys_write \<Rightarrow> 'k sys_read \<Rightarrow> mem \<Rightarrow> addr \<Rightarrow> addr \<Rightarrow> int \<Rightarrow> stream \<Rightarrow> 'k \<Rightarrow> (addr \<times> mem \<times> stream \<times> 'k) option" where
  "fgets orig w r m ch s n f k =
     (if n = 0 then Some (s, m, f, k)
      else do {
        (p, got, m, f, k) \<leftarrow> fgets_loop orig w r m ch s (nat (n - 1)) f k;
        m \<leftarrow> wr m p 0;
        Some (if got then s else NULL, m, f, k)
      })"

section \<open>Positions\<close>

definition fseek_simple :: "'k sys_lseek \<Rightarrow> stream \<Rightarrow> int \<Rightarrow> nat \<Rightarrow> 'k \<Rightarrow> 32 word \<times> stream \<times> 'k" where
  "fseek_simple l f wh whence k = (case l k (io_fileno f) wh whence of (rv, k) \<Rightarrow> (word_of_int rv, f, k))"

definition fseek_orig :: "'k sys_write \<Rightarrow> 'k sys_lseek \<Rightarrow> mem \<Rightarrow> stream \<Rightarrow> int \<Rightarrow> nat \<Rightarrow> 'k \<Rightarrow> (32 word \<times> stream \<times> 'k) option" where
  "fseek_orig w l m f wh whence k = do {
     (rv, f, k) \<leftarrow> (if obytes f \<noteq> 0 then fflush_pvt w m f k else Some (0, f, k));
     if rv \<noteq> 0 then Some (- 1, f, k)
     else
       let wh = (if whence = SEEK_CUR then wh - int (ibytes f) else wh)
       in case l k (io_fileno f) wh whence of (rv, k) \<Rightarrow>
         Some (if 0 \<le> rv then (0, f\<lparr>io_eof := False, ibytes := 0\<rparr>, k) else (- 1, f\<lparr>io_error := True\<rparr>, k))
   }"

definition fseek :: "bool \<Rightarrow> 'k sys_write \<Rightarrow> 'k sys_lseek \<Rightarrow> mem \<Rightarrow> stream \<Rightarrow> int \<Rightarrow> nat \<Rightarrow> 'k \<Rightarrow> (32 word \<times> stream \<times> 'k) option" where
  "fseek orig w l m f wh whence k = (if orig then fseek_orig w l m f wh whence k else Some (fseek_simple l f wh whence k))"

definition rewind :: "bool \<Rightarrow> 'k sys_write \<Rightarrow> 'k sys_lseek \<Rightarrow> mem \<Rightarrow> stream \<Rightarrow> 'k \<Rightarrow> (stream \<times> 'k) option" where
  "rewind orig w l m f k = do {
     (rv, f, k) \<leftarrow> fseek orig w l m f 0 SEEK_SET k;
     Some (if rv = 0 then f\<lparr>io_error := False\<rparr> else f, k)
   }"

definition ftell :: "bool \<Rightarrow> 'k sys_lseek \<Rightarrow> stream \<Rightarrow> 'k \<Rightarrow> int \<times> 'k" where
  "ftell orig l f k = (case l k (io_fileno f) 0 SEEK_CUR of (pos, k) \<Rightarrow>
     (if orig \<and> 0 \<le> pos then pos + int (obytes f) - int (ibytes f) else pos, k))"

definition feof :: "stream \<Rightarrow> int" where "feof f = of_bool (io_eof f)"
definition ferror :: "stream \<Rightarrow> int" where "ferror f = of_bool (io_error f)"
definition fileno :: "stream \<Rightarrow> int" where "fileno f = io_fileno f"

definition clearerr :: "stream \<Rightarrow> stream" where
  "clearerr f = f\<lparr>io_error := False, io_eof := False\<rparr>"

section \<open>Contracts of the system calls\<close>

text \<open>
  What the kernel has received grows by the bytes a \<^verbatim>\<open>write\<close> to the descriptor reports, at most those it was given, and by
  nothing on an error. Interruptions end: a bound on those to come falls with each. Nothing is said of other descriptors.
\<close>

definition write_contract :: "'k sys_write \<Rightarrow> int \<Rightarrow> ('k \<Rightarrow> byte list) \<Rightarrow> ('k \<Rightarrow> nat) \<Rightarrow> bool" where
  "write_contract w fd sent patience \<longleftrightarrow> (\<forall>k bs. case w k fd bs of
       (IODone n, k') \<Rightarrow> n \<le> length bs \<and> sent k' = sent k @ take n bs \<and> patience k' \<le> patience k
     | (IOAgain, k') \<Rightarrow> sent k' = sent k \<and> patience k' < patience k
     | (IOError, k') \<Rightarrow> sent k' = sent k \<and> patience k' \<le> patience k)"

text \<open>A \<^verbatim>\<open>read\<close> returns the next bytes of what the kernel still holds for the descriptor, and no bytes only at its end.\<close>

definition read_contract :: "'k sys_read \<Rightarrow> int \<Rightarrow> ('k \<Rightarrow> byte list) \<Rightarrow> ('k \<Rightarrow> nat) \<Rightarrow> bool" where
  "read_contract r fd supply patience \<longleftrightarrow> (\<forall>k nb. case r k fd nb of
       (InData bs, k') \<Rightarrow> length bs \<le> nb \<and> supply k = bs @ supply k' \<and> (bs = [] \<and> 0 < nb \<longrightarrow> supply k = []) \<and> patience k' \<le> patience k
     | (InAgain, k') \<Rightarrow> supply k' = supply k \<and> patience k' < patience k
     | (InError, k') \<Rightarrow> supply k' = supply k \<and> patience k' \<le> patience k)"

text \<open>
  \<open>broken\<close> holds in every state of the kernel after a call on the descriptor has reported an error, or a \<^verbatim>\<open>write\<close> has taken none of
  the bytes it was given. An interruption is no error.
\<close>

definition write_errors :: "'k sys_write \<Rightarrow> int \<Rightarrow> ('k \<Rightarrow> bool) \<Rightarrow> bool" where
  "write_errors w fd broken \<longleftrightarrow> (\<forall>k bs. case w k fd bs of (rv, k') \<Rightarrow>
     (broken k \<longrightarrow> broken k') \<and> (rv = IOError \<or> rv = IODone 0 \<and> bs \<noteq> [] \<longrightarrow> broken k'))"

definition read_errors :: "'k sys_read \<Rightarrow> int \<Rightarrow> ('k \<Rightarrow> bool) \<Rightarrow> bool" where
  "read_errors r fd broken \<longleftrightarrow> (\<forall>k nb. case r k fd nb of (rv, k') \<Rightarrow> rv = InError \<longrightarrow> broken k')"

lemma write_contractD:
  assumes "write_contract w fd sent pat" "w k fd bs = (rv, k')"
  shows "rv = IODone n \<Longrightarrow> n \<le> length bs \<and> sent k' = sent k @ take n bs \<and> pat k' \<le> pat k"
    "rv = IOAgain \<Longrightarrow> sent k' = sent k \<and> pat k' < pat k"
    "rv = IOError \<Longrightarrow> sent k' = sent k \<and> pat k' \<le> pat k"
  using assms unfolding write_contract_def by (auto dest!: spec [of _ k] spec [of _ bs])

lemma read_contractD:
  assumes "read_contract r fd supply pat" "r k fd nb = (rv, k')"
  shows "rv = InData bs \<Longrightarrow> length bs \<le> nb \<and> supply k = bs @ supply k' \<and> (bs = [] \<and> 0 < nb \<longrightarrow> supply k = []) \<and> pat k' \<le> pat k"
    "rv = InAgain \<Longrightarrow> supply k' = supply k \<and> pat k' < pat k"
    "rv = InError \<Longrightarrow> supply k' = supply k \<and> pat k' \<le> pat k"
  using assms unfolding read_contract_def by (auto dest!: spec [of _ k] spec [of _ nb])

lemma write_errorsD:
  assumes "write_errors w fd broken" "w k fd bs = (rv, k')"
  shows "broken k \<Longrightarrow> broken k'" "rv = IOError \<Longrightarrow> broken k'" "rv = IODone 0 \<Longrightarrow> bs \<noteq> [] \<Longrightarrow> broken k'"
  using assms unfolding write_errors_def by (auto dest!: spec [of _ k] spec [of _ bs])

lemma read_errorsD: "read_errors r fd broken \<Longrightarrow> r k fd nb = (InError, k') \<Longrightarrow> broken k'"
  unfolding read_errors_def by (auto dest!: spec [of _ k] spec [of _ nb])

section \<open>Output\<close>

lemma take_block: "n \<le> k \<Longrightarrow> take n (block m p k) = block m p n"
  by (simp add: block_def min_def)

lemma drop_block: "drop n (block m p k) = block m (p + n) (k - n)"
  by (simp add: block_def drop_take add.commute)

lemma block_parts: "n \<le> k \<Longrightarrow> take n (block m p k) @ block m (p + n) (k - n) = block m p k"
  by (simp add: take_block block_append [symmetric])

definition pending :: "mem \<Rightarrow> stream \<Rightarrow> byte list" where
  "pending m f = block m (s_buf f) (obytes f)"

definition out_ok :: "mem \<Rightarrow> stream \<Rightarrow> bool" where
  "out_ok m f \<longleftrightarrow> ibytes f = 0 \<and> obytes f \<le> bufsiz f \<and> 0 < bufsiz f \<and> mapped m (s_buf f) (bufsiz f)"

definition failed :: "stream \<Rightarrow> bool" where
  "failed f \<longleftrightarrow> io_error f \<or> io_eof f"

text \<open>The fields that no operation on the bytes changes.\<close>

definition same_stream :: "stream \<Rightarrow> stream \<Rightarrow> bool" where
  "same_stream f f' \<longleftrightarrow> io_fileno f' = io_fileno f \<and> s_buf f' = s_buf f \<and> bufsiz f' = bufsiz f \<and> buf_mode f' = buf_mode f"

lemma same_stream_refl [simp]: "same_stream f f"
  by (simp add: same_stream_def)

lemma same_stream_trans: "same_stream f g \<Longrightarrow> same_stream g h \<Longrightarrow> same_stream f h"
  by (simp add: same_stream_def)

lemma same_stream_update [simp]:
  "same_stream f (g\<lparr>io_eof := b\<rparr>) = same_stream f g" "same_stream f (g\<lparr>io_error := b\<rparr>) = same_stream f g"
  "same_stream f (g\<lparr>obytes := n\<rparr>) = same_stream f g" "same_stream f (g\<lparr>ibytes := n\<rparr>) = same_stream f g"
  "same_stream f (g\<lparr>s_data := p\<rparr>) = same_stream f g"
  "same_stream (f\<lparr>obytes := n\<rparr>) g = same_stream f g" "same_stream (f\<lparr>ibytes := n\<rparr>) g = same_stream f g"
  "same_stream (f\<lparr>s_data := p\<rparr>) g = same_stream f g"
  by (simp_all add: same_stream_def)

section \<open>Errors are the errors of the kernel\<close>

text \<open>An operation that goes wrong, or starts in a broken state, ends in a broken state.\<close>

definition honest :: "('k \<Rightarrow> bool) \<Rightarrow> stream \<Rightarrow> 'k \<Rightarrow> bool \<Rightarrow> stream \<Rightarrow> 'k \<Rightarrow> bool" where
  "honest broken f k bad f' k' \<longleftrightarrow> io_fileno f' = io_fileno f \<and> (broken k \<or> bad \<longrightarrow> broken k')"

lemma mapped_block_Nil: "mapped m p n \<Longrightarrow> n \<noteq> 0 \<Longrightarrow> block m p n \<noteq> []"
  by (auto simp: mapped_def block_def)

lemma flush_loop_errors:
  assumes "flush_loop w m p f k = Some r" "write_errors w (io_fileno f) broken"
  shows "case r of (rv, f', k') \<Rightarrow> honest broken f k (rv \<noteq> 0) f' k'"
proof -
  have "write_errors w (io_fileno f) broken \<longrightarrow> (case r of (rv, f', k') \<Rightarrow> honest broken f k (rv \<noteq> 0) f' k')"
  proof (rule flush_loop.raw_induct [OF _ assms(1)], rule impI, goal_cases)
    case (1 loop w m p f k r)
    obtain rv k1 where c: "w k (io_fileno f) (block m p (obytes f)) = (rv, k1)" by (cases "w k (io_fileno f) (block m p (obytes f))")
    show ?case
      using 1(2,3) c write_errorsD [OF 1(3) c] mapped_block_Nil [of m p "obytes f"] 1(1) [of w m p f k1 r] 1(1) [of w m _ "f\<lparr>obytes := _\<rparr>" k1 r]
      by (auto simp: honest_def split: if_splits io_result.splits)
  qed
  then show ?thesis using assms(2) by simp
qed

lemma noflush_errors:
  assumes "fwrite_noflush w m p count bytes f k = Some r" "write_errors w (io_fileno f) broken"
  shows "case r of (n, m', f', k') \<Rightarrow> honest broken f k (n < bytes + count) f' k'"
proof -
  have "write_errors w (io_fileno f) broken \<longrightarrow> (case r of (n, m', f', k') \<Rightarrow> honest broken f k (n < bytes + count) f' k')"
  proof (rule fwrite_noflush.raw_induct [OF _ assms(1)], rule impI, goal_cases)
    case (1 loop w m p count bytes f k r)
    show ?case
    proof (cases "count = 0")
      case True
      then show ?thesis using 1(2) by (auto simp: honest_def)
    next
      case False
      then obtain rv f1 k1 where room: "make_room w m f k = Some (rv, f1, k1)"
        using 1(2) by (cases "make_room w m f k") auto
      have h: "honest broken f k (rv \<noteq> 0) f1 k1"
        using room flush_loop_errors [OF _ 1(3), of m "s_buf f" k] by (auto simp: make_room_def fflush_pvt_def honest_def split: if_splits)
      have w: "write_errors w (io_fileno f1) broken" using h 1(3) by (simp add: honest_def)
      obtain rw k2 where c: "w k1 (io_fileno f1) (block m p count) = (rw, k2)" by (cases "w k1 (io_fileno f1) (block m p count)")
      show ?thesis
        using 1(2) False room h w c write_errorsD [OF w c] mapped_block_Nil [of m p count]
          1(1) [of w m p count bytes f1 k2 r] 1(1) [of w m _ _ _ f1 k2 r] 1(1) [of w _ _ _ _ "f1\<lparr>obytes := _\<rparr>" k1 r]
        by (auto simp: honest_def Let_def split: if_splits io_result.splits bind_splits)
    qed
  qed
  then show ?thesis using assms(2) by simp
qed

section \<open>What is sent\<close>

text \<open>A flush ends; it either sends the whole buffer and empties it, or reports a failure.\<close>

lemma flush_loop_sends:
  assumes "write_contract w fd sent pat" "mapped m p (obytes f)" "io_fileno f = fd"
  shows "\<exists>rv f' k'. flush_loop w m p f k = Some (rv, f', k') \<and> pat k' \<le> pat k \<and> obytes f' \<le> obytes f \<and>
    same_stream f f' \<and> ibytes f' = ibytes f \<and> s_data f' = s_data f \<and>
    prefix (sent k) (sent k') \<and> prefix (sent k') (sent k @ block m p (obytes f)) \<and>
    (if rv = 0 then f' = f\<lparr>obytes := 0\<rparr> \<and> sent k' = sent k @ block m p (obytes f) else failed f')"
  using assms(2,3)
proof (induction "pat k + obytes f" arbitrary: p f k rule: less_induct)
  case less
  show ?case
  proof (cases "obytes f = 0")
    case True
    then show ?thesis by (subst flush_loop.simps) simp
  next
    case False
    obtain rv k1 where w: "w k fd (block m p (obytes f)) = (rv, k1)" by (cases "w k fd (block m p (obytes f))")
    note c = write_contractD [OF assms(1) w]
    have len: "length (block m p (obytes f)) = obytes f" using less.prems by simp
    show ?thesis
    proof (cases rv)
      case (IODone n)
      show ?thesis
      proof (cases "n = 0")
        case True
        then show ?thesis using c(1) [OF IODone] w IODone False less.prems
          by (subst flush_loop.simps) (simp add: failed_def EOF_def)
      next
        case n0: False
        have n: "n \<le> obytes f" using c(1) [OF IODone] len by simp
        let ?f = "f\<lparr>obytes := obytes f - n\<rparr>"
        have b: "take n (block m p (obytes f)) @ block m (p + n) (obytes f - n) = block m p (obytes f)"
          by (rule block_parts [OF n])
        have "mapped m (p + n) (obytes ?f)" using less.prems n mapped_shift [of m p "obytes f" n] by simp
        moreover have "pat k1 + obytes ?f < pat k + obytes f" using c(1) [OF IODone] n n0 False by auto
        ultimately obtain rv' f' k' where ih: "flush_loop w m (p + n) ?f k1 = Some (rv', f', k')" "pat k' \<le> pat k1"
          "obytes f' \<le> obytes ?f" "same_stream ?f f'" "ibytes f' = ibytes f" "s_data f' = s_data f"
          "prefix (sent k1) (sent k')" "prefix (sent k') (sent k1 @ block m (p + n) (obytes ?f))"
          "if rv' = 0 then f' = ?f\<lparr>obytes := 0\<rparr> \<and> sent k' = sent k1 @ block m (p + n) (obytes ?f) else failed f'"
          using less.hyps [of k1 ?f "p + n"] less.prems(2) by auto
        have "flush_loop w m p f k = flush_loop w m (p + n) ?f k1"
          using w IODone n n0 False less.prems by (subst flush_loop.simps) simp
        moreover have "sent k1 @ block m (p + n) (obytes ?f) = sent k @ block m p (obytes f)" "prefix (sent k) (sent k')"
          using c(1) [OF IODone] b ih(7) by (auto dest: append_prefixD)
        ultimately show ?thesis using ih c(1) [OF IODone] by (auto split: if_splits)
      qed
    next
      case IOAgain
      then have "flush_loop w m p f k = flush_loop w m p f k1"
        using w False less.prems by (subst flush_loop.simps) simp
      then show ?thesis using less.hyps [of k1 f p] less.prems c(2) [OF IOAgain] by fastforce
    next
      case IOError
      then show ?thesis using c(3) w False less.prems
        by (subst flush_loop.simps) (simp add: failed_def EOF_def)
    qed
  qed
qed

lemma fflush_sends:
  assumes "write_contract w (io_fileno f) sent pat" "out_ok m f"
  shows "\<exists>rv f' k'. fflush_pvt w m f k = Some (rv, f', k') \<and> pat k' \<le> pat k \<and> out_ok m f' \<and>
    same_stream f f' \<and> s_data f' = s_data f \<and> prefix (sent k) (sent k') \<and> prefix (sent k') (sent k @ pending m f) \<and>
    (if rv = 0 then f' = f\<lparr>obytes := 0\<rparr> \<and> sent k' = sent k @ pending m f else failed f')"
proof -
  have "mapped m (s_buf f) (obytes f)"
    using assms(2) by (auto simp: out_ok_def intro: mapped_mono)
  from flush_loop_sends [OF assms(1) this refl, of k] show ?thesis
    using assms(2) unfolding fflush_pvt_def pending_def out_ok_def same_stream_def by (elim exE) (auto intro: order_trans)
qed

text \<open>
  What one pass of \<^verbatim>\<open>fwrite_noflush\<close> achieves: it takes \<open>n\<close> of the bytes, keeps the stream in order and changes only the buffer; unless
  the stream failed, all bytes are taken and follow those of the buffer.
\<close>

definition wrote :: "('k \<Rightarrow> byte list) \<Rightarrow> mem \<Rightarrow> stream \<Rightarrow> 'k \<Rightarrow> byte list \<Rightarrow> nat \<Rightarrow> mem \<Rightarrow> stream \<Rightarrow> 'k \<Rightarrow> bool" where
  "wrote sent m f k bs n m' f' k' \<longleftrightarrow> n \<le> length bs \<and> out_ok m' f' \<and> same_stream f f' \<and> length m' = length m \<and>
     (\<forall>i. i < s_buf f \<or> s_buf f + bufsiz f \<le> i \<longrightarrow> m' ! i = m ! i) \<and>
     prefix (sent k) (sent k') \<and> prefix (sent k') (sent k @ pending m f @ bs) \<and>
     (if n = length bs then io_error f' = io_error f \<and> io_eof f' = io_eof f \<and>
        sent k' @ pending m' f' = sent k @ pending m f @ bs else failed f')"

lemma wrote_cons:
  assumes "wrote sent m1 f1 k1 (drop n bs) l m' f' k'" "n \<le> length bs" "same_stream f f1" "length m1 = length m"
    "\<And>i. i < s_buf f \<or> s_buf f + bufsiz f \<le> i \<Longrightarrow> m1 ! i = m ! i"
    "io_error f1 = io_error f" "io_eof f1 = io_eof f" "sent k1 @ pending m1 f1 = sent k @ pending m f @ take n bs" "prefix (sent k) (sent k1)"
  shows "wrote sent m f k bs (n + l) m' f' k'"
proof -
  have "sent k1 @ pending m1 f1 @ drop n bs = sent k @ pending m f @ bs"
    by (metis append_assoc append_take_drop_id assms(8))
  then show ?thesis
    using assms same_stream_trans [of f f1 f'] prefix_order.trans [OF assms(9), of "sent k'"]
    unfolding wrote_def by (auto simp: same_stream_def)
qed

lemma disjoint_block_keep:
  assumes "disjoint_ranges b s p n" "\<And>i. i < b \<or> b + s \<le> i \<Longrightarrow> m1 ! i = m ! i" "length m1 = length m" "mapped m p n"
  shows "block m1 p n = block m p n"
  using assms by (cases "n = 0") (auto intro!: block_eqI simp: disjoint_ranges_def mapped_def)

text \<open>The step that copies into the buffer.\<close>

lemma copy_step:
  assumes ok: "out_ok m f" "obytes f < bufsiz f" and src: "mapped m p count" "disjoint_ranges (s_buf f) (bufsiz f) p count"
    and nb: "nb = min count (bufsiz f - obytes f)"
  shows "\<exists>m1. memcpy m (s_buf f + obytes f) p nb = Some (m1, s_buf f + obytes f) \<and> out_ok m1 (f\<lparr>obytes := obytes f + nb\<rparr>) \<and>
    length m1 = length m \<and> (\<forall>i. i < s_buf f \<or> s_buf f + bufsiz f \<le> i \<longrightarrow> m1 ! i = m ! i) \<and>
    pending m1 (f\<lparr>obytes := obytes f + nb\<rparr>) = pending m f @ block m p nb"
proof -
  let ?q = "s_buf f + obytes f"
  have buf: "0 < s_buf f" "s_buf f + bufsiz f \<le> length m"
    using ok by (auto simp: out_ok_def mapped_def)
  have dst: "mapped m ?q nb" and src1: "mapped m p nb" and apart: "?q \<le> p \<or> p + nb \<le> ?q"
    using buf src nb ok(2) by (auto simp: mapped_def disjoint_ranges_def)
  let ?m1 = "put m ?q (block m p nb)"
  have len: "length (block m p nb) = nb" using src1 by simp
  have fits: "?q + nb \<le> length m" using buf nb ok(2) by simp
  have "memcpy m ?q p nb = Some (?m1, ?q)"
    using dst src1 apart by (simp add: memcpy_def memcpy_loop_put)
  moreover have "length ?m1 = length m" using len fits by simp
  moreover have frame: "?m1 ! i = m ! i" if "i < s_buf f \<or> s_buf f + bufsiz f \<le> i" for i
    using that len fits nb ok(2) by (auto simp: nth_put)
  moreover have "block ?m1 (s_buf f) (obytes f + nb) = block m (s_buf f) (obytes f) @ block m p nb"
    using len fits block_put_same [of ?q "block m p nb" m] block_put_disjoint [of "s_buf f" "obytes f" m ?q "block m p nb"]
    by (simp add: block_append disjoint_ranges_def)
  ultimately show ?thesis
    using ok nb buf by (auto simp: out_ok_def pending_def mapped_def)
qed

text \<open>The write that goes around the buffer.\<close>

lemma direct_step:
  assumes "write_contract w fd sent pat" "w k fd (block m p count) = (IODone n, k1)" "mapped m p count" "obytes f = 0"
  shows "n \<le> count" "pat k1 \<le> pat k" "sent k1 @ pending m f = sent k @ pending m f @ take n (block m p count)"
  using write_contractD(1) [OF assms(1,2), of n] assms(3,4) by (auto simp: pending_def)

lemma make_room_sends:
  assumes "write_contract w (io_fileno f) sent pat" "out_ok m f"
  shows "\<exists>rv f1 k1. make_room w m f k = Some (rv, f1, k1) \<and> pat k1 \<le> pat k \<and> out_ok m f1 \<and> same_stream f f1 \<and>
    prefix (sent k) (sent k1) \<and> prefix (sent k1) (sent k @ pending m f) \<and>
    (if rv = 0 then io_error f1 = io_error f \<and> io_eof f1 = io_eof f \<and> obytes f1 < bufsiz f1 \<and>
         sent k1 @ pending m f1 = sent k @ pending m f else failed f1)"
proof (cases "bufsiz f \<le> obytes f")
  case True
  obtain rv f' k' where r: "fflush_pvt w m f k = Some (rv, f', k')" "pat k' \<le> pat k" "out_ok m f'" "same_stream f f'"
    "prefix (sent k) (sent k')" "prefix (sent k') (sent k @ pending m f)" "if rv = 0 then f' = f\<lparr>obytes := 0\<rparr> \<and> sent k' = sent k @ pending m f else failed f'"
    using fflush_sends [OF assms, of k] by blast
  then have "if rv = 0 then io_error f' = io_error f \<and> io_eof f' = io_eof f \<and> obytes f' < bufsiz f' \<and>
         sent k' @ pending m f' = sent k @ pending m f else failed f'"
    using assms(2) by (simp add: out_ok_def pending_def split: if_splits)
  then show ?thesis
    using r(1-6) True unfolding make_room_def by simp
next
  case False
  then show ?thesis using assms(2) by (simp add: make_room_def out_ok_def)
qed

lemma noflush_unfold:
  assumes "make_room w m f k = Some (rv, f1, k1)" "count \<noteq> 0" "mapped m p count"
  shows "fwrite_noflush w m p count bytes f k =
    (if rv \<noteq> 0 then Some (bytes, m, f1, k1)
     else if obytes f1 = 0 \<and> bufsiz f1 \<le> count then
       (case w k1 (io_fileno f1) (block m p count) of (rv, k) \<Rightarrow>
          (case rv of
             IOAgain \<Rightarrow> fwrite_noflush w m p count bytes f1 k
           | IOError \<Rightarrow> Some (bytes, m, f1\<lparr>io_error := True\<rparr>, k)
           | IODone n \<Rightarrow>
               (if n = 0 then Some (bytes, m, f1\<lparr>io_eof := True\<rparr>, k)
                else if count < n then None
                else fwrite_noflush w m (p + n) (count - n) (bytes + n) f1 k)))
     else do {
       let nb = min count (bufsiz f1 - obytes f1);
       (m, _) \<leftarrow> memcpy m (s_buf f1 + obytes f1) p nb;
       fwrite_noflush w m (p + nb) (count - nb) (bytes + nb) (f1\<lparr>obytes := obytes f1 + nb\<rparr>) k1
     })"
  by (rule trans [OF fwrite_noflush.simps]) (simp only: assms bind.simps prod.case if_False simp_thms)

text \<open>What a call on the rest of the bytes achieves, the call as a whole achieves.\<close>

definition noflush_ok :: "'k sys_write \<Rightarrow> ('k \<Rightarrow> byte list) \<Rightarrow> ('k \<Rightarrow> nat) \<Rightarrow> mem \<Rightarrow> addr \<Rightarrow> nat \<Rightarrow> nat \<Rightarrow> stream \<Rightarrow> 'k \<Rightarrow> bool" where
  "noflush_ok w sent pat m p count bytes f k \<longleftrightarrow>
     (\<exists>n m' f' k'. fwrite_noflush w m p count bytes f k = Some (bytes + n, m', f', k') \<and>
        wrote sent m f k (block m p count) n m' f' k' \<and> pat k' \<le> pat k)"

lemma noflush_cons:
  assumes eq: "fwrite_noflush w m p count bytes f k = fwrite_noflush w m1 (p + n) (count - n) (bytes + n) f1 k1"
    and ok: "noflush_ok w sent pat m1 (p + n) (count - n) (bytes + n) f1 k1"
    and same: "block m1 (p + n) (count - n) = block m (p + n) (count - n)" "n \<le> count" "mapped m p count" "pat k1 \<le> pat k"
    and step: "same_stream f f1" "length m1 = length m"
      "\<And>i. i < s_buf f \<or> s_buf f + bufsiz f \<le> i \<Longrightarrow> m1 ! i = m ! i" "io_error f1 = io_error f" "io_eof f1 = io_eof f"
      "sent k1 @ pending m1 f1 = sent k @ pending m f @ take n (block m p count)" "prefix (sent k) (sent k1)"
  shows "noflush_ok w sent pat m p count bytes f k"
proof -
  obtain l m' f' k' where r: "fwrite_noflush w m1 (p + n) (count - n) (bytes + n) f1 k1 = Some (bytes + n + l, m', f', k')"
    "wrote sent m1 f1 k1 (drop n (block m p count)) l m' f' k'" "pat k' \<le> pat k1"
    using ok same(1) unfolding noflush_ok_def drop_block by auto
  have "wrote sent m f k (block m p count) (n + l) m' f' k'"
    by (rule wrote_cons [OF r(2)]) (use same step in auto)
  then show ?thesis
    using r(1,3) same(4) eq unfolding noflush_ok_def by (auto simp: add.assoc)
qed

lemma noflush_stop:
  assumes "fwrite_noflush w m p count bytes f k = Some (bytes, m, f1, k1)" "out_ok m f1" "same_stream f f1" "failed f1"
    "count \<noteq> 0" "mapped m p count" "pat k1 \<le> pat k" "prefix (sent k) (sent k1)" "prefix (sent k1) (sent k @ pending m f)"
  shows "noflush_ok w sent pat m p count bytes f k"
  unfolding noflush_ok_def using assms prefix_order.trans [OF assms(9), of "sent k @ pending m f @ block m p count"]
  by (intro exI [of _ 0] exI [of _ m] exI [of _ f1] exI [of _ k1]) (simp add: wrote_def)

lemma noflush_direct:
  assumes w: "write_contract w (io_fileno f1) sent pat" and room: "make_room w m f k = Some (0, f1, k1)" "pat k1 \<le> pat k" "out_ok m f1"
      "same_stream f f1" "io_error f1 = io_error f" "io_eof f1 = io_eof f" "sent k1 @ pending m f1 = sent k @ pending m f" "prefix (sent k) (sent k1)" "prefix (sent k1) (sent k @ pending m f)"
    and direct: "obytes f1 = 0" "bufsiz f1 \<le> count" "count \<noteq> 0" "mapped m p count"
    and ih: "\<And>n k2. pat k2 + (count - n) < pat k + count \<Longrightarrow> n \<le> count \<Longrightarrow>
      noflush_ok w sent pat m (p + n) (count - n) (bytes + n) f1 k2"
  shows "noflush_ok w sent pat m p count bytes f k"
proof -
  obtain rv k2 where r: "w k1 (io_fileno f1) (block m p count) = (rv, k2)"
    by (cases "w k1 (io_fileno f1) (block m p count)")
  note c = write_contractD [OF w r] and unfold = noflush_unfold [OF room(1) direct(3,4), of bytes]
  have len: "length (block m p count) = count" using direct by simp
  show ?thesis
  proof (cases rv)
    case (IODone n)
    note n = c(1) [OF IODone, unfolded len]
    show ?thesis
    proof (cases "n = 0")
      case True
      then show ?thesis
        using unfold r IODone direct room n by (intro noflush_stop [of w m p count bytes f k "f1\<lparr>io_eof := True\<rparr>" k2])
          (auto simp: failed_def out_ok_def)
    next
      case False
      have "pending m f1 = []" using direct(1) by (simp add: pending_def)
      then show ?thesis
        using unfold r IODone direct room n False ih [of k2 n]
        by (intro noflush_cons [of w m p count bytes f k m n f1 k2]) auto
    qed
  next
    case IOAgain
    then show ?thesis
      using unfold r direct room c(2) ih [of k2 0] by (intro noflush_cons [of w m p count bytes f k m 0 f1 k2]) auto
  next
    case IOError
    then show ?thesis
      using unfold r direct room c(3) by (intro noflush_stop [of w m p count bytes f k "f1\<lparr>io_error := True\<rparr>" k2])
        (auto simp: failed_def out_ok_def)
  qed
qed

lemma noflush_copy:
  assumes room: "make_room w m f k = Some (0, f1, k1)" "pat k1 \<le> pat k" "out_ok m f1"
      "same_stream f f1" "io_error f1 = io_error f" "io_eof f1 = io_eof f" "sent k1 @ pending m f1 = sent k @ pending m f" "obytes f1 < bufsiz f1"
      "prefix (sent k) (sent k1)"
    and copy: "\<not> (obytes f1 = 0 \<and> bufsiz f1 \<le> count)" "count \<noteq> 0" "mapped m p count" "disjoint_ranges (s_buf f) (bufsiz f) p count"
    and ih: "\<And>m1 n f2. out_ok m1 f2 \<Longrightarrow> same_stream f f2 \<Longrightarrow> length m1 = length m \<Longrightarrow> 0 < n \<Longrightarrow> n \<le> count \<Longrightarrow>
      noflush_ok w sent pat m1 (p + n) (count - n) (bytes + n) f2 k1"
  shows "noflush_ok w sent pat m p count bytes f k"
proof -
  define nb where "nb = min count (bufsiz f1 - obytes f1)"
  define f2 where "f2 = f1\<lparr>obytes := obytes f1 + nb\<rparr>"
  have buf: "s_buf f1 = s_buf f" "bufsiz f1 = bufsiz f" using room(4) by (auto simp: same_stream_def)
  have nb: "0 < nb" "nb \<le> count" using copy(2) room(8) by (auto simp: nb_def)
  obtain m1 where m1: "memcpy m (s_buf f1 + obytes f1) p nb = Some (m1, s_buf f1 + obytes f1)" "out_ok m1 f2" "length m1 = length m"
    "\<And>i. i < s_buf f \<or> s_buf f + bufsiz f \<le> i \<Longrightarrow> m1 ! i = m ! i" "pending m1 f2 = pending m f1 @ block m p nb"
    using copy_step [OF room(3,8) copy(3) _ nb_def] copy(4) unfolding f2_def buf by auto
  have eq: "fwrite_noflush w m p count bytes f k = fwrite_noflush w m1 (p + nb) (count - nb) (bytes + nb) f2 k1"
    using noflush_unfold [OF room(1) copy(2,3), of bytes] copy(1) m1(1) unfolding f2_def nb_def [symmetric] Let_def by simp
  have "block m1 (p + nb) (count - nb) = block m (p + nb) (count - nb)"
    by (rule disjoint_block_keep [OF _ m1(4,3)])
      (use copy(3,4) nb in \<open>auto simp: disjoint_ranges_def intro: mapped_shift\<close>)
  moreover have "sent k1 @ pending m1 f2 = sent k @ pending m f @ take nb (block m p count)"
    using room(7) m1(5) nb by (simp add: take_block)
  ultimately show ?thesis
    using room copy(3) nb m1 f2_def ih [OF m1(2) _ m1(3) nb]
    by (intro noflush_cons [OF eq]) auto
qed
lemma noflush_writes:
  assumes "write_contract w fd sent pat"
  shows "io_fileno f = fd \<Longrightarrow> out_ok m f \<Longrightarrow> mapped m p count \<Longrightarrow> disjoint_ranges (s_buf f) (bufsiz f) p count \<Longrightarrow>
    noflush_ok w sent pat m p count bytes f k"
proof (induction "pat k + count" arbitrary: m p count bytes f k rule: less_induct)
  case less
  note fd = less.prems(1) and ok = less.prems(2-4)
  show ?case
  proof (cases "count = 0")
    case True
    then have "fwrite_noflush w m p count bytes f k = Some (bytes, m, f, k)" by (subst fwrite_noflush.simps) simp
    then show ?thesis using True ok(1) by (auto simp: noflush_ok_def wrote_def)
  next
    case False
    obtain rv f1 k1 where room: "make_room w m f k = Some (rv, f1, k1)" "pat k1 \<le> pat k" "out_ok m f1" "same_stream f f1"
      "prefix (sent k) (sent k1)" "prefix (sent k1) (sent k @ pending m f)"
      "if rv = 0 then io_error f1 = io_error f \<and> io_eof f1 = io_eof f \<and> obytes f1 < bufsiz f1 \<and>
         sent k1 @ pending m f1 = sent k @ pending m f else failed f1"
      using make_room_sends [of w f, unfolded fd, OF assms ok(1), of k] by blast
    have rest: "mapped m1 (p + n) (count - n)" "disjoint_ranges (s_buf f2) (bufsiz f2) (p + n) (count - n)"
      if "same_stream f f2" "length m1 = length m" "n \<le> count" for f2 m1 n
      using ok(2,3) that by (auto simp: mapped_def disjoint_ranges_def same_stream_def)
    consider "rv \<noteq> 0" | "rv = 0" "obytes f1 = 0 \<and> bufsiz f1 \<le> count" | "rv = 0" "\<not> (obytes f1 = 0 \<and> bufsiz f1 \<le> count)"
      by blast
    then show ?thesis
    proof cases
      case 1
      then show ?thesis
        using noflush_unfold [OF room(1) False ok(2), of bytes] room False ok by (intro noflush_stop) auto
    next
      case 2
      show ?thesis
        by (rule noflush_direct [of w f1 sent pat m f k k1])
          (use assms fd room 2 False ok rest in \<open>auto simp: same_stream_def intro!: less.hyps\<close>)
    next
      case 3
      show ?thesis
        by (rule noflush_copy [of w m f k f1 k1])
          (use fd room 3 False ok rest in \<open>auto simp: same_stream_def intro!: less.hyps\<close>)
    qed
  qed
qed

lemma flush_len_spec:
  assumes "mapped m p count"
  shows "\<exists>l. flush_len mode m p count = Some l \<and> l \<le> count \<and> (mode = IONBF \<longrightarrow> l = count) \<and> (mode = IOFBF \<longrightarrow> l = 0) \<and>
    (mode = IOLBF \<longrightarrow> 10 \<notin> set (block m (p + l) (count - l)))"
proof (cases mode)
  case IOLBF
  let ?r = "last_at (\<lambda>i. m ! (p + i) = 10) count"
  have r: "memrchr m p 10 count = Some (at_ptr p ?r)"
    using memrchr_loop_last [OF assms] by (simp add: memrchr_def)
  have set_rest: "\<exists>i. l \<le> i \<and> i < count \<and> m ! (p + i) = 10" if l: "l \<le> count" "10 \<in> set (block m (p + l) (count - l))" for l
  proof -
    from l(2) obtain j where j: "j < length (block m (p + l) (count - l))" "block m (p + l) (count - l) ! j = 10"
      by (auto simp: in_set_conv_nth)
    then have "j < count - l" by (auto simp: block_def)
    then show ?thesis using j l(1) assms by (intro exI [of _ "l + j"]) (auto simp: mapped_def add.assoc)
  qed
  show ?thesis
  proof (cases ?r)
    case None
    then have "\<forall>i<count. m ! (p + i) \<noteq> 10" by (simp add: last_at_None_iff)
    then show ?thesis using IOLBF r None set_rest [of 0] by (auto simp: flush_len_def)
  next
    case (Some i)
    then have "i < count" "\<forall>j. i < j \<longrightarrow> j < count \<longrightarrow> m ! (p + j) \<noteq> 10" "0 < p"
      using assms by (auto simp: last_at_Some_iff mapped_def)
    then show ?thesis using IOLBF r Some set_rest [of "Suc i"] by (auto simp: flush_len_def)
  qed
qed (simp_all add: flush_len_def)

text \<open>What may stay in the buffer between calls: nothing in an unbuffered stream, no newline in a line buffered one.\<close>

definition settled :: "mem \<Rightarrow> stream \<Rightarrow> bool" where
  "settled m f \<longleftrightarrow> (buf_mode f = IONBF \<longrightarrow> pending m f = []) \<and> (buf_mode f = IOLBF \<longrightarrow> 10 \<notin> set (pending m f))"

text \<open>All bytes are taken, and follow those of the buffer.\<close>

definition all_sent :: "('k \<Rightarrow> byte list) \<Rightarrow> mem \<Rightarrow> stream \<Rightarrow> 'k \<Rightarrow> byte list \<Rightarrow> nat \<Rightarrow> mem \<Rightarrow> stream \<Rightarrow> 'k \<Rightarrow> bool" where
  "all_sent sent m f k bs n m' f' k' \<longleftrightarrow> n = length bs \<and> io_error f' = io_error f \<and> io_eof f' = io_eof f \<and>
     sent k' @ pending m' f' = sent k @ pending m f @ bs"

definition delivered ::
    "('k \<Rightarrow> byte list) \<Rightarrow> ('k \<Rightarrow> bool) \<Rightarrow> mem \<Rightarrow> stream \<Rightarrow> 'k \<Rightarrow> byte list \<Rightarrow> nat \<Rightarrow> mem \<Rightarrow> stream \<Rightarrow> 'k \<Rightarrow> bool" where
  "delivered sent broken m f k bs n m' f' k' \<longleftrightarrow> n \<le> length bs \<and> out_ok m' f' \<and> same_stream f f' \<and> length m' = length m \<and>
     (\<forall>i. i < s_buf f \<or> s_buf f + bufsiz f \<le> i \<longrightarrow> m' ! i = m ! i) \<and> prefix (sent k) (sent k') \<and>
     (all_sent sent m f k bs n m' f' k' \<or> failed f' \<and> broken k')"

lemma wrote_delivered:
  "wrote sent m f k bs n m' f' k' \<Longrightarrow> (n < length bs \<Longrightarrow> broken k') \<Longrightarrow> delivered sent broken m f k bs n m' f' k'"
  by (cases "n = length bs") (auto simp: wrote_def delivered_def all_sent_def)

lemma all_sent_trans:
  assumes "all_sent sent m f k bs n m1 f1 k1" "all_sent sent m1 f1 k1 cs l m' f' k'"
  shows "all_sent sent m f k (bs @ cs) (n + l) m' f' k'"
proof -
  have "sent k' @ pending m' f' = (sent k1 @ pending m1 f1) @ cs" using assms(2) by (simp add: all_sent_def)
  also have "\<dots> = sent k @ pending m f @ bs @ cs" using assms(1) by (simp add: all_sent_def)
  finally show ?thesis using assms by (simp add: all_sent_def)
qed

lemma delivered_trans:
  assumes "delivered sent broken m f k bs n m1 f1 k1" "delivered sent broken m1 f1 k1 cs l m' f' k'" "all_sent sent m f k bs n m1 f1 k1"
  shows "delivered sent broken m f k (bs @ cs) (n + l) m' f' k'"
  using assms all_sent_trans [OF assms(3), of cs l m' f' k'] same_stream_trans [of f f1 f'] prefix_order.trans [of "sent k" "sent k1" "sent k'"]
  by (auto simp: delivered_def same_stream_def)

lemma write_flushed_delivers:
  assumes w: "write_contract w (io_fileno f) sent pat" "write_errors w (io_fileno f) broken"
    and ok: "out_ok m f" "mapped m p l" "disjoint_ranges (s_buf f) (bufsiz f) p l"
  shows "\<exists>stop n m' f' k'. write_flushed w m p l f k = Some (stop, n, m', f', k') \<and>
    delivered sent broken m f k (block m p l) n m' f' k' \<and> (stop \<longrightarrow> failed f' \<and> broken k') \<and>
    (\<not> stop \<longrightarrow> all_sent sent m f k (block m p l) n m' f' k' \<and> (l \<noteq> 0 \<longrightarrow> pending m' f' = []))"
proof (cases "l = 0")
  case True
  then show ?thesis using ok by (auto simp: write_flushed_def delivered_def all_sent_def)
next
  case False
  have len: "length (block m p l) = l" using ok by simp
  obtain n m1 f1 k1 where n: "fwrite_noflush w m p l 0 f k = Some (n, m1, f1, k1)" "wrote sent m f k (block m p l) n m1 f1 k1"
    using noflush_writes [OF w(1) refl ok, of 0 k] by (auto simp: noflush_ok_def)
  have h: "honest broken f k (n < l) f1 k1" using noflush_errors [OF n(1) w(2)] by simp
  note d = n(2) [unfolded wrote_def len]
  have ok1: "out_ok m1 f1" and fd: "io_fileno f1 = io_fileno f" using d h by (simp_all add: honest_def)
  obtain rv f' k' where fl: "fflush_pvt w m1 f1 k1 = Some (rv, f', k')" "out_ok m1 f'" "same_stream f1 f'"
    "prefix (sent k1) (sent k')" "if rv = 0 then f' = f1\<lparr>obytes := 0\<rparr> \<and> sent k' = sent k1 @ pending m1 f1 else failed f'"
    using fflush_sends [of w f1, unfolded fd, OF w(1) ok1, of k1] by blast
  have h': "honest broken f1 k1 (rv \<noteq> 0) f' k'"
    using flush_loop_errors [OF fl(1) [unfolded fflush_pvt_def], unfolded fd, OF w(2)] by simp
  have eq: "write_flushed w m p l f k = Some (rv \<noteq> 0 \<or> n \<noteq> l, n, m1, f', k')"
    using False n(1) fl(1) by (simp add: write_flushed_def)
  have pre: "prefix (sent k) (sent k')" using d fl(4) prefix_order.trans by blast
  have same: "same_stream f f'" using d fl(3) same_stream_trans by blast
  have bad: "failed f' \<and> broken k'" if "rv \<noteq> 0 \<or> n \<noteq> l"
    using that d h h' fl(5) by (cases "rv = 0") (auto simp: honest_def failed_def)
  show ?thesis
  proof (cases "rv = 0 \<and> n = l")
    case True
    then have "all_sent sent m f k (block m p l) n m1 f' k'" "pending m1 f' = []"
      using fl(5) d len by (auto simp: all_sent_def pending_def)
    then show ?thesis using True eq pre same d fl(2) len by (auto simp: delivered_def)
  next
    case False
    then show ?thesis using eq pre same bad d fl(2) len by (auto simp: delivered_def)
  qed
qed

lemma all_sent_pending:
  assumes "all_sent sent m f k bs n m' f' k'" "prefix (sent k) (sent k')"
  shows "set (pending m' f') \<subseteq> set (pending m f @ bs)"
proof -
  obtain zs where "sent k' = sent k @ zs" using assms(2) by (auto simp: prefix_def)
  then have "zs @ pending m' f' = pending m f @ bs" using assms(1) by (simp add: all_sent_def)
  then show ?thesis by (metis Un_iff set_append subsetI)
qed

lemma fwrite_rest:
  assumes w: "write_contract w (io_fileno f) sent pat" "write_errors w (io_fileno f) broken"
    and d: "delivered sent broken m f k (block m p l) l m1 f1 k1" "all_sent sent m f k (block m p l) l m1 f1 k1" and l: "l \<le> count"
    and src: "mapped m p count" "disjoint_ranges (s_buf f) (bufsiz f) p count"
  shows "\<exists>n m' f' k'. fwrite_noflush w m1 (p + l) (count - l) 0 f1 k1 = Some (n, m', f', k') \<and>
    delivered sent broken m f k (block m p count) (l + n) m' f' k' \<and>
    (all_sent sent m f k (block m p count) (l + n) m' f' k' \<longrightarrow>
      set (pending m' f') \<subseteq> set (pending m1 f1) \<union> set (block m (p + l) (count - l)))"
proof -
  have m1: "out_ok m1 f1" "same_stream f f1" "length m1 = length m"
    "\<And>i. i < s_buf f \<or> s_buf f + bufsiz f \<le> i \<Longrightarrow> m1 ! i = m ! i"
    using d(1) unfolding delivered_def by auto
  have fd: "io_fileno f1 = io_fileno f" using m1(2) by (simp add: same_stream_def)
  have rest: "mapped m1 (p + l) (count - l)" "disjoint_ranges (s_buf f1) (bufsiz f1) (p + l) (count - l)"
    using src l m1(2,3) by (auto simp: mapped_def disjoint_ranges_def same_stream_def)
  have same: "block m1 (p + l) (count - l) = block m (p + l) (count - l)"
    by (rule disjoint_block_keep [OF _ m1(4,3)])
      (use src l in \<open>auto simp: disjoint_ranges_def intro: mapped_shift\<close>)
  let ?rest = "block m (p + l) (count - l)"
  obtain n m' f' k' where r: "fwrite_noflush w m1 (p + l) (count - l) 0 f1 k1 = Some (n, m', f', k')"
    "wrote sent m1 f1 k1 ?rest n m' f' k'"
    using noflush_writes [OF w(1) fd m1(1) rest, of 0 k1] same by (auto simp: noflush_ok_def)
  have len: "length ?rest = count - l" using rest(1) same by (metis length_block_mapped)
  have "n < count - l \<Longrightarrow> broken k'" using noflush_errors [OF r(1), unfolded fd, OF w(2)] by (simp add: honest_def)
  then have d2: "delivered sent broken m1 f1 k1 ?rest n m' f' k'" using len by (intro wrote_delivered [OF r(2)]) simp
  have b: "block m p count = block m p l @ ?rest"
    using block_append [of m p l "count - l"] l by simp
  have "delivered sent broken m f k (block m p count) (l + n) m' f' k'"
    unfolding b by (rule delivered_trans [OF d(1) d2 d(2)])
  moreover have "set (pending m' f') \<subseteq> set (pending m1 f1) \<union> set ?rest"
    if a: "all_sent sent m f k (block m p count) (l + n) m' f' k'"
  proof -
    have "(sent k1 @ pending m1 f1) @ ?rest = sent k @ pending m f @ block m p count" using d(2) b by (simp add: all_sent_def)
    then have "sent k' @ pending m' f' = sent k1 @ pending m1 f1 @ ?rest" using a by (simp add: all_sent_def)
    moreover have "prefix (sent k1) (sent k')" using d2 by (simp add: delivered_def)
    ultimately have "\<exists>zs. zs @ pending m' f' = pending m1 f1 @ ?rest" by (auto simp: prefix_def)
    then show ?thesis by (metis set_append sup.cobounded2)
  qed
  ultimately show ?thesis using r(1) by blast
qed

lemma fwrite_works:
  assumes w: "write_contract w (io_fileno f) sent pat" "write_errors w (io_fileno f) broken" and ok: "out_ok m f" "settled m f"
    and src: "mapped m p count" "disjoint_ranges (s_buf f) (bufsiz f) p count"
  shows "\<exists>n m' f' k'. fwrite_bytes True w m p count f k = Some (n, m', f', k') \<and>
    delivered sent broken m f k (block m p count) n m' f' k' \<and>
    (all_sent sent m f k (block m p count) n m' f' k' \<and> settled m' f' \<or> failed f' \<and> broken k')"
proof -
  obtain l where l: "flush_len (buf_mode f) m p count = Some l" "l \<le> count" "buf_mode f = IONBF \<Longrightarrow> l = count"
    "buf_mode f = IOLBF \<Longrightarrow> 10 \<notin> set (block m (p + l) (count - l))"
    using flush_len_spec [OF src(1)] by blast
  have sub: "mapped m p l" "disjoint_ranges (s_buf f) (bufsiz f) p l"
    using src l(2) by (auto simp: disjoint_ranges_def intro: mapped_mono)
  note src1 = sub length_block_mapped [OF sub(1)] length_block_mapped [OF src(1)]
  obtain stop n m1 f1 k1 where wf: "write_flushed w m p l f k = Some (stop, n, m1, f1, k1)"
    "delivered sent broken m f k (block m p l) n m1 f1 k1" "stop \<Longrightarrow> failed f1 \<and> broken k1"
    "\<not> stop \<Longrightarrow> all_sent sent m f k (block m p l) n m1 f1 k1 \<and> (l \<noteq> 0 \<longrightarrow> pending m1 f1 = [])"
    using write_flushed_delivers [OF w ok(1) src1(1,2), of k] by blast
  have mode: "buf_mode f1 = buf_mode f" and pre: "prefix (sent k) (sent k1)"
    using wf(2) by (auto simp: delivered_def same_stream_def)
  have kept: "set (pending m1 f1) \<subseteq> set (pending m f) \<and> (l \<noteq> 0 \<longrightarrow> pending m1 f1 = [])" if "\<not> stop"
    using wf(4) [OF that] all_sent_pending [of sent m f k "block m p l" n m1 f1 k1] pre by (cases "l = 0") auto
  have f: "fwrite_bytes True w m p count f k = (if stop \<or> count - l = 0 then Some (n, m1, f1, k1)
      else do { (more, m, f, k) \<leftarrow> fwrite_noflush w m1 (p + n) (count - l) 0 f1 k1; Some (n + more, m, f, k) })"
    using l(1) wf(1) by (simp add: fwrite_bytes_def fwrite_orig_def)
  consider "stop" | "\<not> stop" "count = l" | "\<not> stop" "l < count" using l(2) by linarith
  then show ?thesis
  proof cases
    case 1
    have "delivered sent broken m f k (block m p count) n m1 f1 k1"
      using wf(2) wf(3) [OF 1] l(2) src1(3,4) by (auto simp: delivered_def)
    then show ?thesis using f 1 wf(3) [OF 1] by auto
  next
    case 2
    have "settled m1 f1" using kept [OF 2(1)] ok(2) mode by (cases "l = 0") (auto simp: settled_def)
    then show ?thesis using f 2 wf(2) wf(4) [OF 2(1)] by auto
  next
    case 3
    then have n: "n = l" using wf(4) src1(3) by (simp add: all_sent_def)
    obtain n2 m' f' k' where r: "fwrite_noflush w m1 (p + l) (count - l) 0 f1 k1 = Some (n2, m', f', k')"
      "delivered sent broken m f k (block m p count) (l + n2) m' f' k'"
      "all_sent sent m f k (block m p count) (l + n2) m' f' k' \<Longrightarrow> set (pending m' f') \<subseteq> set (pending m1 f1) \<union> set (block m (p + l) (count - l))"
      using fwrite_rest [OF w wf(2) [unfolded n] _ l(2) src] wf(4) [OF 3(1)] n by blast
    have mode': "buf_mode f' = buf_mode f" using r(2) by (simp add: delivered_def same_stream_def)
    have "settled m' f'" if "all_sent sent m f k (block m p count) (l + n2) m' f' k'"
      using r(3) [OF that] kept [OF 3(1)] l(3,4) ok(2) mode' 3(2) unfolding settled_def by auto
    then show ?thesis using f 3 n r(1,2) by (auto simp: delivered_def)
  qed
qed

text \<open>C9: writing to a buffered stream, in any of the three buffering modes and with a kernel that may take only a part of the bytes or be interrupted. The call returns and changes no memory outside the buffer. Unless the kernel reports an error it takes all bytes and leaves the flags of the stream as they were: the bytes the kernel has received on the descriptor of the stream, followed by those in the buffer, are what they were before followed by the bytes written, and nothing stays in the buffer of an unbuffered stream and no newline in that of a line buffered one. If the kernel reports an error, or takes no byte, a flag of the stream is set, and it is only known that what the kernel received before is still there.\<close>

theorem fwrite_delivers:
  assumes w: "write_contract w (io_fileno f) sent pat" "write_errors w (io_fileno f) broken" and ok: "out_ok m f" "settled m f"
    and src: "mapped m p count" "disjoint_ranges (s_buf f) (bufsiz f) p count"
  shows "\<exists>n m' f' k'. fwrite_bytes True w m p count f k = Some (n, m', f', k') \<and> n \<le> count \<and> out_ok m' f' \<and> same_stream f f' \<and>
    (\<forall>i. i < s_buf f \<or> s_buf f + bufsiz f \<le> i \<longrightarrow> m' ! i = m ! i) \<and> prefix (sent k) (sent k') \<and>
    (n = count \<and> io_error f' = io_error f \<and> io_eof f' = io_eof f \<and> settled m' f' \<and>
       sent k' @ pending m' f' = sent k @ pending m f @ block m p count \<or>
     failed f' \<and> broken k')"
  using fwrite_works [OF assms, of k] src(1) unfolding delivered_def all_sent_def by auto

text \<open>A kernel that takes everything, except that it is interrupted once and writes at most two bytes at a time.\<close>

definition slow_write :: "(byte list \<times> nat) sys_write" where
  "slow_write k fd bs = (case k of (out, n) \<Rightarrow>
     if 0 < n then (IOAgain, (out, n - 1)) else (IODone (min 2 (length bs)), (out @ take 2 bs, 0)))"

lemma slow_write_contract: "write_contract slow_write fd fst snd" "write_errors slow_write fd (\<lambda>_. False)"
  by (auto simp: write_contract_def write_errors_def slow_write_def min_def split: prod.splits if_splits)

definition line_stream :: stream where
  "line_stream = \<lparr>io_fileno = 1, io_eof = False, io_error = False, s_buf = 1, s_data = 1, ibytes = 0, obytes = 0, bufsiz = 4, buf_mode = IOLBF\<rparr>"

theorem fwrite_delivers_witness:
  "\<exists>m' f' k'. fwrite_bytes True slow_write [7, 0, 0, 0, 0, 97, 10, 98] 5 3 line_stream ([], 1) = Some (3, m', f', k') \<and>
    \<not> io_error f' \<and> settled m' f' \<and> fst k' @ pending m' f' = [97, 10, 98]"
  using fwrite_delivers [OF slow_write_contract, of "[7, 0, 0, 0, 0, 97, 10, 98]" line_stream 5 3 "([], 1)"]
  by (auto simp: line_stream_def out_ok_def settled_def pending_def block_def mapped_def disjoint_ranges_def numeral_3_eq_3)

text \<open>C38: when a flush is cut off by an error after the kernel took some of the bytes, the buffer does not hold the rest afterwards but its first bytes again, which a later flush sends a second time.\<close>

theorem flush_retry_resends:
  assumes "mapped m (s_buf f) (obytes f)" "0 < n" "n < obytes f"
    and "w k (io_fileno f) (pending m f) = (IODone n, k1)" "w k1 (io_fileno f) (drop n (pending m f)) = (IOError, k2)"
  shows "\<exists>f'. fflush_pvt w m f k = Some (EOF, f', k2) \<and> io_error f' \<and>
    pending m f' = take (obytes f - n) (pending m f)"
proof -
  have "mapped m (s_buf f + n) (obytes f - n)"
    using assms(1,3) mapped_shift [of m "s_buf f" "obytes f" n] by simp
  then have "fflush_pvt w m f k = Some (EOF, f\<lparr>obytes := obytes f - n, io_error := True\<rparr>, k2)"
    using assms unfolding fflush_pvt_def pending_def drop_block
    by (subst flush_loop.simps, simp) (subst flush_loop.simps, simp)
  then show ?thesis by (simp add: pending_def take_block)
qed

theorem flush_retry_resends_witness:
  "\<exists>f'. fflush_pvt (\<lambda>k fd bs. if k = (0 :: nat) then (IODone 1, 1) else (IOError, k)) [7, 97, 98, 99] (line_stream\<lparr>obytes := 3\<rparr>) 0 = Some (EOF, f', 1) \<and>
    io_error f' \<and> pending [7, 97, 98, 99] f' = [97, 98]"
  using flush_retry_resends [of "[7, 97, 98, 99]" "line_stream\<lparr>obytes := 3\<rparr>" 1
      "\<lambda>k fd bs. if k = (0 :: nat) then (IODone 1, 1) else (IOError, k)" 0 1 1]
  by (simp add: line_stream_def mapped_def pending_def block_def numeral_3_eq_3)

section \<open>Reading\<close>

abbreviation in_size :: "stream \<Rightarrow> nat" where
  "in_size f \<equiv> IO_UNGET_SLOP + bufsiz f"

definition unread :: "mem \<Rightarrow> stream \<Rightarrow> byte list" where
  "unread m f = block m (s_data f) (ibytes f)"

definition in_ok :: "mem \<Rightarrow> stream \<Rightarrow> bool" where
  "in_ok m f \<longleftrightarrow> obytes f = 0 \<and> 0 < bufsiz f \<and> mapped m (s_buf f) (in_size f) \<and>
     s_buf f \<le> s_data f \<and> s_data f + ibytes f \<le> s_buf f + in_size f"

text \<open>
  What a call achieves: \<open>n\<close> bytes are stored at \<open>p\<close>, and they, the rest of the buffer and what the kernel still holds are what buffer and
  kernel held before; it stops early only for an error of the kernel, or at the end of everything.
\<close>

definition got :: "('k \<Rightarrow> byte list) \<Rightarrow> ('k \<Rightarrow> bool) \<Rightarrow> mem \<Rightarrow> stream \<Rightarrow> 'k \<Rightarrow> addr \<Rightarrow> nat \<Rightarrow> nat \<Rightarrow> mem \<Rightarrow> stream \<Rightarrow> 'k \<Rightarrow> bool" where
  "got supply broken m f k p count n m' f' k' \<longleftrightarrow> n \<le> count \<and> in_ok m' f' \<and> same_stream f f' \<and> length m' = length m \<and>
     (\<forall>i. (i < s_buf f \<or> s_buf f + in_size f \<le> i) \<and> (i < p \<or> p + count \<le> i) \<longrightarrow> m' ! i = m ! i) \<and>
     block m' p n @ unread m' f' @ supply k' = unread m f @ supply k \<and>
     (n < count \<longrightarrow> io_error f' \<and> broken k' \<or> io_eof f' \<and> unread m' f' @ supply k' = [])"

definition fread_ok :: "'k sys_read \<Rightarrow> ('k \<Rightarrow> byte list) \<Rightarrow> ('k \<Rightarrow> bool) \<Rightarrow> mem \<Rightarrow> addr \<Rightarrow> nat \<Rightarrow> nat \<Rightarrow> stream \<Rightarrow> 'k \<Rightarrow> bool" where
  "fread_ok r supply broken m p count bytes f k \<longleftrightarrow>
     (\<exists>n m' f' k'. fread_loop r m p count bytes f k = Some (bytes + n, m', f', k') \<and> got supply broken m f k p count n m' f' k')"

lemma fread_cons:
  assumes eq: "fread_loop r m p count bytes f k = fread_loop r m1 (p + l) (count - l) (bytes + l) f1 k1"
    and ok: "fread_ok r supply broken m1 (p + l) (count - l) (bytes + l) f1 k1"
    and dst: "l \<le> count" "mapped m p count" "disjoint_ranges (s_buf f) (in_size f) p count"
    and step: "same_stream f f1" "length m1 = length m"
      "\<And>i. (i < s_buf f \<or> s_buf f + in_size f \<le> i) \<and> (i < p \<or> p + count \<le> i) \<Longrightarrow> m1 ! i = m ! i"
      "block m1 p l @ unread m1 f1 @ supply k1 = unread m f @ supply k"
  shows "fread_ok r supply broken m p count bytes f k"
proof -
  obtain n m' f' k' where r: "fread_loop r m1 (p + l) (count - l) (bytes + l) f1 k1 = Some (bytes + l + n, m', f', k')"
    and g: "got supply broken m1 f1 k1 (p + l) (count - l) n m' f' k'"
    using ok unfolding fread_ok_def by blast
  note g = g [unfolded got_def]
  have f1: "s_buf f1 = s_buf f" "bufsiz f1 = bufsiz f" using step(1) by (auto simp: same_stream_def)
  have len: "length m' = length m" using g step(2) by simp
  have keep: "block m' p l = block m1 p l"
    using dst g f1 step(2) by (cases "l = 0") (auto intro!: block_eqI simp: mapped_def disjoint_ranges_def)
  have "block m' p (l + n) @ unread m' f' @ supply k' = unread m f @ supply k"
    using g keep step(4) by (simp add: block_append)
  moreover have "m' ! i = m ! i" if "(i < s_buf f \<or> s_buf f + in_size f \<le> i) \<and> (i < p \<or> p + count \<le> i)" for i
  proof -
    have "m' ! i = m1 ! i" using g that dst(1) f1 by auto
    then show ?thesis using step(3) [OF that] by simp
  qed
  ultimately have "got supply broken m f k p count (l + n) m' f' k'"
    using g len dst(1) same_stream_trans [OF step(1), of f'] by (auto simp: got_def)
  then show ?thesis using r eq unfolding fread_ok_def by (auto simp: add.assoc)
qed

lemma fread_stop:
  assumes "fread_loop r m p count bytes f k = Some (bytes, m, f1, k1)" "in_ok m f1" "same_stream f f1" "unread m f1 = unread m f"
    "supply k1 = supply k" "io_error f1 \<and> broken k1 \<or> io_eof f1 \<and> unread m f1 @ supply k1 = []"
  shows "fread_ok r supply broken m p count bytes f k"
  unfolding fread_ok_def using assms by (intro exI [of _ 0] exI [of _ m] exI [of _ f1] exI [of _ k1]) (simp add: got_def)

text \<open>Taking bytes from the buffer.\<close>

lemma fread_take:
  assumes ok: "in_ok m f" "ibytes f \<noteq> 0" "count \<noteq> 0" and dst: "mapped m p count" "disjoint_ranges (s_buf f) (in_size f) p count"
    and ih: "\<And>m1 f1 l. in_ok m1 f1 \<Longrightarrow> same_stream f f1 \<Longrightarrow> length m1 = length m \<Longrightarrow> 0 < l \<Longrightarrow> l \<le> count \<Longrightarrow>
      fread_ok r supply broken m1 (p + l) (count - l) (bytes + l) f1 k"
  shows "fread_ok r supply broken m p count bytes f k"
proof -
  define nb where "nb = min count (ibytes f)"
  define f1 where "f1 = f\<lparr>s_data := s_data f + nb, ibytes := ibytes f - nb\<rparr>"
  define m1 where "m1 = put m p (block m (s_data f) nb)"
  have nb: "0 < nb" "nb \<le> count" "nb \<le> ibytes f" using ok by (auto simp: nb_def)
  have ranges: "0 < s_buf f" "s_buf f + in_size f \<le> length m" "s_buf f \<le> s_data f" "s_data f + ibytes f \<le> s_buf f + in_size f"
    "0 < p" "p + count \<le> length m"
    using ok dst(1) by (auto simp: in_ok_def mapped_def)
  have len: "length (block m (s_data f) nb) = nb" "length m1 = length m" "p + nb \<le> length m"
    using ranges nb by (auto simp: m1_def)
  have copy: "memcpy m p (s_data f) nb = Some (m1, p)"
    using ranges nb dst(2) unfolding memcpy_def m1_def
    by (subst memcpy_loop_put) (auto simp: mapped_def disjoint_ranges_def)
  have eq: "fread_loop r m p count bytes f k = fread_loop r m1 (p + nb) (count - nb) (bytes + nb) f1 k"
    using copy ok(2,3) by (subst fread_loop.simps) (simp add: f1_def nb_def [symmetric] Let_def)
  have rest: "block m1 (s_data f + nb) (ibytes f - nb) = block m (s_data f + nb) (ibytes f - nb)"
    using ranges nb dst(2) len unfolding m1_def by (intro block_put_disjoint) (auto simp: disjoint_ranges_def)
  have "block m1 p nb @ unread m1 f1 = unread m f"
    using block_put_same [of p "block m (s_data f) nb" m] len rest nb block_append [of m "s_data f" nb "ibytes f - nb"]
    by (simp add: m1_def unread_def f1_def)
  moreover have "in_ok m1 f1" using ok ranges nb len by (auto simp: in_ok_def f1_def mapped_def)
  moreover have "m1 ! i = m ! i" if "i < p \<or> p + count \<le> i" for i
    using that len nb by (auto simp: m1_def nth_put)
  ultimately show ?thesis
    using nb len dst ih [of m1 f1 nb] by (intro fread_cons [OF eq]) (auto simp: f1_def)
qed

lemma fread_fill_unfold:
  assumes "ibytes f = 0" "count \<noteq> 0"
  shows "fread_loop r m p count bytes f k =
    (case r k (io_fileno f) (if bufsiz f \<le> count then count else bufsiz f) of (rv, k) \<Rightarrow>
       (case rv of
          InAgain \<Rightarrow> fread_loop r m p count bytes f k
        | InError \<Rightarrow> Some (bytes, m, f\<lparr>io_error := True\<rparr>, k)
        | InData bs \<Rightarrow>
            (if bs = [] then Some (bytes, m, f\<lparr>io_eof := True\<rparr>, k)
             else if (if bufsiz f \<le> count then count else bufsiz f) < length bs then None
             else do {
               m \<leftarrow> store_bytes m (if bufsiz f \<le> count then p else s_buf f + IO_UNGET_SLOP) bs;
               if bufsiz f \<le> count then fread_loop r m (p + length bs) (count - length bs) (bytes + length bs) f k
               else fread_loop r m p count bytes (f\<lparr>ibytes := length bs, s_data := s_buf f + IO_UNGET_SLOP\<rparr>) k
             })))"
  by (rule trans [OF fread_loop.simps], cases "bufsiz f \<le> count") (simp_all add: Let_def assms split: prod.split in_result.split)

text \<open>A read that goes around the buffer.\<close>

lemma fread_bypass:
  assumes ok: "in_ok m f" "ibytes f = 0" "bufsiz f \<le> count" and dst: "mapped m p count" "disjoint_ranges (s_buf f) (in_size f) p count"
    and bs: "r k (io_fileno f) count = (InData bs, k1)" "bs \<noteq> []" "length bs \<le> count" "supply k = bs @ supply k1"
    and ih: "\<And>m1. in_ok m1 f \<Longrightarrow> length m1 = length m \<Longrightarrow> fread_ok r supply broken m1 (p + length bs) (count - length bs) (bytes + length bs) f k1"
  shows "fread_ok r supply broken m p count bytes f k"
proof -
  define m1 where "m1 = put m p bs"
  have p: "0 < p" "p + count \<le> length m" using dst(1) ok by (auto simp: mapped_def in_ok_def)
  then have m1: "length m1 = length m" "block m1 p (length bs) = bs"
    using bs(3) block_put_same [of p bs m] by (auto simp: m1_def)
  have "store_bytes m p bs = Some m1" using p bs(3) by (simp add: store_bytes_def m1_def mapped_def)
  then have eq: "fread_loop r m p count bytes f k = fread_loop r m1 (p + length bs) (count - length bs) (bytes + length bs) f k1"
    using fread_fill_unfold [OF ok(2), of count r m p bytes k] bs ok by (auto simp: in_ok_def)
  have "in_ok m1 f" using ok m1(1) by (auto simp: in_ok_def mapped_def)
  moreover have "m1 ! i = m ! i" if "i < p \<or> p + count \<le> i" for i
    using that p bs(3) by (auto simp: m1_def nth_put)
  ultimately show ?thesis
    using m1 ih bs(3,4) ok(2) dst by (intro fread_cons [OF eq]) (auto simp: unread_def)
qed

text \<open>A read into the buffer.\<close>

lemma fread_refill:
  assumes ok: "in_ok m f" "ibytes f = 0" "count < bufsiz f" "count \<noteq> 0" and dst: "mapped m p count" "disjoint_ranges (s_buf f) (in_size f) p count"
    and bs: "r k (io_fileno f) (bufsiz f) = (InData bs, k1)" "bs \<noteq> []" "length bs \<le> bufsiz f" "supply k = bs @ supply k1"
    and ih: "\<And>m1 f1. in_ok m1 f1 \<Longrightarrow> same_stream f f1 \<Longrightarrow> length m1 = length m \<Longrightarrow> fread_ok r supply broken m1 p count bytes f1 k1"
  shows "fread_ok r supply broken m p count bytes f k"
proof -
  define q where "q = s_buf f + IO_UNGET_SLOP"
  define m1 where "m1 = put m q bs"
  define f1 where "f1 = f\<lparr>ibytes := length bs, s_data := q\<rparr>"
  have q: "0 < q" "s_buf f \<le> q" "q + length bs \<le> s_buf f + in_size f" "s_buf f + in_size f \<le> length m"
    using ok(1) bs(3) by (auto simp: in_ok_def mapped_def q_def)
  then have m1: "length m1 = length m" "unread m1 f1 = bs"
    using block_put_same [of q bs m] by (auto simp: m1_def unread_def f1_def)
  have "store_bytes m q bs = Some m1" using q by (simp add: store_bytes_def m1_def mapped_def)
  then have eq: "fread_loop r m p count bytes f k = fread_loop r m1 (p + 0) (count - 0) (bytes + 0) f1 k1"
    using fread_fill_unfold [OF ok(2,4), of r m p bytes k] bs ok(3) by (simp add: f1_def q_def)
  have "in_ok m1 f1" using ok q m1(1) bs(2) by (auto simp: in_ok_def mapped_def f1_def)
  moreover have "m1 ! i = m ! i" if "i < s_buf f \<or> s_buf f + in_size f \<le> i" for i
    using that q by (auto simp: m1_def nth_put)
  ultimately show ?thesis
    using m1 ih [of m1 f1] bs(4) ok(2) dst by (intro fread_cons [OF eq]) (auto simp: unread_def f1_def)
qed

lemma fread_reads:
  assumes "read_contract r fd supply pat" "read_errors r fd broken"
  shows "io_fileno f = fd \<Longrightarrow> in_ok m f \<Longrightarrow> mapped m p count \<Longrightarrow> disjoint_ranges (s_buf f) (in_size f) p count \<Longrightarrow>
    fread_ok r supply broken m p count bytes f k"
proof (induction "pat k + count + length (supply k)" arbitrary: m p count bytes f k rule: less_induct)
  case less
  note fd = less.prems(1) and ok = less.prems(2-4)
  have rest: "mapped m1 (p + n) (count - n)" "disjoint_ranges (s_buf f1) (in_size f1) (p + n) (count - n)"
    if "same_stream f f1" "length m1 = length m" "n \<le> count" for f1 m1 n
    using ok(2,3) that by (auto simp: mapped_def disjoint_ranges_def same_stream_def)
  consider "count = 0" | "count \<noteq> 0" "ibytes f \<noteq> 0" | "count \<noteq> 0" "ibytes f = 0" by blast
  then show ?case
  proof cases
    case 1
    then have "fread_loop r m p count bytes f k = Some (bytes + 0, m, f, k)" by (subst fread_loop.simps) simp
    then show ?thesis using 1 ok(1) unfolding fread_ok_def by (intro exI conjI) (auto simp: got_def)
  next
    case 2
    show ?thesis
      by (rule fread_take [OF ok(1) 2(2,1) ok(2,3)]) (use rest fd in \<open>auto simp: same_stream_def intro!: less.hyps\<close>)
  next
    case 3
    define nb where "nb = (if bufsiz f \<le> count then count else bufsiz f)"
    have nb0: "0 < nb" using 3(1) ok(1) by (auto simp: nb_def in_ok_def)
    obtain rv k1 where r: "r k fd nb = (rv, k1)" by (cases "r k fd nb")
    note c = read_contractD [OF assms(1) r] and unfold = fread_fill_unfold [OF 3(2,1), of r m p bytes k, folded nb_def, unfolded fd r]
    show ?thesis
    proof (cases rv)
      case (InData bs)
      note d = c(1) [OF InData]
      show ?thesis
      proof (cases "bs = []")
        case True
        then show ?thesis
          using unfold InData d nb0 ok(1) 3(2) by (intro fread_stop [of r m p count bytes f k "f\<lparr>io_eof := True\<rparr>" k1])
            (auto simp: in_ok_def unread_def)
      next
        case False
        then have len: "0 < length bs" by simp
        show ?thesis
        proof (cases "bufsiz f \<le> count")
          case True
          have less': "pat k1 + (count - length bs) + length (supply k1) < pat k + count + length (supply k)"
            using d len by (simp only: length_append) linarith
          show ?thesis
            by (rule fread_bypass [OF ok(1) 3(2) True ok(2,3)])
              (use fd r InData d False True rest [of f] less.hyps [OF less'] in \<open>auto simp: nb_def\<close>)
        next
          case small: False
          have less': "pat k1 + count + length (supply k1) < pat k + count + length (supply k)"
            using d len by (simp only: length_append) linarith
          show ?thesis
            by (rule fread_refill [OF ok(1) 3(2) _ 3(1) ok(2,3)])
              (use fd r InData d False small rest [of _ _ 0] less.hyps [OF less'] in \<open>auto simp: nb_def same_stream_def\<close>)
        qed
      qed
    next
      case InAgain
      then have "fread_loop r m p count bytes f k = fread_loop r m p count bytes f k1" using unfold by simp
      then show ?thesis using less.hyps [of k1 count f m p bytes] fd ok c(2) [OF InAgain] by (simp add: fread_ok_def got_def)
    next
      case InError
      then show ?thesis
        using unfold c(3) read_errorsD [OF assms(2) r [unfolded InError]] ok(1) by (intro fread_stop [of r m p count bytes f k "f\<lparr>io_error := True\<rparr>" k1])
          (auto simp: in_ok_def unread_def)
    qed
  qed
qed

text \<open>C10: reading from a buffered stream returns; the bytes stored, the rest of the buffer and what the kernel still holds for the descriptor of the stream are together what the buffer and the kernel held before, no other memory changes, and fewer bytes than asked for are stored only after the kernel reported an error, with the error flag set, or at the end of the input, with the end flag set.\<close>

theorem fread_delivers:
  assumes "read_contract r (io_fileno f) supply pat" "read_errors r (io_fileno f) broken" "in_ok m f" "mapped m p count" "disjoint_ranges (s_buf f) (in_size f) p count"
  shows "\<exists>n m' f' k'. fread_bytes True w r m p count f k = Some (n, m', f', k') \<and> n \<le> count \<and> in_ok m' f' \<and>
    (\<forall>i. (i < s_buf f \<or> s_buf f + in_size f \<le> i) \<and> (i < p \<or> p + count \<le> i) \<longrightarrow> m' ! i = m ! i) \<and>
    block m' p n @ unread m' f' @ supply k' = unread m f @ supply k \<and>
    (n = count \<or> io_error f' \<and> broken k' \<or> io_eof f' \<and> unread m' f' @ supply k' = [])"
proof (cases "count = 0")
  case True
  then show ?thesis using assms(3) by (simp add: fread_bytes_def fread_orig_def)
next
  case False
  have "fread_bytes True w r m p count f k = fread_loop r m p count 0 f k"
    using False assms(3) by (simp add: fread_bytes_def fread_orig_def in_ok_def)
  then show ?thesis
    using fread_reads [OF assms(1,2) refl assms(3-5), of 0 k] by (auto simp: fread_ok_def got_def)
qed

text \<open>A kernel that holds bytes and gives at most two of them at a time, and is interrupted first.\<close>

definition slow_read :: "(byte list \<times> nat) sys_read" where
  "slow_read k fd nb = (case k of (inp, n) \<Rightarrow>
     if 0 < n then (InAgain, (inp, n - 1)) else (InData (take (min 2 nb) inp), (drop (min 2 nb) inp, 0)))"

lemma slow_read_contract: "read_contract slow_read fd fst snd" "read_errors slow_read fd (\<lambda>_. False)"
  by (auto simp: read_contract_def read_errors_def slow_read_def split: prod.splits if_splits)

definition in_stream :: stream where
  "in_stream = line_stream\<lparr>bufsiz := 2\<rparr>"

theorem fread_delivers_witness:
  "\<exists>n m' f' k'. fread_bytes True slow_write slow_read (replicate 40 7) 36 3 in_stream ([1, 2, 3, 4, 5], 1) = Some (n, m', f', k') \<and>
    block m' 36 n @ unread m' f' @ fst k' = [1, 2, 3, 4, 5] \<and> (n = 3 \<or> io_eof f' \<and> unread m' f' @ fst k' = [])"
  using fread_delivers [OF slow_read_contract, of "replicate 40 7" in_stream 36 3 slow_write "([1, 2, 3, 4, 5], 1)"]
  by (fastforce simp: in_stream_def line_stream_def in_ok_def mapped_def disjoint_ranges_def unread_def IO_UNGET_SLOP_def)

section \<open>Characters and lines\<close>

lemma byte_not_EOF [simp]: "uint (b :: byte) \<noteq> EOF" "EOF \<noteq> uint (b :: byte)"
  using uint_byte [of b] unfolding EOF_def by linarith+

definition held :: "('k \<Rightarrow> byte list) \<Rightarrow> mem \<Rightarrow> stream \<Rightarrow> 'k \<Rightarrow> byte list" where
  "held supply m f k = unread m f @ supply k"

text \<open>A byte of the local variable that \<^verbatim>\<open>fgetc\<close> reads into.\<close>

definition cell_ok :: "mem \<Rightarrow> stream \<Rightarrow> addr \<Rightarrow> bool" where
  "cell_ok m f ch \<longleftrightarrow> 0 < ch \<and> ch < length m \<and> (ch < s_buf f \<or> s_buf f + in_size f \<le> ch)"

definition took :: "('k \<Rightarrow> byte list) \<Rightarrow> ('k \<Rightarrow> bool) \<Rightarrow> mem \<Rightarrow> stream \<Rightarrow> 'k \<Rightarrow> addr \<Rightarrow> int \<Rightarrow> mem \<Rightarrow> stream \<Rightarrow> 'k \<Rightarrow> bool" where
  "took supply broken m f k ch c m' f' k' \<longleftrightarrow> in_ok m' f' \<and> same_stream f f' \<and> length m' = length m \<and>
     (\<forall>i. (i < s_buf f \<or> s_buf f + in_size f \<le> i) \<and> i \<noteq> ch \<longrightarrow> m' ! i = m ! i) \<and>
     (c = EOF \<and> held supply m' f' k' = held supply m f k \<and> (io_error f' \<and> broken k' \<or> io_eof f' \<and> held supply m f k = []) \<or>
      (\<exists>b. c = uint b \<and> held supply m f k = b # held supply m' f' k'))"

lemma fgetc_takes:
  assumes r: "read_contract r (io_fileno f) supply pat" "read_errors r (io_fileno f) broken" and ok: "in_ok m f" "cell_ok m f ch"
  shows "\<exists>c m' f' k'. fgetc True w r m ch f k = Some (c, m', f', k') \<and> took supply broken m f k ch c m' f' k'"
proof (cases "ibytes f = 0")
  case False
  then have "unread m f = m ! s_data f # block m (s_data f + 1) (ibytes f - 1)" "0 < s_data f" "s_data f < length m"
    using ok(1) block_Suc [of "s_data f" m "ibytes f - 1"] by (auto simp: unread_def in_ok_def mapped_def)
  then show ?thesis
    using False ok(1) by (auto simp: fgetc_def fgetc_orig_def took_def held_def unread_def in_ok_def mem_simps)
next
  case True
  have "mapped m ch 1" "disjoint_ranges (s_buf f) (in_size f) ch 1"
    using ok(2) by (auto simp: cell_ok_def mapped_def disjoint_ranges_def)
  from fread_reads [OF r refl ok(1) this, of 0 k]
  obtain n m' f' k' where n: "fread_loop r m ch 1 0 f k = Some (n, m', f', k')" "got supply broken m f k ch 1 n m' f' k'"
    by (auto simp: fread_ok_def)
  have fr: "fread_bytes True w r m ch 1 f k = Some (n, m', f', k')"
    using n(1) ok(1) by (simp add: fread_bytes_def fread_orig_def in_ok_def)
  note g = n(2) [unfolded got_def]
  have ch: "0 < ch" "ch < length m'" using ok(2) g by (auto simp: cell_ok_def)
  show ?thesis
  proof (cases "n = 1")
    case n1: True
    then have "held supply m f k = m' ! ch # held supply m' f' k'"
      using g ch block_Suc [of ch m' 0] by (simp add: held_def)
    then show ?thesis
      using True n1 fr g ch by (fastforce simp: fgetc_def fgetc_orig_def took_def mem_simps)
  next
    case False
    then have "n = 0" using g by simp
    then show ?thesis
      using True fr g by (auto simp: fgetc_def fgetc_orig_def took_def held_def)
  qed
qed

text \<open>The part of the input that \<^verbatim>\<open>fgets\<close> takes: up to a newline, and not more than \<open>n\<close> bytes.\<close>

fun cut_line :: "nat \<Rightarrow> byte list \<Rightarrow> byte list" where
  "cut_line 0 bs = []"
| "cut_line (Suc n) [] = []"
| "cut_line (Suc n) (b # bs) = (if b = 10 then [b] else b # cut_line n bs)"

lemma cut_line_length: "length (cut_line n bs) \<le> n"
  by (induction n bs rule: cut_line.induct) auto

definition whole_line :: "nat \<Rightarrow> byte list \<Rightarrow> bool" where
  "whole_line n l \<longleftrightarrow> length l = n \<or> l \<noteq> [] \<and> last l = 10"


definition line_ok :: "mem \<Rightarrow> stream \<Rightarrow> addr \<Rightarrow> addr \<Rightarrow> nat \<Rightarrow> bool" where
  "line_ok m f ch p n \<longleftrightarrow> mapped m p n \<and> disjoint_ranges (s_buf f) (in_size f) p n \<and> (ch < p \<or> p + n \<le> ch)"

definition read_line :: "('k \<Rightarrow> byte list) \<Rightarrow> mem \<Rightarrow> stream \<Rightarrow> 'k \<Rightarrow> addr \<Rightarrow> nat \<Rightarrow> nat \<Rightarrow> bool \<Rightarrow> mem \<Rightarrow> stream \<Rightarrow> 'k \<Rightarrow> bool" where
  "read_line supply m f k p n j g m' f' k' \<longleftrightarrow> (let l = cut_line n (held supply m f k) in
     j = length l \<and> block m' p j = l \<and> held supply m f k = l @ held supply m' f' k' \<and> g = whole_line n l)"

definition line_result :: "('k \<Rightarrow> byte list) \<Rightarrow> ('k \<Rightarrow> bool) \<Rightarrow> mem \<Rightarrow> stream \<Rightarrow> 'k \<Rightarrow> addr \<Rightarrow> addr \<Rightarrow> nat \<Rightarrow> nat \<Rightarrow> bool \<Rightarrow> mem \<Rightarrow> stream \<Rightarrow> 'k \<Rightarrow> bool" where
  "line_result supply broken m f k ch p n j g m' f' k' \<longleftrightarrow> j \<le> n \<and> in_ok m' f' \<and> same_stream f f' \<and> length m' = length m \<and>
     (\<forall>i. (i < s_buf f \<or> s_buf f + in_size f \<le> i) \<and> i \<noteq> ch \<and> (i < p \<or> p + n \<le> i) \<longrightarrow> m' ! i = m ! i) \<and>
     (io_error f' \<and> broken k' \<or> read_line supply m f k p n j g m' f' k')"

lemma held_update: "in_ok m f \<Longrightarrow> p < s_buf f \<or> s_buf f + in_size f \<le> p \<Longrightarrow> held supply (m[p := b]) f k = held supply m f k"
  by (cases "ibytes f = 0") (auto simp: held_def unread_def in_ok_def mapped_def intro!: block_update_out)

lemma line_step:
  assumes p: "line_ok m f ch p (Suc n)" "cell_ok m f ch" and t: "took supply broken m f k ch (uint b) m1 f1 k1"
  shows "in_ok (m1[p := b]) f1" "same_stream f f1" "length (m1[p := b]) = length m" "0 < p" "p < length m1"
    "held supply m f k = b # held supply (m1[p := b]) f1 k1"
    "\<And>i. (i < s_buf f \<or> s_buf f + in_size f \<le> i) \<and> i \<noteq> ch \<and> i \<noteq> p \<Longrightarrow> m1[p := b] ! i = m ! i"
    "cell_ok (m1[p := b]) f1 ch" "line_ok (m1[p := b]) f1 ch (p + 1) n"
proof -
  note t = t [unfolded took_def]
  have f1: "s_buf f1 = s_buf f" "bufsiz f1 = bufsiz f" using t by (auto simp: same_stream_def)
  have h: "held supply m f k = b # held supply m1 f1 k1" using t by auto
  show "in_ok (m1[p := b]) f1" "same_stream f f1" "length (m1[p := b]) = length m" using t by (auto simp: in_ok_def mapped_def)
  show p1: "0 < p" "p < length m1" using p t by (auto simp: line_ok_def mapped_def)
  have "p < s_buf f1 \<or> s_buf f1 + in_size f1 \<le> p" using p f1 by (auto simp: line_ok_def disjoint_ranges_def)
  then show "held supply m f k = b # held supply (m1[p := b]) f1 k1" using h t by (simp add: held_update)
  show "m1[p := b] ! i = m ! i" if "(i < s_buf f \<or> s_buf f + in_size f \<le> i) \<and> i \<noteq> ch \<and> i \<noteq> p" for i
    using that t by simp
  show "cell_ok (m1[p := b]) f1 ch" "line_ok (m1[p := b]) f1 ch (p + 1) n"
    using p t f1 by (auto simp: cell_ok_def line_ok_def mapped_def disjoint_ranges_def)
qed

lemma line_result_Cons:
  assumes p: "line_ok m f ch p (Suc n)" "cell_ok m f ch" and t: "took supply broken m f k ch (uint b) m1 f1 k1" and b: "b \<noteq> 10"
    and l: "line_result supply broken (m1[p := b]) f1 k1 ch (p + 1) n j g m' f' k'"
  shows "line_result supply broken m f k ch p (Suc n) (Suc j) g m' f' k'"
proof -
  note s = line_step [OF p t] and l = l [unfolded line_result_def]
  have f1: "s_buf f1 = s_buf f" "bufsiz f1 = bufsiz f" using s(2) by (auto simp: same_stream_def)
  have buf: "p < s_buf f \<or> s_buf f + in_size f \<le> p" "p \<noteq> ch" using p(1) by (auto simp: line_ok_def disjoint_ranges_def)
  have frame: "m' ! i = m ! i" if "(i < s_buf f \<or> s_buf f + in_size f \<le> i) \<and> i \<noteq> ch \<and> (i < p \<or> p + Suc n \<le> i)" for i
  proof -
    have "m' ! i = m1[p := b] ! i" using l that f1 by auto
    then show ?thesis using s(7) [of i] that by auto
  qed
  have "m' ! p = m1[p := b] ! p" using l buf f1 by auto
  then have "block m' p (Suc j) = b # block m' (p + 1) j"
    using block_Suc [of p m' j] s(3,5) l by simp
  moreover have "whole_line (Suc n) (b # xs) = whole_line n xs" for xs
    using b by (auto simp: whole_line_def)
  ultimately have "read_line supply m f k p (Suc n) (Suc j) g m' f' k'" if "\<not> (io_error f' \<and> broken k')"
    using l that b s(6) by (auto simp: read_line_def Let_def)
  then show ?thesis
    using l frame s(3) same_stream_trans [OF s(2), of f'] by (auto simp: line_result_def)
qed

lemma fgets_loop_reads:
  assumes r: "read_contract r fd supply pat" "read_errors r fd broken"
  shows "io_fileno f = fd \<Longrightarrow> in_ok m f \<Longrightarrow> cell_ok m f ch \<Longrightarrow> line_ok m f ch p n \<Longrightarrow>
    \<exists>j g m' f' k'. fgets_loop True w r m ch p n f k = Some (p + j, g, m', f', k') \<and> line_result supply broken m f k ch p n j g m' f' k'"
proof (induction n arbitrary: m p f k)
  case 0
  then show ?case by (auto simp: line_result_def read_line_def whole_line_def)
next
  case (Suc n)
  obtain c m1 f1 k1 where c: "fgetc True w r m ch f k = Some (c, m1, f1, k1)" "took supply broken m f k ch c m1 f1 k1"
    using fgetc_takes [of r f, unfolded Suc.prems(1), OF r Suc.prems(2,3)] by blast
  show ?case
  proof (cases "c = EOF")
    case True
    have "line_result supply broken m f k ch p (Suc n) 0 False m1 f1 k1"
      using c(2) True by (auto simp: took_def line_result_def read_line_def whole_line_def)
    moreover have "fgets_loop True w r m ch p (Suc n) f k = Some (p + 0, False, m1, f1, k1)" using c(1) True by simp
    ultimately show ?thesis by blast
  next
    case False
    then obtain b :: byte where b: "c = uint b" using c(2) by (auto simp: took_def)
    note t = c(2) [unfolded b] and s = line_step [OF Suc.prems(4,3) c(2) [unfolded b]]
    show ?thesis
    proof (cases "b = 10")
      case True
      have "fgets_loop True w r m ch p (Suc n) f k = Some (p + 1, True, m1[p := b], f1, k1)"
        using c(1) False b True s(4,5) by (simp add: mem_simps)
      moreover have "line_result supply broken m f k ch p (Suc n) 1 True (m1[p := b]) f1 k1"
        using s True Suc.prems(4) block_Suc [of p "m1[p := b]" 0]
        by (auto simp: line_result_def read_line_def whole_line_def line_ok_def disjoint_ranges_def)
      ultimately show ?thesis by blast
    next
      case b10: False
      have "uint b \<noteq> 10" using b10 using uint_eq_iff [of b 10] by simp
      then have eq: "fgets_loop True w r m ch p (Suc n) f k = fgets_loop True w r (m1[p := b]) ch (p + 1) n f1 k1"
        using c(1) False b s(4,5) by (simp add: mem_simps)
      have fd1: "io_fileno f1 = fd" using Suc.prems(1) s(2) by (simp add: same_stream_def)
      obtain j g m' f' k' where ih: "fgets_loop True w r (m1[p := b]) ch (p + 1) n f1 k1 = Some (p + 1 + j, g, m', f', k')"
        "line_result supply broken (m1[p := b]) f1 k1 ch (p + 1) n j g m' f' k'"
        using Suc.IH [OF fd1 s(1,8,9)] by blast
      have "fgets_loop True w r m ch p (Suc n) f k = Some (p + Suc j, g, m', f', k')" using eq ih(1) by simp
      then show ?thesis using line_result_Cons [OF Suc.prems(4,3) t b10 ih(2)] by blast
    qed
  qed
qed

text \<open>C26: unless the kernel reports an error, \<^verbatim>\<open>fgets\<close> stores the input up to a newline or the size of the array and a terminator, leaves the rest, and returns null exactly if the input ended first, also when characters were stored.\<close>

theorem fgets_reads_line:
  assumes "read_contract r (io_fileno f) supply pat" "read_errors r (io_fileno f) broken" "in_ok m f" "cell_ok m f ch" "0 < n" "line_ok m f ch s (nat n)"
  shows "\<exists>q m' f' k'. fgets True w r m ch s n f k = Some (q, m', f', k') \<and> in_ok m' f' \<and>
    (io_error f' \<and> broken k' \<or> (let l = cut_line (nat (n - 1)) (held supply m f k) in
       block m' s (Suc (length l)) = l @ [0] \<and> held supply m f k = l @ held supply m' f' k' \<and>
       q = (if whole_line (nat (n - 1)) l then s else NULL)))"
proof -
  define c where "c = nat (n - 1)"
  have n: "nat n = Suc c" using assms(5) by (simp add: c_def)
  have s: "0 < s" "s + c < length m" "s + c < s_buf f \<or> s_buf f + in_size f \<le> s" "line_ok m f ch s c"
    using assms(6) by (auto simp: n line_ok_def mapped_def disjoint_ranges_def)
  obtain j g m1 f' k' where l: "fgets_loop True w r m ch s c f k = Some (s + j, g, m1, f', k')"
    "line_result supply broken m f k ch s c j g m1 f' k'"
    using fgets_loop_reads [OF assms(1,2) refl assms(3,4) s(4)] by blast
  note r = l(2) [unfolded line_result_def]
  define m' where "m' = m1[s + j := 0]"
  have buf: "s_buf f' = s_buf f" "bufsiz f' = bufsiz f" using r by (auto simp: same_stream_def)
  have "fgets True w r m ch s n f k = Some (if g then s else NULL, m', f', k')"
    using assms(5) l(1) s r by (simp add: fgets_def c_def [symmetric] m'_def mem_simps)
  moreover have "in_ok m' f'" using r by (auto simp: in_ok_def mapped_def m'_def)
  moreover have "held supply m' f' k' = held supply m1 f' k'"
    using r s(3) buf unfolding m'_def by (intro held_update) auto
  moreover have "block m' s (Suc j) = block m1 s j @ [0]"
    using r s block_Suc_last [of s j m'] block_update_out [of "s + j" s j m1 0] by (simp add: m'_def)
  ultimately show ?thesis
    using r by (auto simp: read_line_def Let_def c_def [symmetric])
qed

theorem fgets_reads_line_witness:
  "\<exists>q m' f' k'. fgets True slow_write slow_read (replicate 44 7) 36 37 5 in_stream ([97, 10, 98], 1) = Some (q, m', f', k') \<and>
    block m' 37 3 = [97, 10, 0] \<and> held fst m' f' k' = [98] \<and> q = 37"
proof -
  let ?m = "replicate 44 7 :: mem"
  have four: "nat (5 - 1) = Suc (Suc (Suc (Suc 0)))" by simp
  have line: "cut_line (nat (5 - 1)) (held fst ?m in_stream ([97, 10, 98], 1)) = [97, 10]"
    unfolding four by (simp add: held_def unread_def in_stream_def line_stream_def)
  have "in_ok ?m in_stream" "cell_ok ?m in_stream 36" "line_ok ?m in_stream 36 37 (nat 5)"
    by (auto simp: in_stream_def line_stream_def in_ok_def cell_ok_def line_ok_def mapped_def disjoint_ranges_def IO_UNGET_SLOP_def)
  from fgets_reads_line [OF slow_read_contract this(1,2) _ this(3), of slow_write "([97, 10, 98], 1)", unfolded line]
  show ?thesis
    by (auto simp: held_def unread_def in_stream_def line_stream_def whole_line_def numeral_3_eq_3)
qed

text \<open>The input after a byte was pushed back, and what is pushed back for \<^verbatim>\<open>EOF\<close>.\<close>

lemma ungetc_pushes:
  assumes "in_ok m f"
  shows "ungetc True c m f = (if s_data f = s_buf f then Some (- 1, m, f)
      else Some (c, m[s_data f - 1 := ucast c], f\<lparr>s_data := s_data f - 1, ibytes := ibytes f + 1\<rparr>))"
    "ungetc True c m f = Some (c, m', f') \<Longrightarrow> s_data f \<noteq> s_buf f \<Longrightarrow> in_ok m' f' \<and> held supply m' f' k = ucast c # held supply m f k"
proof -
  have d: "0 < s_buf f" "s_buf f \<le> s_data f" "s_data f + ibytes f \<le> length m" "s_buf f + in_size f \<le> length m"
    using assms by (auto simp: in_ok_def mapped_def)
  show eq: "ungetc True c m f = (if s_data f = s_buf f then Some (- 1, m, f)
      else Some (c, m[s_data f - 1 := ucast c], f\<lparr>s_data := s_data f - 1, ibytes := ibytes f + 1\<rparr>))"
    using assms d by (auto simp: ungetc_def ungetc_orig_def in_ok_def mem_simps)
  assume u: "ungetc True c m f = Some (c, m', f')" "s_data f \<noteq> s_buf f"
  have "block (m[s_data f - 1 := ucast c]) (s_data f - 1) (Suc (ibytes f)) = ucast c # unread m f"
    using u(2) d block_Suc [of "s_data f - 1" "m[s_data f - 1 := ucast c]" "ibytes f"] block_update_out [of "s_data f - 1" "s_data f" "ibytes f" m]
    by (simp add: unread_def)
  moreover have "in_ok (m[s_data f - 1 := ucast c]) (f\<lparr>s_data := s_data f - 1, ibytes := ibytes f + 1\<rparr>)"
    using assms u(2) d by (auto simp: in_ok_def mapped_def)
  ultimately show "in_ok m' f' \<and> held supply m' f' k = ucast c # held supply m f k"
    using u eq by (auto simp: held_def unread_def)
qed

section \<open>Formatted output to a stream\<close>

lemma pending_put:
  assumes "out_ok m f" "q + length xs \<le> length m" "disjoint_ranges (s_buf f) (bufsiz f) q (length xs)"
  shows "out_ok (put m q xs) f" "pending (put m q xs) f = pending m f"
proof -
  show "out_ok (put m q xs) f" using assms by (auto simp: out_ok_def mapped_def)
  show "pending (put m q xs) f = pending m f"
    using assms unfolding pending_def by (intro block_put_disjoint) (auto simp: out_ok_def mapped_def disjoint_ranges_def)
qed

text \<open>C25: formatted output to a buffered stream, unless the kernel reports an error: the first 32767 bytes of the output of the formatter follow what was written before, their number is returned, and the flags of the stream stay as they were; if the kernel reports an error a flag is set. In the library as it is configured, without buffers, these bytes are given to the kernel in one call whose result is returned.\<close>

theorem vfprintf_delivers:
  assumes w: "write_contract w (io_fileno f) sent pat" "write_errors w (io_fileno f) broken" and f: "out_ok m f" "settled m f"
    and x: "fmt str fs ap = Some xs" "length xs < 2 ^ 31"
    and buf: "mapped m buffer VFPRINTF_BUFFER" "disjoint_ranges (s_buf f) (bufsiz f) buffer VFPRINTF_BUFFER"
      "apart buffer VFPRINTF_BUFFER (Suc (length xs)) m format fs" "strs_apart buffer VFPRINTF_BUFFER (Suc (length xs)) m str"
  shows "(\<exists>n m' f' k'. vfprintf True w m buffer f format ap k = Some (n, m', f', k') \<and>
      (unat n = min 32767 (length xs) \<and> io_error f' = io_error f \<and> io_eof f' = io_eof f \<and> settled m' f' \<and>
         sent k' @ pending m' f' = sent k @ pending m f @ take 32767 xs \<or>
       failed f' \<and> broken k')) \<and>
    vfprintf False w m buffer f format ap k = (case w k (io_fileno f) (take 32767 xs) of (rv, k') \<Rightarrow>
      Some (case rv of IODone n \<Rightarrow> word_of_nat n | _ \<Rightarrow> - 1, put m buffer (take 32767 xs @ [0]), f, k'))"
proof -
  define ys where "ys = take 32767 xs"
  define m1 where "m1 = put m buffer (ys @ [0])"
  have B: "VFPRINTF_BUFFER = Suc 32767" by (simp add: VFPRINTF_BUFFER_def)
  have ys: "length ys = min 32767 (length xs)" by (simp add: ys_def min_def)
  have room: "0 < buffer" "buffer + Suc (length ys) \<le> length m" using buf(1) ys by (auto simp: B mapped_def)
  have print: "vsnprintf m buffer VFPRINTF_BUFFER format ap = Some (m1, word_of_nat (length xs))"
    using vsnprintf_fmt [OF x(1) buf(3,4)] mapped_mono [OF buf(1)] by (simp add: bounded_def B m1_def ys_def)
  have s: "sint (word_of_nat (length xs) :: 32 word) = int (length xs)"
    using x(2) by (simp add: signed_of_nat signed_take_bit_int_eq_self)
  have rv: "(if sint (word_of_nat (length xs) :: 32 word) > int VFPRINTF_BUFFER - 1 then word_of_nat (VFPRINTF_BUFFER - 1)
      else word_of_nat (length xs)) = (word_of_nat (length ys) :: 32 word)"
    unfolding s using ys by (auto simp: B min_def)
  have len: "unat (word_of_nat (length ys) :: 32 word) = length ys"
    using ys by (simp add: unsigned_of_nat take_bit_nat_eq_self)
  have m1: "out_ok m1 f" "pending m1 f = pending m f" "length m1 = length m"
    using pending_put [OF f(1), of buffer "ys @ [0]"] room buf(2) ys by (auto simp: m1_def B disjoint_ranges_def)
  have src: "mapped m1 buffer (length ys)" "disjoint_ranges (s_buf f) (bufsiz f) buffer (length ys)"
    using room buf(2) m1(3) ys by (auto simp: mapped_def B disjoint_ranges_def)
  have out: "block m1 buffer (length ys) = ys"
    using block_put_same [of buffer "ys @ [0]" m] room take_block [of "length ys" "Suc (length ys)" m1 buffer] by (simp add: m1_def)
  have "settled m1 f" using f(2) m1(2) by (simp add: settled_def)
  then obtain n m' f' k' where d: "fwrite_bytes True w m1 buffer (length ys) f k = Some (n, m', f', k')"
    "all_sent sent m1 f k ys n m' f' k' \<and> settled m' f' \<or> failed f' \<and> broken k'"
    using fwrite_works [OF w m1(1) _ src, of k] unfolding out by blast
  have eq: "vfprintf orig w m buffer f format ap k =
      do { (n, m, f, k) \<leftarrow> fwrite_bytes orig w m1 buffer (length ys) f k; Some (word_of_nat n, m, f, k) }" for orig
    using print by (simp add: vfprintf_def Let_def rv len) (simp add: s)
  have e32: "word_of_nat (2 ^ 64 - 1) = (- 1 :: 32 word)" by simp
  have "vfprintf True w m buffer f format ap k = Some (word_of_nat n, m', f', k')"
    using d(1) by (simp add: eq)
  moreover have "vfprintf False w m buffer f format ap k = (case w k (io_fileno f) ys of (rv, k') \<Rightarrow>
      Some (case rv of IODone n \<Rightarrow> word_of_nat n | _ \<Rightarrow> - 1, m1, f, k'))"
    using src(1) out e32 by (auto simp: eq fwrite_bytes_def fwrite_simple_def split: prod.split io_result.split)
  ultimately show ?thesis using d(2) len m1(2) ys unfolding m1_def [symmetric] ys_def [symmetric] by (auto simp: all_sent_def)
qed

theorem vfprintf_delivers_witness:
  "\<exists>n m' f' k'. vfprintf True slow_write ([7, 97, 0, 0, 0, 0, 0] @ replicate 32768 0) 7 (line_stream\<lparr>s_buf := 3\<rparr>) 1 [] ([], 1) =
      Some (n, m', f', k') \<and> unat n = 1 \<and> settled m' f' \<and> fst k' @ pending m' f' = [97]"
proof -
  let ?m = "[7, 97, 0, 0, 0, 0, 0] @ replicate 32768 0 :: mem" and ?f = "line_stream\<lparr>s_buf := 3\<rparr>"
  have len: "length ?m = 32775" by simp
  have f: "out_ok ?m ?f" "settled ?m ?f"
    by (simp_all add: line_stream_def out_ok_def mapped_def settled_def pending_def)
  have x: "fmt (\<lambda>_. None) [97] [] = Some [97]" "length [97 :: byte] < 2 ^ 31" by simp_all
  have buf: "mapped ?m 7 VFPRINTF_BUFFER" "disjoint_ranges (s_buf ?f) (bufsiz ?f) 7 VFPRINTF_BUFFER"
    "apart 7 VFPRINTF_BUFFER (Suc (length [97 :: byte])) ?m 1 [97]"
    "strs_apart 7 VFPRINTF_BUFFER (Suc (length [97 :: byte])) ?m (\<lambda>_. None)"
    by (simp_all add: mapped_def VFPRINTF_BUFFER_def disjoint_ranges_def line_stream_def apart_def strs_apart_def cstr_simps)
  from vfprintf_delivers [OF slow_write_contract f x buf, of "([], 1)"] show ?thesis
    by (auto simp: pending_def line_stream_def)
qed

end
