(* ===== verification/StreamList.thy ===== *)
theory StreamList
  imports Streams Alloc
begin

text \<open>
  Opening and closing streams: \<^verbatim>\<open>fopen.c\<close>, \<^verbatim>\<open>fdopen.c\<close>, \<^verbatim>\<open>fclose.c\<close> and the part of \<^verbatim>\<open>fflush.c\<close> that flushes all streams, in \<^verbatim>\<open>libc/src/stdio\<close>,
  and \<^verbatim>\<open>libc/src/isatty.c\<close>. The state maps the address of a stream to its record and holds the pointers of the doubly linked list
  of all streams, which is the ring of \<open>ChainRing\<close>. The allocator and the system calls are arguments.
\<close>

section \<open>Definitions\<close>

record stdio_state =
  headnode :: addr
  files :: "addr \<Rightarrow> stream"
  s_next :: "addr \<Rightarrow> addr"
  s_prev :: "addr \<Rightarrow> addr"

text \<open>The sizes of the two structures on a 64-bit machine, and the size of a buffer.\<close>

definition sizeof_FILE :: nat where "sizeof_FILE = 8"
definition sizeof_pvt :: nat where "sizeof_pvt = 56"
definition BUFSIZ :: nat where "BUFSIZ = 65536 div 4"

definition bufoffs :: nat where
  "bufoffs = (sizeof_pvt + 4 * 8 - 1) div 32 * 32"

definition isatty :: "int \<Rightarrow> bool" where
  "isatty fd \<longleftrightarrow> 0 \<le> fd \<and> fd \<le> 2"

definition fdopen_orig :: "('h \<Rightarrow> 64 word \<Rightarrow> addr \<times> 'h) \<Rightarrow> mem \<Rightarrow> 'h \<Rightarrow> stdio_state \<Rightarrow> int \<Rightarrow> (addr \<times> mem \<times> 'h \<times> stdio_state) option" where
  "fdopen_orig mal m h st fd = do {
     (f, m, h) \<leftarrow> zalloc mal m h (word_of_nat (bufoffs + BUFSIZ + IO_UNGET_SLOP));
     if f = NULL then Some (NULL, m, h, st)
     else do {
       let s = \<lparr>io_fileno = fd, io_eof = False, io_error = False, s_buf = f + bufoffs, s_data = f + bufoffs, ibytes = 0, obytes = 0,
         bufsiz = BUFSIZ, buf_mode = (if isatty fd then IOLBF else IOFBF)\<rparr>;
       let first = s_next st (headnode st);
       Some (f, m, h, st\<lparr>files := (files st)(f := s), s_next := (s_next st)(f := first, headnode st := f),
         s_prev := (s_prev st)(f := headnode st, first := f)\<rparr>)
     }
   }"

text \<open>The unbuffered version sets the descriptor only; \<open>old\<close> is what the block held before.\<close>

definition fdopen_simple :: "('h \<Rightarrow> 64 word \<Rightarrow> addr \<times> 'h) \<Rightarrow> 'h \<Rightarrow> stream \<Rightarrow> stdio_state \<Rightarrow> int \<Rightarrow> addr \<times> 'h \<times> stdio_state" where
  "fdopen_simple mal h old st fd = (let (f, h) = mal h (word_of_nat sizeof_FILE) in
     if f = NULL then (NULL, h, st) else (f, h, st\<lparr>files := (files st)(f := old\<lparr>io_fileno := fd\<rparr>)\<rparr>))"

definition fdopen :: "bool \<Rightarrow> ('h \<Rightarrow> 64 word \<Rightarrow> addr \<times> 'h) \<Rightarrow> mem \<Rightarrow> 'h \<Rightarrow> stream \<Rightarrow> stdio_state \<Rightarrow> int \<Rightarrow>
    (addr \<times> mem \<times> 'h \<times> stdio_state) option" where
  "fdopen orig mal m h old st fd =
     (if orig then fdopen_orig mal m h st fd
      else case fdopen_simple mal h old st fd of (f, h, st) \<Rightarrow> Some (f, m, h, st))"

definition O_RDONLY :: "32 word" where "O_RDONLY = 0"
definition O_WRONLY :: "32 word" where "O_WRONLY = 1"
definition O_RDWR :: "32 word" where "O_RDWR = 2"
definition O_CREAT :: "32 word" where "O_CREAT = 0x40"
definition O_EXCL :: "32 word" where "O_EXCL = 0x80"
definition O_TRUNC :: "32 word" where "O_TRUNC = 0x200"
definition O_APPEND :: "32 word" where "O_APPEND = 0x400"
definition O_CLOEXEC :: "32 word" where "O_CLOEXEC = 0x80000"

unbundle bit_operations_syntax

text \<open>One character of the mode changes the three groups of flags.\<close>

definition mode_char :: "byte \<Rightarrow> 32 word \<times> 32 word \<times> 32 word \<Rightarrow> 32 word \<times> 32 word \<times> 32 word" where
  "mode_char c fl = (case fl of (rwflags, crflags, eflags) \<Rightarrow>
     if c = 114 then (O_RDONLY, 0, eflags)
     else if c = 119 then (O_WRONLY, O_CREAT OR O_TRUNC, eflags)
     else if c = 97 then (O_WRONLY, O_CREAT OR O_APPEND, eflags)
     else if c = 101 then (rwflags, crflags, eflags OR O_CLOEXEC)
     else if c = 120 then (rwflags, crflags, eflags OR O_EXCL)
     else if c = 43 then (O_RDWR, crflags, eflags)
     else (rwflags, crflags, eflags))"

function parse_mode_loop :: "mem \<Rightarrow> addr \<Rightarrow> 32 word \<times> 32 word \<times> 32 word \<Rightarrow> 32 word option" where
  "parse_mode_loop m mode fl =
     (case rd m mode of
        None \<Rightarrow> None
      | Some c \<Rightarrow>
          (if c = 0 then (case fl of (rwflags, crflags, eflags) \<Rightarrow> Some (rwflags OR crflags OR eflags))
           else parse_mode_loop m (mode + 1) (mode_char c fl)))"
  by pat_completeness auto
termination
  by (relation "measure (\<lambda>(m, mode, fl). length m - mode)") auto

definition parse_open_mode :: "mem \<Rightarrow> addr \<Rightarrow> 32 word option" where
  "parse_open_mode m mode = parse_mode_loop m mode (O_RDONLY, 0, 0)"

definition fopen :: "bool \<Rightarrow> ('h \<Rightarrow> 64 word \<Rightarrow> addr \<times> 'h) \<Rightarrow> ('k \<Rightarrow> mem \<Rightarrow> addr \<Rightarrow> 32 word \<Rightarrow> int \<times> 'k) \<Rightarrow> ('k \<Rightarrow> int \<Rightarrow> int \<times> 'k) \<Rightarrow>
    mem \<Rightarrow> 'h \<Rightarrow> stream \<Rightarrow> stdio_state \<Rightarrow> 'k \<Rightarrow> addr \<Rightarrow> addr \<Rightarrow> (addr \<times> mem \<times> 'h \<times> stdio_state \<times> 'k) option" where
  "fopen orig mal op cl m h old st k file mode = do {
     flags \<leftarrow> parse_open_mode m mode;
     let (fd, k) = op k m file flags;
     if fd < 0 then Some (NULL, m, h, st, k)
     else do {
       (f, m, h, st) \<leftarrow> fdopen orig mal m h old st fd;
       Some (f, m, h, st, if f = NULL then snd (cl k fd) else k)
     }
   }"

text \<open>The three standard streams of the buffered version. In the other version the last assignment writes behind the block of the stream.\<close>

definition libc_init_stdio :: "('h \<Rightarrow> 64 word \<Rightarrow> addr \<times> 'h) \<Rightarrow> mem \<Rightarrow> 'h \<Rightarrow> stdio_state \<Rightarrow> ((addr \<times> addr \<times> addr) \<times> mem \<times> 'h \<times> stdio_state) option" where
  "libc_init_stdio mal m h st = do {
     (stdin, m, h, st) \<leftarrow> fdopen_orig mal m h st 0;
     (stdout, m, h, st) \<leftarrow> fdopen_orig mal m h st 1;
     (stderr, m, h, st) \<leftarrow> fdopen_orig mal m h st 2;
     if stderr = NULL then None
     else Some ((stdin, stdout, stderr), m, h, st\<lparr>files := (files st)(stderr := (files st stderr)\<lparr>buf_mode := IONBF\<rparr>)\<rparr>)
   }"

partial_function (option) flush_all :: "'k sys_write \<Rightarrow> mem \<Rightarrow> stdio_state \<Rightarrow> addr \<Rightarrow> int \<Rightarrow> 'k \<Rightarrow> (int \<times> stdio_state \<times> 'k) option" where
  "flush_all w m st f err k =
     (if f = headnode st then Some (err, st, k)
      else if obytes (files st f) \<noteq> 0 then do {
        (rv, s, k) \<leftarrow> fflush_pvt w m (files st f) k;
        flush_all w m (st\<lparr>files := (files st)(f := s)\<rparr>) (s_next st f) (err OR rv) k
      }
      else flush_all w m st (s_next st f) err k)"

definition fflush :: "bool \<Rightarrow> 'k sys_write \<Rightarrow> mem \<Rightarrow> stdio_state \<Rightarrow> addr \<Rightarrow> 'k \<Rightarrow> (int \<times> stdio_state \<times> 'k) option" where
  "fflush orig w m st f k =
     (if \<not> orig then Some (0, st, k)
      else if f \<noteq> NULL then do {
        (rv, s, k) \<leftarrow> fflush_pvt w m (files st f) k;
        Some (rv, st\<lparr>files := (files st)(f := s)\<rparr>, k)
      }
      else flush_all w m st (s_next st (headnode st)) 0 k)"

definition fclose_orig :: "('h \<Rightarrow> addr \<Rightarrow> 'h) \<Rightarrow> 'k sys_write \<Rightarrow> ('k \<Rightarrow> int \<Rightarrow> int \<times> 'k) \<Rightarrow> mem \<Rightarrow> 'h \<Rightarrow> stdio_state \<Rightarrow> addr \<Rightarrow> 'k \<Rightarrow>
    (int \<times> 'h \<times> stdio_state \<times> 'k) option" where
  "fclose_orig fre w cl m h st f k = do {
     (_, st, k) \<leftarrow> fflush True w m st f k;
     let (rv, k) = cl k (io_fileno (files st f));
     let st = st\<lparr>s_prev := (s_prev st)(s_next st f := s_prev st f)\<rparr>;
     let st = st\<lparr>s_next := (s_next st)(s_prev st f := s_next st f)\<rparr>;
     Some (rv, fre h f, st, k)
   }"

definition fclose_simple :: "('k \<Rightarrow> int \<Rightarrow> int \<times> 'k) \<Rightarrow> stdio_state \<Rightarrow> addr \<Rightarrow> 'k \<Rightarrow> int \<times> 'k" where
  "fclose_simple cl st f k = cl k (io_fileno (files st f))"

definition fclose :: "bool \<Rightarrow> ('h \<Rightarrow> addr \<Rightarrow> 'h) \<Rightarrow> 'k sys_write \<Rightarrow> ('k \<Rightarrow> int \<Rightarrow> int \<times> 'k) \<Rightarrow> mem \<Rightarrow> 'h \<Rightarrow> stdio_state \<Rightarrow> addr \<Rightarrow> 'k \<Rightarrow>
    (int \<times> 'h \<times> stdio_state \<times> 'k) option" where
  "fclose orig fre w cl m h st f k =
     (if orig then fclose_orig fre w cl m h st f k
      else case fclose_simple cl st f k of (rv, k) \<Rightarrow> Some (rv, h, st, k))"

section \<open>Flushing all streams\<close>

text \<open>The list of all streams, and that their buffers can be flushed.\<close>

definition streams_ok :: "mem \<Rightarrow> stdio_state \<Rightarrow> addr list \<Rightarrow> bool" where
  "streams_ok m st fs \<longleftrightarrow> ring (s_next st) (s_prev st) (headnode st) fs \<and> list_all (\<lambda>f. out_ok m (files st f)) fs"

lemma pending_empty: "pending m (f\<lparr>obytes := 0\<rparr>) = []"
  by (simp add: pending_def)

lemma flush_result:
  assumes "write_contract w (io_fileno f) sent pat" "out_ok m f"
  shows "\<exists>rv f' k'. fflush_pvt w m f k = Some (rv, f', k') \<and> out_ok m f' \<and> same_stream f f' \<and>
    (rv = 0 \<and> f' = f\<lparr>obytes := 0\<rparr> \<and> sent k' = sent k @ pending m f \<or> rv \<noteq> 0 \<and> failed f')"
  using fflush_sends [OF assms, of k] by (metis (full_types))

text \<open>The kernel as all streams of a list see it.\<close>

definition kernel_ok :: "'k sys_write \<Rightarrow> stdio_state \<Rightarrow> addr list \<Rightarrow> ('k \<Rightarrow> byte list) \<Rightarrow> ('k \<Rightarrow> nat) \<Rightarrow> ('k \<Rightarrow> bool) \<Rightarrow> bool" where
  "kernel_ok w st fs sent pat broken \<longleftrightarrow>
     (\<forall>f \<in> set fs. write_contract w (io_fileno (files st f)) sent pat \<and> write_errors w (io_fileno (files st f)) broken)"

lemma flush_all_sends:
  shows "kernel_ok w st fs sent pat broken \<Longrightarrow> streams_ok m st (us @ fs) \<Longrightarrow>
    \<exists>err' st' k'. flush_all w m st (behind (headnode st) fs) err k = Some (err', st', k') \<and> streams_ok m st' (us @ fs) \<and>
      headnode st' = headnode st \<and> (broken k \<longrightarrow> broken k') \<and> (\<forall>f. f \<notin> set fs \<longrightarrow> files st' f = files st f) \<and>
      (if err' = 0 then err = 0 \<and> list_all (\<lambda>f. pending m (files st' f) = []) fs \<and>
         sent k' = sent k @ concat (map (\<lambda>f. pending m (files st f)) fs)
       else err \<noteq> 0 \<or> broken k' \<and> list_ex (\<lambda>f. failed (files st' f)) fs)"
proof (induction fs arbitrary: us st err k)
  case Nil
  have "flush_all w m st (headnode st) err k = Some (err, st, k)" by (subst flush_all.simps) simp
  then show ?case using Nil by simp
next
  case (Cons f fs)
  then have r: "ring (s_next st) (s_prev st) (headnode st) (us @ f # fs)" and ok: "out_ok m (files st f)"
    by (auto simp: streams_ok_def)
  have f: "f \<noteq> headnode st" "s_next st f = behind (headnode st) fs" "f \<notin> set fs" "f \<notin> set us"
    using ring_next [OF r] ring_distinct [OF r] by auto
  have w: "write_contract w (io_fileno (files st f)) sent pat" "write_errors w (io_fileno (files st f)) broken" "kernel_ok w st fs sent pat broken"
    using Cons.prems(1) by (auto simp: kernel_ok_def)
  show ?case
  proof (cases "obytes (files st f) = 0")
    case True
    then have "pending m (files st f) = []" by (simp add: pending_def)
    moreover have "flush_all w m st f err k = flush_all w m st (behind (headnode st) fs) err k"
      using True f by (subst flush_all.simps) simp
    ultimately show ?thesis using Cons.IH [OF w(3), of "us @ [f]" err k] Cons.prems(2) f by fastforce
  next
    case False
    obtain rv s k1 where s: "fflush_pvt w m (files st f) k = Some (rv, s, k1)" "out_ok m s"
      "rv = 0 \<and> s = (files st f)\<lparr>obytes := 0\<rparr> \<and> sent k1 = sent k @ pending m (files st f) \<or> rv \<noteq> 0 \<and> failed s"
      using flush_result [OF w(1) ok, of k] by blast
    have h: "honest broken (files st f) k (rv \<noteq> 0) s k1"
      using flush_loop_errors [OF s(1) [unfolded fflush_pvt_def] w(2)] by simp
    define st1 where "st1 = st\<lparr>files := (files st)(f := s)\<rparr>"
    have st1: "streams_ok m st1 ((us @ [f]) @ fs)" "headnode st1 = headnode st" "files st1 f = s" "\<And>g. g \<noteq> f \<Longrightarrow> files st1 g = files st g"
      using Cons.prems(2) s(2) by (auto simp: streams_ok_def st1_def list_all_iff)
    have w1: "kernel_ok w st1 fs sent pat broken" using w(3) f(3) by (auto simp: kernel_ok_def st1_def)
    obtain err' st' k' where ih: "flush_all w m st1 (behind (headnode st) fs) (err OR rv) k1 = Some (err', st', k')"
      "streams_ok m st' (us @ f # fs)" "headnode st' = headnode st" "broken k1 \<longrightarrow> broken k'" "\<And>g. g \<notin> set fs \<Longrightarrow> files st' g = files st1 g"
      "if err' = 0 then err OR rv = 0 \<and> list_all (\<lambda>f. pending m (files st' f) = []) fs \<and>
         sent k' = sent k1 @ concat (map (\<lambda>f. pending m (files st1 f)) fs)
       else err OR rv \<noteq> 0 \<or> broken k' \<and> list_ex (\<lambda>f. failed (files st' f)) fs"
      using Cons.IH [OF w1 st1(1), of "err OR rv" k1] unfolding st1(2) by auto
    have eq: "flush_all w m st f err k = Some (err', st', k')"
      using False f s(1) ih(1) by (subst flush_all.simps) (simp add: st1_def)
    have others: "map (\<lambda>f. pending m (files st1 f)) fs = map (\<lambda>f. pending m (files st f)) fs"
      using f(3) by (auto simp: st1_def)
    have g: "files st' f = s" using ih(5) f(3) st1(3) by simp
    have "if err' = 0 then err = 0 \<and> list_all (\<lambda>f. pending m (files st' f) = []) (f # fs) \<and>
         sent k' = sent k @ concat (map (\<lambda>f. pending m (files st f)) (f # fs))
       else err \<noteq> 0 \<or> broken k' \<and> list_ex (\<lambda>f. failed (files st' f)) (f # fs)"
      using ih(6) [unfolded others] ih(4) h s(3) g by (cases "err' = 0") (auto simp: or_eq_0_iff pending_empty honest_def)
    then show ?thesis using eq ih(2-5) st1(4) h by (auto simp: honest_def)
  qed
qed

text \<open>C23: \<^verbatim>\<open>fflush\<close> of the null pointer visits every stream of the list once and returns; it returns 0 only if all buffers are empty and the kernel has received their contents in the order of the list, and otherwise the kernel has reported an error and a stream has a flag set.\<close>

theorem fflush_all_streams:
  assumes "kernel_ok w st fs sent pat broken" "streams_ok m st fs"
  shows "\<exists>err st' k'. fflush True w m st NULL k = Some (err, st', k') \<and> streams_ok m st' fs \<and>
    (if err = 0 then list_all (\<lambda>f. pending m (files st' f) = []) fs \<and>
       sent k' = sent k @ concat (map (\<lambda>f. pending m (files st f)) fs)
     else broken k' \<and> list_ex (\<lambda>f. failed (files st' f)) fs)"
proof -
  have "s_next st (headnode st) = behind (headnode st) fs"
    using assms(2) ring_first by (auto simp: streams_ok_def)
  then have "fflush True w m st NULL k = flush_all w m st (behind (headnode st) fs) 0 k"
    by (simp add: fflush_def)
  moreover obtain err st' k' where "flush_all w m st (behind (headnode st) fs) 0 k = Some (err, st', k')" "streams_ok m st' fs"
    "if err = 0 then (0 :: int) = 0 \<and> list_all (\<lambda>f. pending m (files st' f) = []) fs \<and>
       sent k' = sent k @ concat (map (\<lambda>f. pending m (files st f)) fs)
     else (0 :: int) \<noteq> 0 \<or> broken k' \<and> list_ex (\<lambda>f. failed (files st' f)) fs"
    using flush_all_sends [OF assms(1), of m "[]" 0 k] assms(2) unfolding append_Nil by blast
  ultimately show ?thesis
    by (cases "err = 0") auto
qed

theorem fflush_all_streams_witness:
  "\<exists>st' k'. fflush True slow_write [7, 97, 98, 0, 0, 99, 0, 0, 0]
      \<lparr>headnode = 20, files = (\<lambda>f. if f = 30 then line_stream\<lparr>obytes := 2\<rparr> else line_stream\<lparr>s_buf := 5, obytes := 1\<rparr>),
        s_next = (\<lambda>f. if f = 20 then 30 else if f = 30 then 40 else 20), s_prev = (\<lambda>f. if f = 20 then 40 else if f = 30 then 20 else 30)\<rparr>
      NULL ([], 2) = Some (0, st', k') \<and> fst k' = [97, 98, 99]"
proof -
  let ?m = "[7, 97, 98, 0, 0, 99, 0, 0, 0] :: mem"
  define st where "st = \<lparr>headnode = 20, files = (\<lambda>f. if f = 30 then line_stream\<lparr>obytes := 2\<rparr> else line_stream\<lparr>s_buf := 5, obytes := 1\<rparr>),
        s_next = (\<lambda>f. if f = 20 then 30 else if f = 30 then 40 else 20), s_prev = (\<lambda>f. if f = 20 then 40 else if f = 30 then 20 else 30)\<rparr>"
  have "streams_ok ?m st [30, 40]"
    by (simp add: streams_ok_def ring_def out_ok_def mapped_def line_stream_def st_def)
  moreover have "kernel_ok slow_write st [30, 40] fst snd (\<lambda>_. False)"
    by (simp add: kernel_ok_def slow_write_contract)
  moreover have "concat (map (\<lambda>f. pending ?m (files st f)) [30, 40]) = [97, 98, 99]"
    by (simp add: pending_def block_def line_stream_def st_def numeral_2_eq_2)
  ultimately show ?thesis
    using fflush_all_streams [of slow_write st "[30, 40]" fst snd "\<lambda>_. False" ?m "([], 2)"] unfolding st_def [symmetric]
    by (auto split: if_splits)
qed

section \<open>Opening and closing\<close>

lemma bufoffs_eq: "bufoffs = 64" "BUFSIZ = 16384"
  by (simp_all add: bufoffs_def sizeof_pvt_def BUFSIZ_def)

text \<open>A new stream is the first of the list, with an empty buffer that can be written and read.\<close>

definition opened :: "mem \<Rightarrow> stdio_state \<Rightarrow> addr \<Rightarrow> int \<Rightarrow> bool" where
  "opened m st f fd \<longleftrightarrow> out_ok m (files st f) \<and> in_ok m (files st f) \<and> settled m (files st f) \<and> \<not> failed (files st f) \<and>
     io_fileno (files st f) = fd \<and> pending m (files st f) = [] \<and> unread m (files st f) = []"

lemma new_stream_ok:
  assumes "block m f 16480 = replicate 16480 0" "f \<noteq> NULL" "files st f = \<lparr>io_fileno = fd, io_eof = False, io_error = False,
      s_buf = f + bufoffs, s_data = f + bufoffs, ibytes = 0, obytes = 0, bufsiz = BUFSIZ, buf_mode = bm\<rparr>"
  shows "opened m st f fd"
proof -
  have "length (block m f 16480) = 16480" using assms(1) by simp
  then have "f + 16480 \<le> length m" by (simp add: block_def split: if_splits)
  then show ?thesis
    using assms(2,3) by (simp add: opened_def out_ok_def in_ok_def settled_def failed_def pending_def unread_def mapped_def bufoffs_eq
        IO_UNGET_SLOP_def)
qed

lemma frame_stream:
  assumes "frame U m m'" "out_ok m f" "bytes_at (s_buf f) (bufsiz f) \<subseteq> U"
  shows "out_ok m' f" "pending m' f = pending m f"
proof -
  show "out_ok m' f" using assms(1,2) by (auto simp: frame_def out_ok_def mapped_def)
  show "pending m' f = pending m f"
    using assms unfolding pending_def
    by (intro block_eqI) (auto simp: frame_def out_ok_def mapped_def bytes_at_def subset_iff)
qed

context allocator
begin

lemma fdopen_opens:
  assumes h: "inv h" "ok h (word_of_nat (bufoffs + BUFSIZ + IO_UNGET_SLOP))" "covers h m"
    and st: "streams_ok m st fs" "set (headnode st # fs) \<subseteq> used h"
      "\<forall>f\<in>set fs. bytes_at (s_buf (files st f)) (bufsiz (files st f)) \<subseteq> used h"
  shows "\<exists>f m' h' st'. fdopen True mal m h old st fd = Some (f, m', h', st') \<and> inv h' \<and>
    (if f = NULL then mal h (word_of_nat (bufoffs + BUFSIZ + IO_UNGET_SLOP)) = (NULL, h') \<and> m' = m \<and> st' = st
     else streams_ok m' st' (f # fs) \<and> opened m' st' f fd \<and>
      bytes_at f 16480 \<inter> used h = {} \<and> bytes_at f 16480 \<subseteq> used h' \<and>
      (\<forall>g\<in>set fs. files st' g = files st g \<and> pending m' (files st' g) = pending m (files st g)))"
proof -
  obtain f m' h' where z: "zalloc mal m h (word_of_nat (bufoffs + BUFSIZ + IO_UNGET_SLOP)) = Some (f, m', h')" "inv h'" "frame (used h) m m'"
    "f \<noteq> NULL \<Longrightarrow> bytes_at f 16480 \<inter> used h = {} \<and> bytes_at f 16480 \<subseteq> used h' \<and> block m' f 16480 = replicate 16480 0"
    using zalloc_zeroed [OF h] by (auto simp: bufoffs_eq IO_UNGET_SLOP_def)
  show ?thesis
  proof (cases "f = NULL")
    case True
    then have "mal h (word_of_nat (bufoffs + BUFSIZ + IO_UNGET_SLOP)) = (NULL, h') \<and> m' = m"
      using z(1) by (auto simp: zalloc_def split: prod.splits if_splits bind_splits)
    then show ?thesis using True z by (simp add: fdopen_def fdopen_orig_def)
  next
    case False
    have "f \<in> bytes_at f 16480" by (simp add: bytes_at_def)
    then have new: "f \<notin> set (headnode st # fs)" using z(4) [OF False] st(2) by blast
    have r: "ring (s_next st) (s_prev st) (headnode st) ([] @ fs)" and old: "\<And>g. g \<in> set fs \<Longrightarrow> out_ok m (files st g)"
      using st(1) by (auto simp: streams_ok_def list_all_iff)
    define st' where "st' = st\<lparr>files := (files st)(f := \<lparr>io_fileno = fd, io_eof = False, io_error = False, s_buf = f + bufoffs,
        s_data = f + bufoffs, ibytes = 0, obytes = 0, bufsiz = BUFSIZ, buf_mode = (if isatty fd then IOLBF else IOFBF)\<rparr>),
      s_next := (s_next st)(f := s_next st (headnode st), headnode st := f),
      s_prev := (s_prev st)(f := headnode st, s_next st (headnode st) := f)\<rparr>"
    have eq: "fdopen True mal m h old st fd = Some (f, m', h', st')"
      using z(1) False by (simp add: fdopen_def fdopen_orig_def st'_def Let_def)
    have o: "opened m' st' f fd"
      using z(4) [OF False] False by (intro new_stream_ok) (auto simp: st'_def)
    have g: "files st' g = files st g" "out_ok m' (files st g)" "pending m' (files st g) = pending m (files st g)" if "g \<in> set fs" for g
      using that new frame_stream [OF z(3) old [OF that]] st(3) by (auto simp: st'_def)
    have "ring (s_next st') (s_prev st') (headnode st') (f # fs)"
      using ring_insert [OF r, of f] new ring_first [OF r] by (simp add: st'_def)
    then have "streams_ok m' st' (f # fs)"
      using o g by (auto simp: streams_ok_def list_all_iff opened_def)
    then show ?thesis using eq z(2) z(4) [OF False] o g False by auto
  qed
qed
end



text \<open>Closing a stream hands the rest of its buffer to the kernel, or sets a flag that nobody can read any more, and takes it out of the list.\<close>

lemma fclose_removes:
  assumes w: "write_contract w (io_fileno (files st f)) sent pat" and st: "streams_ok m st (us @ f # vs)" "f \<noteq> NULL"
    and cl: "\<And>k fd. sent (snd (cl k fd)) = sent k"
  shows "\<exists>rv st' k'. fclose True fre w cl m h st f k = Some (rv, fre h f, st', k') \<and> streams_ok m st' (us @ vs) \<and>
    (failed (files st' f) \<or> sent k' = sent k @ pending m (files st f))"
proof -
  have r: "ring (s_next st) (s_prev st) (headnode st) (us @ f # vs)" and ok: "out_ok m (files st f)"
    using st(1) by (auto simp: streams_ok_def)
  obtain rv s k1 where s: "fflush_pvt w m (files st f) k = Some (rv, s, k1)" "out_ok m s"
    "sent k1 = sent k @ pending m (files st f) \<or> failed s"
    using flush_result [OF w ok, of k] by blast
  have rem: "s_prev st f = before (headnode st) us" "s_next st f = behind (headnode st) vs"
    "ring ((s_next st)(before (headnode st) us := behind (headnode st) vs))
      ((s_prev st)(behind (headnode st) vs := before (headnode st) us)) (headnode st) (us @ vs)"
    using ring_remove [OF r] by auto
  have f: "f \<noteq> headnode st" "f \<notin> set us" "f \<notin> set vs" using ring_distinct [OF r] by auto
  have ne: "behind (headnode st) vs \<noteq> f" using behind_in [where h = "headnode st" and vs = vs] f by auto
  define st' where "st' = st\<lparr>files := (files st)(f := s), s_prev := (s_prev st)(s_next st f := s_prev st f),
    s_next := (s_next st)(s_prev st f := s_next st f)\<rparr>"
  obtain rc k2 where c: "cl k1 (io_fileno s) = (rc, k2)" by (cases "cl k1 (io_fileno s)")
  have "fclose True fre w cl m h st f k = Some (rc, fre h f, st', k2)"
    using s(1) st(2) c ne rem(2) by (simp add: fclose_def fclose_orig_def fflush_def st'_def Let_def)
  moreover have "streams_ok m st' (us @ vs)"
    using st(1) s(2) rem f by (auto simp: streams_ok_def st'_def list_all_iff)
  moreover have "sent k2 = sent k1" using cl [of k1 "io_fileno s"] c by simp
  ultimately show ?thesis using s(3) by (auto simp: st'_def)
qed

text \<open>The flags of the usual modes.\<close>

lemma open_modes:
  "cstr m p [114] \<Longrightarrow> parse_open_mode m p = Some O_RDONLY"
  "cstr m p [119] \<Longrightarrow> parse_open_mode m p = Some (O_WRONLY OR O_CREAT OR O_TRUNC)"
  "cstr m p [97] \<Longrightarrow> parse_open_mode m p = Some (O_WRONLY OR O_CREAT OR O_APPEND)"
  "cstr m p [114, 43] \<Longrightarrow> parse_open_mode m p = Some O_RDWR"
  "cstr m p [119, 43] \<Longrightarrow> parse_open_mode m p = Some (O_RDWR OR O_CREAT OR O_TRUNC)"
  "cstr m p [97, 43] \<Longrightarrow> parse_open_mode m p = Some (O_RDWR OR O_CREAT OR O_APPEND)"
  by (auto simp: parse_open_mode_def cstr_simps mode_char_def parse_mode_loop.simps mem_simps O_RDONLY_def)

end
