(* ===== verification/Spec2Isabelle.thy ===== *)
theory Spec2Isabelle
  imports CPrelude MemFuns Ctype StrFuns Libgcc Strtox Alloc ChainRing Arena ArenaFree Adler BitOutput CodeLens Crc32
    CrcProps CrcTables Environ Fnmatch Getopt HuffCodes Inet Intervals Printf Rand48 SortSearch Sscanf StreamList
    Streams
begin

text \<open>
  POET explores the executions of concurrent C programs. The repository holds the explorer, a Haskell program in \<^verbatim>\<open>src/src\<close>, and the C
  library that the analysed programs are linked with, \<^verbatim>\<open>src/libc\<close>, a modified klibc. This development models most of the logic of the
  C library, function by function, and the interval domain of the explorer. File names below are relative to \<^verbatim>\<open>src\<close>.

  \<^bold>\<open>Conventions.\<close> \<^verbatim>\<open>CPrelude\<close> holds the memory model. The address space is one list of bytes, an address is a natural number, and the
  null pointer is 0. A function of the C code becomes a function that takes the memory and returns the new memory with the C
  result, as an option: \<open>None\<close> is an invalid access, a division by zero, a failed assertion, undefined behaviour, or a loop that does not
  end. A loop is a recursive function on its variables; where it may run forever, or may overwrite what it reads, it is a partial function, and the theorems
  about it show that it returns, or for which arguments it does not. No loop is cut off by fuel. Machine integers whose wrap-around can be observed are words of their width;
  the negation of a signed integer wraps around too, also in the one case where the C standard leaves it undefined. Static variables and
  parameters of type \<^verbatim>\<open>char **\<close> are passed and returned. Configuration macros and code outside the repository (the kernel, the comparison function of a
  sort, the constants of the analysed language) are arguments, and what is needed of them is a hypothesis of the theorem.
  \<open>ring\<close> in \<^verbatim>\<open>ChainRing\<close> is the circular list with a head node that the arena and the list of streams use.

  \<^bold>\<open>Memory and strings.\<close> \<^verbatim>\<open>MemFuns\<close> (\<^verbatim>\<open>libc/src/mem*.c\<close>) shows each block function equal to an operation on blocks; the locale
  \<open>block_copy\<close> is the contract of \<^verbatim>\<open>memcpy\<close> and \<^verbatim>\<open>memmove\<close>. \<^verbatim>\<open>Ctype\<close> is the class table of \<^verbatim>\<open>libc/src/ctypes.c\<close>, \<^verbatim>\<open>StrFuns\<close> the
  string functions \<^verbatim>\<open>libc/src/str*.c\<close>, \<^verbatim>\<open>Strtox\<close> the readers of integers and times. \<^verbatim>\<open>Libgcc\<close> holds the division, shift and bit
  routines of \<^verbatim>\<open>libc/src/libgcc\<close>; the locale \<open>unsigned_division\<close> carries the signed routines for both widths.

  \<^bold>\<open>Allocation.\<close> \<^verbatim>\<open>Alloc\<close> models the configured bump allocator of \<^verbatim>\<open>libc/src/malloc.c\<close> and \<^verbatim>\<open>libc/src/realloc.c\<close> and its clients; the locale
  \<open>allocator\<close> says that a block is mapped, apart from what is in use, and in use afterwards, and the clients are verified for every allocator. \<^verbatim>\<open>Arena\<close> and
  \<^verbatim>\<open>ArenaFree\<close> model the other allocator, with the two chains through the block headers: the invariant is that the arena list is sorted, that its blocks are
  disjoint and that the free list is exactly the free blocks, and it is kept by allocation, freeing with merging and the return of pages. Both allocators compute sizes without overflow checks; the
  theorems on them are for requests that do not wrap around, and \<open>malloc_static_wraps\<close> and \<open>arena_request_wraps\<close> show what other requests do.

  \<^bold>\<open>Formatted text.\<close> \<^verbatim>\<open>Printf\<close> models the state machine of \<^verbatim>\<open>libc/src/vsnprintf.c\<close> and shows that it implements a formatter on byte strings; numbers
  printed are read back by \<^verbatim>\<open>Strtox\<close>. \<^verbatim>\<open>Sscanf\<close> is \<^verbatim>\<open>libc/src/vsscanf.c\<close>, and \<^verbatim>\<open>Inet\<close> the internet addresses of \<^verbatim>\<open>libc/src/inet\<close> on top of both.

  \<^bold>\<open>Streams.\<close> \<^verbatim>\<open>Streams\<close> models \<^verbatim>\<open>libc/src/stdio\<close> and the functions on top of it, in the buffered and the configured unbuffered version. \<^verbatim>\<open>read\<close>, \<^verbatim>\<open>write\<close> and
  \<^verbatim>\<open>lseek\<close> act on an abstract kernel; the contracts of the first two, for one descriptor, are \<open>read_contract\<close> and \<open>write_contract\<close>, and
  \<open>read_errors\<close> and \<open>write_errors\<close> say which states of the kernel come after an error it reported. The theorems relate what the kernel received or
  holds, with the buffer, to what the program wrote or read, and show that an operation goes wrong only after such an error. \<^verbatim>\<open>StreamList\<close> adds opening, closing and flushing all streams.

  \<^bold>\<open>Other services.\<close> \<^verbatim>\<open>SortSearch\<close> is the comb sort and the binary search, for every comparison function with the contract
  \<open>comparator\<close>. \<^verbatim>\<open>Environ\<close> holds the environment variables, with the locale \<open>heap_provider\<close> that extends \<open>allocator\<close>; \<^verbatim>\<open>Getopt\<close> the command line
  options, refined to a grammar of events; \<^verbatim>\<open>Fnmatch\<close> the file name patterns, shown to decide the language of a pattern; \<^verbatim>\<open>Rand48\<close> the 48-bit generator.

  \<^bold>\<open>zlib.\<close> \<^verbatim>\<open>CrcTables\<close>, \<^verbatim>\<open>Crc32\<close> and \<^verbatim>\<open>CrcProps\<close> model \<^verbatim>\<open>libc/src/zlib/crc32.c\<close> and show all its loops equal to the bit-wise register, with the locale
  \<open>crc_engine\<close> for the two byte orders, and the combination of two checksums correct. \<^verbatim>\<open>Adler\<close> is \<^verbatim>\<open>libc/src/zlib/adler32.c\<close>. \<^verbatim>\<open>BitOutput\<close>, \<^verbatim>\<open>HuffCodes\<close> and
  \<^verbatim>\<open>CodeLens\<close> model the parts of \<^verbatim>\<open>libc/src/zlib/trees.c\<close> that write bits, assign codes and send code lengths, and the loop of inflate.c that expands them.

  \<^bold>\<open>Interval domain.\<close> \<^verbatim>\<open>Intervals\<close> models \<^verbatim>\<open>src/Domain/Interval/Type.hs\<close>, Value.hs and Offset.hs and the addresses of \<^verbatim>\<open>src/Domain/MemAddr.hs\<close>. A value is related to
  the set of integers it stands for; the theorems show which operations are sound and that widening stabilises.

  Theorems that hold of the code as it is include those that show it to differ from what it is meant to do, for example the bytes a failed flush sends
  again, or the negation of an interval.

  \<^bold>\<open>Not modelled.\<close>
  \<^item> Wrappers of system calls, signals, processes, sockets, terminals, directories, the mount table and the system log: input and output of the
    kernel without logic of their own. The stubs of system calls and the error messages are generated by the build.
  \<^item> Program start and exit, and the assembler parts of each architecture.
  \<^item> In zlib: the search for matches and the block choice of deflate.c, the construction of the trees, the decoding tables and the rest of inflate.c,
    inffast.c and infback.c, and the gzip files of gzio.c.
  \<^item> The explorer apart from the interval domain: its unfolders work on mutable hash tables in IO, and its models and transformers are built on the syntax trees of
    a C front end that is not in the repository. In the interval domain the subsumption of offset lists is left out, because it
    depends on how the base library derives the comparisons of a partial order.
  \<^item> \<^verbatim>\<open>errno\<close> outside the environment functions, and the flags that guard the tables of crc32.c against concurrent generation.
  \<^item> The tool CIL in \<^verbatim>\<open>tools/cil-1.7.3\<close> and the benchmarks are third-party code and input data.
\<close>

end
